(* ===== verification/Prelude.thy ===== *)
theory Prelude
  imports Main "HOL-Library.Word" "HOL-Library.Signed_Division" "HOL-Library.Monad_Syntax"
begin

text \<open>
  Shared vocabulary of the development: the machine integer types of the C and C++
  sources, the reading of 32-bit limbs as numbers, and the lemmas on words, lists and
  options that the component theories use.

  Conventions used throughout:
  \<^item> \<open>None\<close> in a result of type \<open>'a option\<close> stands for a run of the C++ code
    that does not return normally: a failed \<open>assert\<close>, a thrown exception or a
    dereferenced null pointer;
  \<^item> an unsigned C++ integer is a word of its width, a signed one is an \<open>int\<close>, with
    the conversion between the two written out where the source converts;
  \<^item> signed division is \<open>sdiv\<close>, which truncates towards zero as in C++.
\<close>

unbundle bit_operations_syntax

type_synonym uint8 = "8 word"
type_synonym uint32 = "32 word"
type_synonym uint64 = "64 word"

named_theorems limb_simps \<open>value of a limb operation in terms of the values of its arguments\<close>

section \<open>Words\<close>

lemma unat_ucast_up_32_64 [simp]: "unat (ucast (x :: uint32) :: uint64) = unat x"
proof -
  have "unat x < 2 ^ 32" using unsigned_less [of x] by simp
  then show ?thesis
    by (simp add: unsigned_ucast_eq take_bit_nat_eq_self_iff)
qed

lemma unat_ucast_64_32: "unat (ucast (n :: uint64) :: uint32) = unat n mod 2 ^ 32"
  by (simp add: unsigned_ucast_eq take_bit_eq_mod)

lemma unat32_less: "unat (x :: uint32) < 4294967296"
  using unsigned_less [of x] by simp

lemma unat64_less: "unat (x :: uint64) < 18446744073709551616"
  using unsigned_less [of x] by simp

lemma unat_not_32: "unat (NOT (x :: uint32)) = 4294967295 - unat x"
proof -
  have "NOT x = - 1 - x" by (simp add: not_eq_complement)
  then have "unat (NOT x) = unat (- 1 - x)" by simp
  also have "\<dots> = unat (- 1 :: uint32) - unat x"
    by (rule unat_sub) simp
  finally show ?thesis by (simp add: unsigned_minus_1_eq_mask mask_eq_exp_minus_1)
qed

text \<open>Splitting a 64-bit sum or product into its low limb and its carry.\<close>

lemma unat_low32: "unat (ucast (n AND 0xffffffff :: uint64) :: uint32) = unat n mod 4294967296"
proof -
  have "n AND 0xffffffff = take_bit 32 n"
    by (simp add: take_bit_eq_mask mask_eq_exp_minus_1)
  then have "unat (ucast (n AND 0xffffffff) :: uint32) = unat (take_bit 32 n) mod 2 ^ 32"
    by (simp only: unat_ucast_64_32)
  also have "\<dots> = unat n mod 2 ^ 32"
    by (simp only: unsigned_take_bit_eq) (simp add: take_bit_eq_mod)
  finally show ?thesis by simp
qed

lemma unat_high32: "unat (drop_bit 32 (n :: uint64)) = unat n div 4294967296"
  by (simp only: unat_drop_bit_eq) (simp add: drop_bit_eq_div)

lemma bit_unat_odd: "bit (w :: 'a :: len word) n \<longleftrightarrow> odd (unat w div 2 ^ n)"
  by (simp only: bit_iff_odd [symmetric]) (simp add: bit_unsigned_iff)

lemma unat_or_disjoint:
  fixes x y :: "'a :: len word"
  assumes "x AND y = 0"
  shows "unat (x OR y) = unat x + unat y"
proof -
  have "unat (x OR y) = unat x OR unat y" by (simp add: unsigned_or_eq)
  also have "unat x AND unat y = 0"
    using assms by (metis unsigned_and_eq unsigned_0)
  then have "unat x OR unat y = unat x + unat y" by (simp add: disjunctive_add_eq_or)
  finally show ?thesis .
qed

lemma unat_push_bit_32_64: "unat (push_bit 32 (ucast (x :: uint32)) :: uint64) = unat x * 4294967296"
proof -
  have "unat x * 4294967296 < 18446744073709551616" using unat32_less [of x] by simp
  then show ?thesis
    by (simp only: unsigned_push_bit_eq unat_ucast_up_32_64)
       (simp add: push_bit_eq_mult take_bit_eq_mod)
qed

lemma word_nonzero_unat: "(w :: uint32) \<noteq> 0 \<longleftrightarrow> unat w \<noteq> 0"
  by (simp add: unat_eq_zero)

lemma not_bit_of_small:
  fixes x :: "'a :: len word"
  assumes "unat x < 2 ^ n" "n \<le> k"
  shows "\<not> bit x k"
proof -
  have "unat x < 2 ^ k" using assms by (rule less_le_trans [OF _ power_increasing]) simp
  then have "unat x div 2 ^ k = 0" by simp
  then have "\<not> bit (unat x) k" by (simp add: bit_iff_odd)
  then show ?thesis by (auto simp: bit_unsigned_iff dest: bit_imp_le_length)
qed

lemma small_and_push_bit:
  fixes x :: "'a :: len word"
  assumes "unat x < 2 ^ n" "n \<le> k"
  shows "x AND push_bit k y = 0"
  using not_bit_of_small [OF assms(1)] assms(2)
  by (intro bit_eqI) (auto simp: bit_and_iff bit_push_bit_iff)

lemma small_and_not_mask:
  fixes x :: "'a :: len word"
  assumes "unat x < 2 ^ n"
  shows "x AND NOT (mask n) = 0"
  using not_bit_of_small [OF assms]
  by (intro bit_eqI) (auto simp: bit_and_iff bit_not_iff bit_mask_iff not_less)

lemma unat_plus_one_32: "unat (x + 1 :: uint32) = (if x + 1 = 0 then 0 else unat x + 1)"
  by (simp add: unatSuc add.commute)

lemma plus_one_0_32: "(x + 1 = (0 :: uint32)) = (unat x = 4294967295)"
proof
  assume "x + 1 = 0"
  then have "x = - 1" by (simp add: eq_neg_iff_add_eq_0)
  then show "unat x = 4294967295" by (simp add: unsigned_minus_1_eq_mask mask_eq_exp_minus_1)
next
  assume "unat x = 4294967295"
  then have "unat x = unat (- 1 :: uint32)" by (simp add: unsigned_minus_1_eq_mask mask_eq_exp_minus_1)
  then have "x = - 1" by (rule unsigned_word_eqI)
  then show "x + 1 = 0" by simp
qed

end
