(* ===== verification/Arith_Uint256.thy ===== *)
theory Arith_Uint256
  imports Prelude
begin

text \<open>
  The 256-bit unsigned integers of \<open>src/arith_uint256.h\<close> and
  \<open>src/arith_uint256.cpp\<close>: the class template \<open>base_uint<256>\<close> as a list of eight
  32-bit limbs, least significant first (the member array \<open>pn\<close>), each operator as the
  loop over the limbs that the source has, and the compact encoding of difficulty
  targets. The lemmas show that every operator computes the arithmetic operation modulo
  \<open>2 ^ 256\<close> on the number \<open>val\<close> that the limbs stand for.
\<close>

section \<open>Representation and operators\<close>

type_synonym base_uint = "uint32 list"

definition WIDTH :: nat where
  "WIDTH = 8"

definition base_uint_zero :: base_uint where
  "base_uint_zero = replicate WIDTH 0"

definition base_uint_of_u64 :: "uint64 \<Rightarrow> base_uint" where
  "base_uint_of_u64 b = [ucast b, ucast (drop_bit 32 b)] @ replicate (WIDTH - 2) 0"

definition uint_not :: "base_uint \<Rightarrow> base_uint" where
  "uint_not a = map (\<lambda>x. NOT x) a"

text \<open>\<open>operator++\<close>: add one to the lowest limb and go on while the limb wrapped to 0.\<close>

fun uint_inc :: "base_uint \<Rightarrow> base_uint" where
  "uint_inc [] = []"
| "uint_inc (x # xs) = (if x + 1 = 0 then (x + 1) # uint_inc xs else (x + 1) # xs)"

text \<open>\<open>operator--\<close>: subtract one and go on while the limb wrapped to the maximum.\<close>

fun uint_dec :: "base_uint \<Rightarrow> base_uint" where
  "uint_dec [] = []"
| "uint_dec (x # xs) = (if x - 1 = 0xffffffff then (x - 1) # uint_dec xs else (x - 1) # xs)"

definition uint_neg :: "base_uint \<Rightarrow> base_uint" where
  "uint_neg a = uint_inc (uint_not a)"

text \<open>\<open>operator+=\<close>: the loop over the limbs with a 64-bit carry.\<close>

fun uint_add_loop :: "uint64 \<Rightarrow> base_uint \<Rightarrow> base_uint \<Rightarrow> base_uint" where
  "uint_add_loop carry (x # xs) (y # ys) =
     (let n = carry + ucast x + ucast y
      in ucast (n AND 0xffffffff) # uint_add_loop (drop_bit 32 n) xs ys)"
| "uint_add_loop carry _ _ = []"

definition uint_add :: "base_uint \<Rightarrow> base_uint \<Rightarrow> base_uint" where
  "uint_add a b = uint_add_loop 0 a b"

definition uint_sub :: "base_uint \<Rightarrow> base_uint \<Rightarrow> base_uint" where
  "uint_sub a b = uint_add a (uint_neg b)"

text \<open>\<open>operator*=(uint32_t)\<close>.\<close>

fun uint_mul32_loop :: "uint64 \<Rightarrow> uint32 \<Rightarrow> base_uint \<Rightarrow> base_uint" where
  "uint_mul32_loop carry b32 [] = []"
| "uint_mul32_loop carry b32 (x # xs) =
     (let n = carry + ucast b32 * ucast x
      in ucast (n AND 0xffffffff) # uint_mul32_loop (drop_bit 32 n) b32 xs)"

definition uint_mul32 :: "base_uint \<Rightarrow> uint32 \<Rightarrow> base_uint" where
  "uint_mul32 a b32 = uint_mul32_loop 0 b32 a"

text \<open>
  \<open>operator*=(const base_uint&)\<close>: schoolbook multiplication. The inner loop runs over
  the limbs \<open>a.pn[j], a.pn[j + 1], \<dots>\<close> of the accumulator and the limbs
  \<open>b.pn[0], b.pn[1], \<dots>\<close> of the factor and stops at the end of the accumulator.
\<close>

fun uint_mul_inner :: "uint64 \<Rightarrow> uint32 \<Rightarrow> base_uint \<Rightarrow> base_uint \<Rightarrow> base_uint" where
  "uint_mul_inner carry p (x # xs) (b # bs) =
     (let n = carry + ucast x + ucast p * ucast b
      in ucast (n AND 0xffffffff) # uint_mul_inner (drop_bit 32 n) p xs bs)"
| "uint_mul_inner carry p xs _ = xs"

definition uint_mul_row :: "base_uint \<Rightarrow> base_uint \<Rightarrow> nat \<Rightarrow> base_uint \<Rightarrow> base_uint" where
  "uint_mul_row pn b j a = take j a @ uint_mul_inner 0 (pn ! j) (drop j a) b"

definition uint_mul :: "base_uint \<Rightarrow> base_uint \<Rightarrow> base_uint" where
  "uint_mul pn b = fold (uint_mul_row pn b) [0..<WIDTH] base_uint_zero"

text \<open>\<open>operator<<=\<close> and \<open>operator>>=\<close>: every limb is or-ed into its two targets.\<close>

definition uint_shl_step :: "base_uint \<Rightarrow> nat \<Rightarrow> nat \<Rightarrow> nat \<Rightarrow> base_uint \<Rightarrow> base_uint" where
  "uint_shl_step a k shift i pn =
     (let pn = (if i + k + 1 < WIDTH \<and> shift \<noteq> 0
                then pn[i + k + 1 := pn ! (i + k + 1) OR drop_bit (32 - shift) (a ! i)]
                else pn)
      in if i + k < WIDTH
         then pn[i + k := pn ! (i + k) OR push_bit shift (a ! i)]
         else pn)"

definition uint_shl :: "base_uint \<Rightarrow> nat \<Rightarrow> base_uint" where
  "uint_shl a shift =
     fold (uint_shl_step a (shift div 32) (shift mod 32)) [0..<WIDTH] base_uint_zero"

definition uint_shr_step :: "base_uint \<Rightarrow> nat \<Rightarrow> nat \<Rightarrow> nat \<Rightarrow> base_uint \<Rightarrow> base_uint" where
  "uint_shr_step a k shift i pn =
     (let pn = (if k + 1 \<le> i \<and> shift \<noteq> 0
                then pn[i - k - 1 := pn ! (i - k - 1) OR push_bit (32 - shift) (a ! i)]
                else pn)
      in if k \<le> i
         then pn[i - k := pn ! (i - k) OR drop_bit shift (a ! i)]
         else pn)"

definition uint_shr :: "base_uint \<Rightarrow> nat \<Rightarrow> base_uint" where
  "uint_shr a shift =
     fold (uint_shr_step a (shift div 32) (shift mod 32)) [0..<WIDTH] base_uint_zero"

text \<open>\<open>CompareTo\<close>: from the most significant limb down.\<close>

fun uint_compare_from :: "nat \<Rightarrow> base_uint \<Rightarrow> base_uint \<Rightarrow> int" where
  "uint_compare_from 0 a b = 0"
| "uint_compare_from (Suc i) a b =
     (if a ! i < b ! i then - 1
      else if b ! i < a ! i then 1
      else uint_compare_from i a b)"

definition CompareTo :: "base_uint \<Rightarrow> base_uint \<Rightarrow> int" where
  "CompareTo a b = uint_compare_from WIDTH a b"

abbreviation uint_gt :: "base_uint \<Rightarrow> base_uint \<Rightarrow> bool" where
  "uint_gt a b \<equiv> CompareTo a b > 0"

abbreviation uint_lt :: "base_uint \<Rightarrow> base_uint \<Rightarrow> bool" where
  "uint_lt a b \<equiv> CompareTo a b < 0"

abbreviation uint_ge :: "base_uint \<Rightarrow> base_uint \<Rightarrow> bool" where
  "uint_ge a b \<equiv> CompareTo a b \<ge> 0"

definition EqualTo :: "base_uint \<Rightarrow> uint64 \<Rightarrow> bool" where
  "EqualTo a b =
     (if \<exists>i \<in> set [2..<WIDTH]. a ! i \<noteq> 0 then False
      else if ucast (a ! 1) \<noteq> drop_bit 32 b then False
      else if ucast (a ! 0) \<noteq> b AND 0xffffffff then False
      else True)"

text \<open>\<open>bits()\<close>: position of the highest bit set plus one, or zero.\<close>

fun limb_top_bit :: "nat \<Rightarrow> uint32 \<Rightarrow> nat" where
  "limb_top_bit 0 x = 0"
| "limb_top_bit (Suc nbits) x =
     (if x AND push_bit (Suc nbits) 1 \<noteq> 0 then Suc nbits else limb_top_bit nbits x)"

fun uint_bits_from :: "nat \<Rightarrow> base_uint \<Rightarrow> nat" where
  "uint_bits_from 0 a = 0"
| "uint_bits_from (Suc pos) a =
     (if a ! pos \<noteq> 0 then 32 * pos + limb_top_bit 31 (a ! pos) + 1 else uint_bits_from pos a)"

definition uint_bits :: "base_uint \<Rightarrow> nat" where
  "uint_bits a = uint_bits_from WIDTH a"

definition GetLow64 :: "base_uint \<Rightarrow> uint64" where
  "GetLow64 a = ucast (a ! 0) OR push_bit 32 (ucast (a ! 1))"

text \<open>
  \<open>operator/=\<close>: shift-and-subtract division. The loop runs for the values
  \<open>shift, shift - 1, \<dots>, 0\<close>; \<open>None\<close> is the exception \<open>uint_error\<close>.
\<close>

fun uint_div_loop :: "nat \<Rightarrow> base_uint \<Rightarrow> base_uint \<Rightarrow> base_uint \<Rightarrow> base_uint" where
  "uint_div_loop 0 num dv q = q"
| "uint_div_loop (Suc shift) num dv q =
     (if uint_ge num dv
      then uint_div_loop shift (uint_sub num dv) (uint_shr dv 1)
             (q[shift div 32 := q ! (shift div 32) OR push_bit (shift mod 32) 1])
      else uint_div_loop shift num (uint_shr dv 1) q)"

definition uint_div :: "base_uint \<Rightarrow> base_uint \<Rightarrow> base_uint option" where
  "uint_div a b =
     (let num_bits = uint_bits a; div_bits = uint_bits b
      in if div_bits = 0 then None
         else if div_bits > num_bits then Some base_uint_zero
         else let shift = num_bits - div_bits
              in Some (uint_div_loop (Suc shift) a (uint_shl b shift) base_uint_zero))"

text \<open>
  The compact encoding. \<open>SetCompact\<close> returns the number with the two flags it
  reports through pointers, in the order \<open>(value, negative, overflow)\<close>.
\<close>

definition SetCompact :: "uint32 \<Rightarrow> base_uint \<times> bool \<times> bool" where
  "SetCompact nCompact =
     (let nSize = unat (drop_bit 24 nCompact);
          nWord0 = nCompact AND 0x007fffff;
          nWord = (if nSize \<le> 3 then drop_bit (8 * (3 - nSize)) nWord0 else nWord0);
          n = (if nSize \<le> 3 then base_uint_of_u64 (ucast nWord)
               else uint_shl (base_uint_of_u64 (ucast nWord)) (8 * (nSize - 3)));
          fNegative = (nWord \<noteq> 0 \<and> nCompact AND 0x00800000 \<noteq> 0);
          fOverflow = (nWord \<noteq> 0 \<and> (nSize > 34 \<or> (nWord > 0xff \<and> nSize > 33) \<or>
                                     (nWord > 0xffff \<and> nSize > 32)))
      in (n, fNegative, fOverflow))"

definition GetCompact :: "base_uint \<Rightarrow> bool \<Rightarrow> uint32 option" where
  "GetCompact a fNegative =
     (let nSize0 = (uint_bits a + 7) div 8;
          nCompact0 = (if nSize0 \<le> 3 then ucast (push_bit (8 * (3 - nSize0)) (GetLow64 a))
                       else ucast (GetLow64 (uint_shr a (8 * (nSize0 - 3))))) :: uint32;
          (nCompact1, nSize) = (if nCompact0 AND 0x00800000 \<noteq> 0
                                then (drop_bit 8 nCompact0, nSize0 + 1)
                                else (nCompact0, nSize0))
      in if nCompact1 AND NOT 0x007fffff \<noteq> 0 then None
         else if \<not> nSize < 256 then None
         else let nCompact2 = nCompact1 OR push_bit 24 (of_nat nSize)
              in Some (nCompact2 OR
                   (if fNegative \<and> nCompact2 AND 0x007fffff \<noteq> 0 then 0x00800000 else 0)))"

section \<open>The operators compute modulo \<open>2 ^ 256\<close>\<close>

text \<open>The number a list of limbs stands for.\<close>

fun val :: "base_uint \<Rightarrow> nat" where
  "val [] = 0"
| "val (x # xs) = unat x + 4294967296 * val xs"

lemma val_less: "val a < 4294967296 ^ length a"
proof (induction a)
  case (Cons x xs)
  have "unat x + 4294967296 * val xs < 4294967296 * (val xs + 1)"
    using unat32_less [of x] by simp
  also have "\<dots> \<le> 4294967296 * 4294967296 ^ length xs"
    using Cons by (intro mult_le_mono2) simp
  finally show ?case by simp
qed simp

lemma val_append: "val (a @ b) = val a + 4294967296 ^ length a * val b"
  by (induction a) (simp_all add: algebra_simps)

lemma val_replicate_0 [simp]: "val (replicate n 0) = 0"
  by (induction n) simp_all

lemma val_inject:
  "length a = length b \<Longrightarrow> val a = val b \<Longrightarrow> a = b"
proof (induction a b rule: list_induct2)
  case (Cons x xs y ys)
  have "unat x = val (x # xs) mod 4294967296" using unat32_less [of x] by simp
  also have "\<dots> = unat y" using Cons.prems unat32_less [of y] by simp
  finally have "x = y" by (simp add: unsigned_word_eqI)
  moreover from this Cons have "xs = ys" by simp
  ultimately show ?case by simp
qed simp

lemma length_uint_not [simp]: "length (uint_not a) = length a"
  by (simp add: uint_not_def)

lemma val_uint_not: "val (uint_not a) = 4294967296 ^ length a - 1 - val a"
proof (induction a)
  case (Cons x xs)
  have "val xs < 4294967296 ^ length xs" by (rule val_less)
  moreover have "unat x < 4294967296" by (rule unat32_less)
  ultimately show ?case using Cons
    by (simp add: uint_not_def unat_not_32 diff_mult_distrib2)
qed (simp add: uint_not_def)

lemma length_uint_inc [simp]: "length (uint_inc a) = length a"
  by (induction a) auto

lemma val_uint_inc: "val (uint_inc a) = (val a + 1) mod 4294967296 ^ length a"
proof (induction a)
  case (Cons x xs)
  show ?case
  proof (cases "x + 1 = 0")
    case True
    then have "unat x = 4294967295" by (simp add: plus_one_0_32)
    with True Cons show ?thesis
      by (simp add: mult_mod_right algebra_simps)
  next
    case False
    have "unat x + 1 + 4294967296 * val xs < 4294967296 * 4294967296 ^ length xs"
    proof -
      have "unat x \<noteq> 4294967295" using False by (simp add: plus_one_0_32)
      then have "unat x + 1 < 4294967296" using unat32_less [of x] by linarith
      then have "unat x + 1 + 4294967296 * val xs < 4294967296 * (val xs + 1)" by simp
      also have "\<dots> \<le> 4294967296 * 4294967296 ^ length xs"
        using val_less [of xs] by (intro mult_le_mono2) simp
      finally show ?thesis .
    qed
    with False show ?thesis by (simp add: unat_plus_one_32)
  qed
qed simp

lemma length_uint_neg [simp]: "length (uint_neg a) = length a"
  by (simp add: uint_neg_def)

lemma val_uint_neg: "val (uint_neg a) = (4294967296 ^ length a - val a) mod 4294967296 ^ length a"
  using val_less [of a] by (simp add: uint_neg_def val_uint_inc val_uint_not Suc_diff_Suc)

lemma length_uint_add_loop [simp]:
  "length a = length b \<Longrightarrow> length (uint_add_loop c a b) = length a"
  by (induction c a b rule: uint_add_loop.induct) (simp_all add: Let_def)

text \<open>One limb of a carry chain.\<close>

lemma carry_chain_step:
  fixes t r :: nat
  assumes "r = (t div 4294967296 + m) mod 4294967296 ^ n"
  shows "t mod 4294967296 + 4294967296 * r = (t + 4294967296 * m) mod (4294967296 * 4294967296 ^ n)"
proof -
  let ?B = "4294967296 :: nat"
  have "(t + ?B * m) mod (?B * ?B ^ n) = ?B * ((t + ?B * m) div ?B mod ?B ^ n) + (t + ?B * m) mod ?B"
    by (rule mod_mult2_eq)
  then show ?thesis using assms by (simp add: add.commute)
qed

lemma val_uint_add_loop:
  "length a = length b \<Longrightarrow> unat c \<le> 1 \<Longrightarrow>
   val (uint_add_loop c a b) = (val a + val b + unat c) mod 4294967296 ^ length a"
proof (induction c a b rule: uint_add_loop.induct)
  case (1 c x xs y ys)
  let ?n = "c + ucast x + ucast y :: uint64"
  have un: "unat ?n = unat c + unat x + unat y"
    using "1.prems" unat32_less [of x] unat32_less [of y]
    by (simp add: unat_word_ariths)
  have "unat ?n div 4294967296 \<le> 1"
    using un "1.prems" unat32_less [of x] unat32_less [of y] by simp
  then have "unat (drop_bit 32 ?n) \<le> 1" by (simp only: unat_high32)
  with "1.IH" "1.prems" have
    "val (uint_add_loop (drop_bit 32 ?n) xs ys) =
       (val xs + val ys + unat ?n div 4294967296) mod 4294967296 ^ length xs"
    by (simp add: unat_high32)
  then have "val (uint_add_loop c (x # xs) (y # ys)) =
      (unat ?n + 4294967296 * (val xs + val ys)) mod (4294967296 * 4294967296 ^ length xs)"
    by (simp only: uint_add_loop.simps Let_def val.simps unat_low32)
       (rule carry_chain_step, simp add: add.commute)
  with un show ?case by (simp add: algebra_simps)
qed simp_all

lemma length_uint_add [simp]: "length a = length b \<Longrightarrow> length (uint_add a b) = length a"
  by (simp add: uint_add_def)

lemma val_uint_add [limb_simps]:
  "length a = length b \<Longrightarrow> val (uint_add a b) = (val a + val b) mod 4294967296 ^ length a"
  by (simp add: uint_add_def val_uint_add_loop)

lemma length_uint_sub [simp]: "length a = length b \<Longrightarrow> length (uint_sub a b) = length a"
  by (simp add: uint_sub_def)

lemma val_uint_sub_wrap:
  "length a = length b \<Longrightarrow>
   val (uint_sub a b) = (val a + (4294967296 ^ length a - val b)) mod 4294967296 ^ length a"
  by (simp add: uint_sub_def val_uint_add val_uint_neg mod_add_right_eq)

lemma val_uint_sub [limb_simps]:
  assumes "length a = length b" "val b \<le> val a"
  shows "val (uint_sub a b) = val a - val b"
proof -
  have "val a < 4294967296 ^ length a" by (rule val_less)
  moreover have "val b < 4294967296 ^ length a" using val_less [of b] assms(1) by simp
  ultimately have eq: "val a + (4294967296 ^ length a - val b) = (val a - val b) + 4294967296 ^ length a"
    using assms(2) by linarith
  have "val (uint_sub a b) = ((val a - val b) + 4294967296 ^ length a) mod 4294967296 ^ length a"
    by (simp only: val_uint_sub_wrap [OF assms(1)] eq)
  also have "\<dots> = val a - val b"
    using \<open>val a < 4294967296 ^ length a\<close> by (simp add: less_imp_diff_less)
  finally show ?thesis .
qed

lemma length_uint_mul32_loop [simp]: "length (uint_mul32_loop c b a) = length a"
  by (induction c b a rule: uint_mul32_loop.induct) (simp_all add: Let_def)

text \<open>A limb product plus two limbs fits in 64 bits.\<close>

lemma limb_product_bound:
  assumes "x < 4294967296" "y < 4294967296" "c < 4294967296" "d < 4294967296"
  shows "c + d + x * y < (18446744073709551616 :: nat)"
proof -
  have "x * y \<le> 4294967295 * 4294967295"
    using assms by (intro mult_le_mono) simp_all
  then show ?thesis using assms by simp
qed

lemma val_uint_mul32_loop:
  "unat c < 4294967296 \<Longrightarrow>
   val (uint_mul32_loop c b a) = (val a * unat b + unat c) mod 4294967296 ^ length a"
proof (induction c b a rule: uint_mul32_loop.induct)
  case (2 c b x xs)
  let ?n = "c + ucast b * ucast x :: uint64"
  have bound: "unat c + 0 + unat b * unat x < 18446744073709551616"
    using "2.prems" by (intro limb_product_bound unat32_less) simp_all
  then have un: "unat ?n = unat c + unat b * unat x"
    by (simp add: unat_word_ariths)
  have "unat ?n div 4294967296 < 4294967296"
    using un bound by (simp add: less_mult_imp_div_less)
  then have "unat (drop_bit 32 ?n) < 4294967296" by (simp only: unat_high32)
  with "2.IH" have
    "val (uint_mul32_loop (drop_bit 32 ?n) b xs) =
       (val xs * unat b + unat ?n div 4294967296) mod 4294967296 ^ length xs"
    by (simp add: unat_high32)
  then have "val (uint_mul32_loop c b (x # xs)) =
      (unat ?n + 4294967296 * (val xs * unat b)) mod (4294967296 * 4294967296 ^ length xs)"
    by (simp only: uint_mul32_loop.simps Let_def val.simps unat_low32)
       (rule carry_chain_step, simp add: add.commute)
  with un show ?case by (simp add: algebra_simps)
qed simp

lemma length_uint_mul32 [simp]: "length (uint_mul32 a b) = length a"
  by (simp add: uint_mul32_def)

lemma val_uint_mul32 [limb_simps]:
  "val (uint_mul32 a b) = (val a * unat b) mod 4294967296 ^ length a"
  by (simp add: uint_mul32_def val_uint_mul32_loop)

lemma length_uint_mul_inner [simp]: "length (uint_mul_inner c p a b) = length a"
  by (induction c p a b rule: uint_mul_inner.induct) (simp_all add: Let_def)

lemma val_uint_mul_inner:
  "unat c < 4294967296 \<Longrightarrow> length a \<le> length b \<Longrightarrow>
   val (uint_mul_inner c p a b) =
     (val a + unat p * val b + unat c) mod 4294967296 ^ length a"
proof (induction c p a b rule: uint_mul_inner.induct)
  case (1 c p x xs b bs)
  let ?n = "c + ucast x + ucast p * ucast b :: uint64"
  have bound: "unat c + unat x + unat p * unat b < 18446744073709551616"
    using "1.prems" by (intro limb_product_bound unat32_less) simp_all
  then have un: "unat ?n = unat c + unat x + unat p * unat b"
    by (simp add: unat_word_ariths mod_add_left_eq)
  have "unat ?n div 4294967296 < 4294967296"
    using un bound by (simp add: less_mult_imp_div_less)
  then have "unat (drop_bit 32 ?n) < 4294967296" by (simp only: unat_high32)
  with "1.IH" "1.prems" have
    "val (uint_mul_inner (drop_bit 32 ?n) p xs bs) =
       (val xs + unat p * val bs + unat ?n div 4294967296) mod 4294967296 ^ length xs"
    by (simp add: unat_high32)
  then have "val (uint_mul_inner c p (x # xs) (b # bs)) =
      (unat ?n + 4294967296 * (val xs + unat p * val bs)) mod (4294967296 * 4294967296 ^ length xs)"
    by (simp only: uint_mul_inner.simps Let_def val.simps unat_low32)
       (rule carry_chain_step, simp add: add.commute)
  with un show ?case by (simp add: algebra_simps)
qed (simp_all add: val_less)

lemma length_uint_mul_row [simp]: "length (uint_mul_row pn b j a) = length a"
  by (simp add: uint_mul_row_def)

lemma val_take_drop: "val a = val (take j a) + 4294967296 ^ min (length a) j * val (drop j a)"
  by (metis append_take_drop_id val_append length_take)

lemma val_uint_mul_row:
  assumes "length a = length b" "j < length a"
  shows "val (uint_mul_row pn b j a) =
    (val a + unat (pn ! j) * 4294967296 ^ j * val b) mod 4294967296 ^ length a"
proof -
  let ?B = "4294967296 :: nat"
  let ?d = "val (drop j a) + unat (pn ! j) * val b"
  have "val (uint_mul_row pn b j a) = val (take j a) + ?B ^ j * (?d mod ?B ^ (length a - j))"
    using assms by (simp add: uint_mul_row_def val_append val_uint_mul_inner min_def)
  also have "\<dots> = (val (take j a) + ?B ^ j * ?d) mod (?B ^ j * ?B ^ (length a - j))"
  proof -
    have "val (take j a) < ?B ^ j"
      using val_less [of "take j a"] assms by (simp add: min_def)
    then show ?thesis
      by (simp add: mod_mult2_eq)
  qed
  also have "?B ^ j * ?B ^ (length a - j) = ?B ^ length a"
    using assms by (simp flip: power_add)
  also have "val (take j a) + ?B ^ j * ?d = val a + unat (pn ! j) * ?B ^ j * val b"
    using val_take_drop [of a j] assms by (simp add: algebra_simps min_def)
  finally show ?thesis .
qed

lemma val_fold_mul_row:
  assumes "length a = length b" "n \<le> length b"
  shows "length (fold (uint_mul_row pn b) [0..<n] a) = length a \<and>
    val (fold (uint_mul_row pn b) [0..<n] a) =
      (val a + (\<Sum>j<n. unat (pn ! j) * 4294967296 ^ j) * val b) mod 4294967296 ^ length a"
  using assms(2)
proof (induction n)
  case 0
  then show ?case using val_less [of a] by simp
next
  case (Suc n)
  then show ?case
    using assms(1)
    by (simp add: val_uint_mul_row mod_add_left_eq mod_add_right_eq algebra_simps)
qed

lemma val_sum: "val a = (\<Sum>j<length a. unat (a ! j) * 4294967296 ^ j)"
proof (induction a)
  case (Cons x xs)
  have "(\<Sum>j<length (x # xs). unat ((x # xs) ! j) * 4294967296 ^ j) =
        unat x + (\<Sum>j<length xs. unat (xs ! j) * 4294967296 ^ Suc j)"
    by (simp only: length_Cons sum.lessThan_Suc_shift) simp
  then show ?case using Cons by (simp add: sum_distrib_left algebra_simps)
qed simp

lemma val_uint_mul [limb_simps]:
  assumes "length a = WIDTH" "length b = WIDTH"
  shows "length (uint_mul a b) = WIDTH \<and> val (uint_mul a b) = (val a * val b) mod 4294967296 ^ WIDTH"
  using val_fold_mul_row [of base_uint_zero b WIDTH a] assms val_sum [of a]
  by (simp add: uint_mul_def base_uint_zero_def)

section \<open>Comparison and bit length\<close>

lemma val_take_Suc:
  "i < length a \<Longrightarrow> val (take (Suc i) a) = val (take i a) + 4294967296 ^ i * unat (a ! i)"
  by (simp add: take_Suc_conv_app_nth val_append min_def)

lemma val_take_less: "i \<le> length a \<Longrightarrow> val (take i a) < 4294967296 ^ i"
  using val_less [of "take i a"] by (simp add: min_absorb2)

lemma high_limb_less:
  fixes x y u v B :: nat
  assumes "x < y" "u < B"
  shows "u + B * x < v + B * y"
proof -
  have "u + B * x < B * (x + 1)" using assms(2) by simp
  also have "\<dots> \<le> B * y" using assms(1) by (intro mult_le_mono2) simp
  finally show ?thesis by simp
qed

lemma uint_compare_from_val:
  "n \<le> length a \<Longrightarrow> n \<le> length b \<Longrightarrow>
   uint_compare_from n a b =
     (if val (take n a) < val (take n b) then - 1
      else if val (take n b) < val (take n a) then 1 else 0)"
proof (induction n)
  case (Suc n)
  have ta: "val (take n a) < 4294967296 ^ n" and tb: "val (take n b) < 4294967296 ^ n"
    using Suc.prems by (auto intro: val_take_less)
  show ?case
  proof (cases "unat (a ! n)" "unat (b ! n)" rule: linorder_cases)
    case less
    with high_limb_less [OF less ta, of "val (take n b)"] Suc.prems show ?thesis
      by (simp add: val_take_Suc word_less_nat_alt)
  next
    case equal
    then show ?thesis using Suc by (simp add: val_take_Suc word_less_nat_alt)
  next
    case greater
    with high_limb_less [OF greater tb, of "val (take n a)"] Suc.prems show ?thesis
      by (simp add: val_take_Suc word_less_nat_alt)
  qed
qed simp

lemma uint_compare_iff [limb_simps]:
  assumes "length a = WIDTH" "length b = WIDTH"
  shows "uint_gt a b \<longleftrightarrow> val b < val a"
    and "uint_lt a b \<longleftrightarrow> val a < val b"
    and "uint_ge a b \<longleftrightarrow> val b \<le> val a"
  using uint_compare_from_val [of WIDTH a b] assms by (auto simp: CompareTo_def)

lemma limb_top_bit_bounds:
  assumes "unat x < 2 ^ Suc n" "x \<noteq> 0" "n < 32"
  shows "2 ^ limb_top_bit n x \<le> unat x \<and> unat x < 2 ^ Suc (limb_top_bit n x)"
  using assms
proof (induction n)
  case 0
  then have "unat x \<noteq> 0" by (simp add: unat_eq_zero)
  then show ?case using 0 by simp
next
  case (Suc n)
  have "x AND push_bit (Suc n) 1 \<noteq> 0 \<longleftrightarrow> bit x (Suc n)"
    by (simp add: bit_iff_and_push_bit_not_eq_0)
  also have "\<dots> \<longleftrightarrow> odd (unat x div 2 ^ Suc n)"
    by (simp only: bit_iff_odd [symmetric]) (simp add: bit_unsigned_iff)
  finally have b: "x AND push_bit (Suc n) 1 \<noteq> 0 \<longleftrightarrow> odd (unat x div 2 ^ Suc n)" .
  show ?case
  proof (cases "2 ^ Suc n \<le> unat x")
    case True
    then have "unat x div 2 ^ Suc n = 1"
      using Suc.prems by (intro div_nat_eqI) simp_all
    with b True Suc.prems show ?thesis by simp
  next
    case False
    then have "unat x div 2 ^ Suc n = 0" by simp
    with b have "x AND push_bit (Suc n) 1 = 0" by simp
    with False Suc show ?thesis by simp
  qed
qed

lemma uint_bits_from_bounds:
  "n \<le> length a \<Longrightarrow> val (take n a) \<noteq> 0 \<Longrightarrow>
   2 ^ (uint_bits_from n a - 1) \<le> val (take n a) \<and> val (take n a) < 2 ^ uint_bits_from n a \<and>
   0 < uint_bits_from n a"
  and uint_bits_from_0: "n \<le> length a \<Longrightarrow> val (take n a) = 0 \<Longrightarrow> uint_bits_from n a = 0"
proof (induction n)
  case (Suc n)
  {
    case 1
    show ?case
    proof (cases "a ! n = 0")
      case True
      with Suc.IH(1) "1" show ?thesis by (simp add: val_take_Suc)
    next
      case False
      let ?t = "limb_top_bit 31 (a ! n)"
      have t: "2 ^ ?t \<le> unat (a ! n)" "unat (a ! n) < 2 ^ Suc ?t"
        using limb_top_bit_bounds [of "a ! n" 31] False unat32_less [of "a ! n"] by auto
      have eq: "val (take (Suc n) a) = val (take n a) + 2 ^ (32 * n) * unat (a ! n)"
        using "1" by (simp add: val_take_Suc power_mult)
      have lo: "2 ^ (32 * n + ?t) \<le> val (take (Suc n) a)"
        using t(1) eq by (simp add: power_add trans_le_add2)
      have "val (take n a) < 2 ^ (32 * n)"
        using val_take_less [of n a] "1" by (simp add: power_mult)
      then have "val (take (Suc n) a) < 2 ^ (32 * n) * (unat (a ! n) + 1)"
        using eq by simp
      also have "\<dots> \<le> 2 ^ (32 * n) * 2 ^ Suc ?t"
        using t(2) by (intro mult_le_mono2) simp
      finally have hi: "val (take (Suc n) a) < 2 ^ (32 * n + Suc ?t)"
        by (simp only: power_add)
      show ?thesis using False lo hi by simp
    qed
  next
    case 2
    then have "a ! n = 0" "val (take n a) = 0"
      by (simp_all add: val_take_Suc unat_eq_zero)
    with Suc.IH(2) "2" show ?case by simp
  }
qed simp_all

lemma uint_bits_bounds:
  assumes "length a = WIDTH" "val a \<noteq> 0"
  shows "2 ^ (uint_bits a - 1) \<le> val a" "val a < 2 ^ uint_bits a" "0 < uint_bits a"
  using uint_bits_from_bounds [of WIDTH a] assms by (simp_all add: uint_bits_def)

lemma uint_bits_0_iff: "length a = WIDTH \<Longrightarrow> uint_bits a = 0 \<longleftrightarrow> val a = 0"
  using uint_bits_from_0 [of WIDTH a] uint_bits_bounds(3) [of a]
  by (cases "val a = 0") (simp_all add: uint_bits_def)

lemma uint_bits_le:
  assumes "length a = WIDTH" "val a < 2 ^ n"
  shows "uint_bits a \<le> n"
proof (cases "val a = 0")
  case True
  with assms(1) have "uint_bits a = 0" by (simp add: uint_bits_0_iff)
  then show ?thesis by simp
next
  case False
  from uint_bits_bounds(1) [OF assms(1) False] assms(2)
  have "2 ^ (uint_bits a - 1) < (2 :: nat) ^ n" by (rule le_less_trans)
  then show ?thesis by simp
qed

lemma uint_bits_ge:
  assumes "length a = WIDTH" "2 ^ n \<le> val a"
  shows "n < uint_bits a"
proof -
  have "0 < (2 :: nat) ^ n" by simp
  then have "val a \<noteq> 0" using assms(2) by linarith
  from assms(2) uint_bits_bounds(2) [OF assms(1) this]
  have "(2 :: nat) ^ n < 2 ^ uint_bits a" by (rule le_less_trans)
  then show ?thesis by simp
qed

section \<open>Shifts\<close>

lemma bit_val_iff:
  "bit (val a) m \<longleftrightarrow> m div 32 < length a \<and> bit (a ! (m div 32)) (m mod 32)"
proof (induction a arbitrary: m)
  case (Cons x xs)
  have split: "val (x # xs) = unat x OR push_bit 32 (val xs)"
  proof -
    have "unat x AND push_bit 32 (val xs) = 0"
      by (rule bit_eqI) (auto simp: bit_simps dest: bit_imp_le_length)
    then show ?thesis
      by (simp add: push_bit_eq_mult mult.commute flip: disjunctive_add_eq_or)
  qed
  show ?case
  proof (cases "m < 32")
    case True
    then show ?thesis unfolding split by (simp add: bit_simps)
  next
    case False
    then have "m div 32 = Suc ((m - 32) div 32)" "m mod 32 = (m - 32) mod 32"
      by (simp_all add: le_div_geq le_mod_geq)
    moreover have "\<not> bit x m" using False by (auto dest: bit_imp_le_length)
    ultimately show ?thesis using False Cons.IH [of "m - 32"] unfolding split
      by (simp add: bit_simps)
  qed
qed simp

definition shl_limb :: "base_uint \<Rightarrow> nat \<Rightarrow> nat \<Rightarrow> nat \<Rightarrow> nat \<Rightarrow> uint32" where
  "shl_limb a k r n j =
     (if k \<le> j \<and> j - k < n then push_bit r (a ! (j - k)) else 0) OR
     (if r \<noteq> 0 \<and> k + 1 \<le> j \<and> j - k - 1 < n then drop_bit (32 - r) (a ! (j - k - 1)) else 0)"

lemma length_uint_shl_step [simp]: "length (uint_shl_step a k r i pn) = length pn"
  by (simp add: uint_shl_step_def Let_def)

lemma uint_shl_step_limb:
  assumes len: "length pn = WIDTH" and j: "j < WIDTH" and limb: "pn ! j = shl_limb a k r n j"
  shows "uint_shl_step a k r n pn ! j = shl_limb a k r (Suc n) j"
proof -
  consider "j = n + k" | "j = n + k + 1" | "j \<noteq> n + k" "j \<noteq> n + k + 1" by blast
  then show ?thesis
  proof cases
    case 1
    then show ?thesis
      using len limb j by (auto simp: uint_shl_step_def Let_def shl_limb_def nth_list_update or.commute)
  next
    case 2
    then show ?thesis
      using len limb j by (auto simp: uint_shl_step_def Let_def shl_limb_def nth_list_update)
  next
    case 3
    then have "shl_limb a k r (Suc n) j = shl_limb a k r n j"
      by (auto simp: shl_limb_def less_Suc_eq)
    with 3 show ?thesis
      using len limb j by (auto simp: uint_shl_step_def Let_def nth_list_update)
  qed
qed

lemma uint_shl_fold:
  "length (fold (uint_shl_step a k r) [0..<n] base_uint_zero) = WIDTH \<and>
   (\<forall>j < WIDTH. fold (uint_shl_step a k r) [0..<n] base_uint_zero ! j = shl_limb a k r n j)"
proof (induction n)
  case 0
  show ?case by (simp add: base_uint_zero_def shl_limb_def)
qed (simp add: uint_shl_step_limb)

lemma length_uint_shl [simp]: "length (uint_shl a s) = WIDTH"
  using uint_shl_fold [of a _ _ WIDTH] by (simp add: uint_shl_def)

lemma nth_uint_shl: "j < WIDTH \<Longrightarrow> uint_shl a s ! j = shl_limb a (s div 32) (s mod 32) WIDTH j"
  using uint_shl_fold [of a _ _ WIDTH] by (simp add: uint_shl_def)

lemma div_mod_decomp32: "(x :: nat) = u + 32 * v \<Longrightarrow> u < 32 \<Longrightarrow> x div 32 = v \<and> x mod 32 = u"
  by simp

lemma shift_position:
  fixes m s :: nat
  assumes "s \<le> m"
  shows "s mod 32 \<le> m mod 32 \<Longrightarrow>
      s div 32 \<le> m div 32 \<and> (m - s) div 32 = m div 32 - s div 32 \<and> (m - s) mod 32 = m mod 32 - s mod 32"
    and "m mod 32 < s mod 32 \<Longrightarrow>
      s div 32 < m div 32 \<and> (m - s) div 32 = m div 32 - s div 32 - 1 \<and>
      (m - s) mod 32 = m mod 32 + 32 - s mod 32"
proof -
  have m: "m = 32 * (m div 32) + m mod 32" and s: "s = 32 * (s div 32) + s mod 32" by simp_all
  have lt: "m mod 32 < 32" "s mod 32 < 32" by simp_all
  have le: "s div 32 \<le> m div 32" using assms by (rule div_le_mono)
  {
    assume r: "s mod 32 \<le> m mod 32"
    then have "m - s = (m mod 32 - s mod 32) + 32 * (m div 32 - s div 32)"
      using m s le by (simp add: diff_mult_distrib2)
    with le lt show "s div 32 \<le> m div 32 \<and> (m - s) div 32 = m div 32 - s div 32 \<and>
      (m - s) mod 32 = m mod 32 - s mod 32"
      by (simp add: less_imp_diff_less)
  next
    assume r: "m mod 32 < s mod 32"
    then have "s div 32 \<noteq> m div 32" using assms m s by linarith
    with le have less: "s div 32 < m div 32" by simp
    then have "m - s = (m mod 32 + 32 - s mod 32) + 32 * (m div 32 - s div 32 - 1)"
      using m s lt r by (simp add: diff_mult_distrib2)
    moreover have "m mod 32 + 32 - s mod 32 < 32" using r lt by simp
    ultimately have "(m - s) div 32 = m div 32 - s div 32 - 1 \<and>
      (m - s) mod 32 = m mod 32 + 32 - s mod 32"
      by (rule div_mod_decomp32)
    with less show "s div 32 < m div 32 \<and> (m - s) div 32 = m div 32 - s div 32 - 1 \<and>
      (m - s) mod 32 = m mod 32 + 32 - s mod 32" by blast
  }
qed

lemma shift_position_less:
  fixes m s :: nat
  assumes "m < s"
  shows "m div 32 < s div 32 \<or> m div 32 = s div 32 \<and> m mod 32 < s mod 32"
proof -
  have "m = 32 * (m div 32) + m mod 32" "s = 32 * (s div 32) + s mod 32" by simp_all
  moreover have "m div 32 \<le> s div 32" using assms by (intro div_le_mono) simp
  ultimately show ?thesis using assms by linarith
qed

lemma bit_shl_limb:
  assumes "t < 32" "r < 32"
  shows "bit (shl_limb a k r n j) t \<longleftrightarrow>
    (if r \<le> t then k \<le> j \<and> j - k < n \<and> bit (a ! (j - k)) (t - r)
     else k + 1 \<le> j \<and> j - k - 1 < n \<and> bit (a ! (j - k - 1)) (t + 32 - r))"
proof (cases "r \<le> t")
  case True
  then have "32 \<le> 32 - r + t" using assms by simp
  then have "\<not> bit (drop_bit (32 - r) w) t" for w :: uint32
    by (auto simp: bit_drop_bit_eq dest: bit_imp_le_length)
  with True assms show ?thesis
    by (auto simp: shl_limb_def bit_or_iff bit_push_bit_iff)
next
  case False
  then have "32 - r + t = t + 32 - r" using assms by simp
  with False assms show ?thesis
    by (auto simp: shl_limb_def bit_or_iff bit_push_bit_iff bit_drop_bit_eq)
qed

lemma bit_val_uint_shl:
  assumes "length a = WIDTH"
  shows "bit (val (uint_shl a s)) m \<longleftrightarrow> m < 32 * WIDTH \<and> s \<le> m \<and> bit (val a) (m - s)"
proof (cases "m < 32 * WIDTH")
  case False
  then have "\<not> m div 32 < WIDTH" by (simp add: WIDTH_def)
  with False show ?thesis by (simp add: bit_val_iff)
next
  case m: True
  then have "m div 32 < WIDTH" by (simp add: WIDTH_def)
  then have L: "bit (val (uint_shl a s)) m = bit (shl_limb a (s div 32) (s mod 32) WIDTH (m div 32)) (m mod 32)"
    by (simp add: bit_val_iff nth_uint_shl)
  show ?thesis
  proof (cases "s \<le> m")
    case False
    with L shift_position_less [of m s] show ?thesis by (auto simp: bit_shl_limb)
  next
    case sm: True
    show ?thesis
    proof (cases "s mod 32 \<le> m mod 32")
      case True
      with L shift_position(1) [OF sm True] m sm assms \<open>m div 32 < WIDTH\<close> show ?thesis
        by (simp add: bit_shl_limb bit_val_iff less_imp_diff_less)
    next
      case False
      then have "m mod 32 < s mod 32" by simp
      with L shift_position(2) [OF sm this] m sm assms \<open>m div 32 < WIDTH\<close> show ?thesis
        by (simp add: bit_shl_limb bit_val_iff less_imp_diff_less)
    qed
  qed
qed

lemma val_uint_shl [limb_simps]:
  assumes "length a = WIDTH"
  shows "val (uint_shl a s) = (val a * 2 ^ s) mod 4294967296 ^ WIDTH"
proof -
  have "val (uint_shl a s) = take_bit (32 * WIDTH) (push_bit s (val a))"
    by (rule bit_eqI) (auto simp: bit_val_uint_shl assms bit_simps)
  then show ?thesis
    by (simp add: take_bit_eq_mod push_bit_eq_mult WIDTH_def)
qed

definition shr_limb :: "base_uint \<Rightarrow> nat \<Rightarrow> nat \<Rightarrow> nat \<Rightarrow> nat \<Rightarrow> uint32" where
  "shr_limb a k r n j =
     (if j + k < n then drop_bit r (a ! (j + k)) else 0) OR
     (if r \<noteq> 0 \<and> j + k + 1 < n then push_bit (32 - r) (a ! (j + k + 1)) else 0)"

lemma length_uint_shr_step [simp]: "length (uint_shr_step a k r i pn) = length pn"
  by (simp add: uint_shr_step_def Let_def)

lemma uint_shr_step_limb:
  assumes len: "length pn = WIDTH" and j: "j < WIDTH" and limb: "pn ! j = shr_limb a k r n j"
  shows "uint_shr_step a k r n pn ! j = shr_limb a k r (Suc n) j"
proof -
  consider "j + k = n" | "j + k + 1 = n" | "j + k \<noteq> n" "j + k + 1 \<noteq> n" by blast
  then show ?thesis
  proof cases
    case 1
    then show ?thesis
      using len limb j by (auto simp: uint_shr_step_def Let_def shr_limb_def nth_list_update)
  next
    case 2
    then have "n - k - 1 = j" "n - k \<noteq> j" "k + 1 \<le> n" by simp_all
    with 2 show ?thesis
      using len limb j
      by (auto simp: uint_shr_step_def Let_def shr_limb_def nth_list_update)
  next
    case 3
    then have "shr_limb a k r (Suc n) j = shr_limb a k r n j"
      by (auto simp: shr_limb_def less_Suc_eq)
    moreover have "k \<le> n \<Longrightarrow> n - k \<noteq> j" "k + 1 \<le> n \<Longrightarrow> n - k - 1 \<noteq> j" using 3 by auto
    ultimately show ?thesis
      using len limb j by (auto simp: uint_shr_step_def Let_def nth_list_update)
  qed
qed

lemma uint_shr_fold:
  "length (fold (uint_shr_step a k r) [0..<n] base_uint_zero) = WIDTH \<and>
   (\<forall>j < WIDTH. fold (uint_shr_step a k r) [0..<n] base_uint_zero ! j = shr_limb a k r n j)"
proof (induction n)
  case 0
  show ?case by (simp add: base_uint_zero_def shr_limb_def)
qed (simp add: uint_shr_step_limb)

lemma length_uint_shr [simp]: "length (uint_shr a s) = WIDTH"
  using uint_shr_fold [of a _ _ WIDTH] by (simp add: uint_shr_def)

lemma nth_uint_shr: "j < WIDTH \<Longrightarrow> uint_shr a s ! j = shr_limb a (s div 32) (s mod 32) WIDTH j"
  using uint_shr_fold [of a _ _ WIDTH] by (simp add: uint_shr_def)

lemma bit_shr_limb:
  assumes "t < 32" "r < 32"
  shows "bit (shr_limb a k r n j) t \<longleftrightarrow>
    (if t + r < 32 then j + k < n \<and> bit (a ! (j + k)) (t + r)
     else j + k + 1 < n \<and> bit (a ! (j + k + 1)) (t + r - 32))"
proof (cases "t + r < 32")
  case True
  then have "\<not> bit (push_bit (32 - r) w) t" for w :: uint32
    using assms by (auto simp: bit_push_bit_iff)
  with True show ?thesis
    by (auto simp: shr_limb_def bit_or_iff bit_drop_bit_eq add.commute)
next
  case False
  then have "\<not> bit (drop_bit r w) t" for w :: uint32
    by (auto simp: bit_drop_bit_eq add.commute dest: bit_imp_le_length)
  moreover have "t - (32 - r) = t + r - 32" "32 - r \<le> t" "r \<noteq> 0" using False assms by auto
  ultimately show ?thesis
    using False assms by (auto simp: shr_limb_def bit_or_iff bit_push_bit_iff)
qed

lemma val_uint_shr [limb_simps]:
  assumes "length a = WIDTH"
  shows "val (uint_shr a s) = val a div 2 ^ s"
proof -
  have "bit (val (uint_shr a s)) m \<longleftrightarrow> bit (val a) (s + m)" for m
  proof (cases "m div 32 < WIDTH")
    case False
    then have "\<not> (s + m) div 32 < WIDTH"
      using div_le_mono [of m "s + m" 32] by simp
    with False assms show ?thesis by (simp add: bit_val_iff)
  next
    case True
    then have L: "bit (val (uint_shr a s)) m =
        bit (shr_limb a (s div 32) (s mod 32) WIDTH (m div 32)) (m mod 32)"
      by (simp add: bit_val_iff nth_uint_shr)
    have "s + m = (s mod 32 + 32 * (s div 32)) + (m mod 32 + 32 * (m div 32))" by simp
    also have "\<dots> = (m mod 32 + s mod 32) + 32 * (m div 32 + s div 32)"
      by (simp only: distrib_left ac_simps)
    finally have eq: "s + m = (m mod 32 + s mod 32) + 32 * (m div 32 + s div 32)" .
    show ?thesis
    proof (cases "m mod 32 + s mod 32 < 32")
      case r: True
      with L div_mod_decomp32 [OF eq r] assms show ?thesis
        by (simp add: bit_shr_limb bit_val_iff)
    next
      case r: False
      with eq have "s + m = (m mod 32 + s mod 32 - 32) + 32 * (m div 32 + s div 32 + 1)" by simp
      then have "(s + m) div 32 = m div 32 + s div 32 + 1 \<and>
                 (s + m) mod 32 = m mod 32 + s mod 32 - 32"
        by (rule div_mod_decomp32) (use mod_less_divisor [of 32 m] mod_less_divisor [of 32 s] in linarith)
      with L r assms show ?thesis
        by (simp add: bit_shr_limb bit_val_iff)
    qed
  qed
  then have "val (uint_shr a s) = drop_bit s (val a)"
    by (intro bit_eqI) (simp add: bit_drop_bit_eq)
  then show ?thesis by (simp add: drop_bit_eq_div)
qed

section \<open>Division\<close>

lemma val_set_bit:
  assumes "length q = WIDTH" "n < 32 * WIDTH" "2 ^ Suc n dvd val q"
  shows "val (q[n div 32 := q ! (n div 32) OR push_bit (n mod 32) 1]) = val q + 2 ^ n"
proof -
  let ?q = "q[n div 32 := q ! (n div 32) OR push_bit (n mod 32) 1]"
  have n: "n div 32 < WIDTH" using assms(2) by (simp add: WIDTH_def)
  have "bit (val ?q) m \<longleftrightarrow> bit (val q) m \<or> m = n" for m
  proof (cases "m div 32 = n div 32")
    case True
    moreover from this have "m = n \<longleftrightarrow> m mod 32 = n mod 32"
      by (metis div_mult_mod_eq)
    ultimately show ?thesis using n assms(1)
      by (auto simp: bit_val_iff bit_simps)
  next
    case False
    then show ?thesis using assms(1) by (auto simp: bit_val_iff)
  qed
  then have "val ?q = val q OR 2 ^ n"
    by (intro bit_eqI) (auto simp: bit_simps)
  also have "\<dots> = val q + 2 ^ n"
  proof -
    have "\<not> bit (val q) n"
      using assms(3) by (auto simp: bit_iff_odd)
    then have "val q AND 2 ^ n = 0"
      by (intro bit_eqI) (auto simp: bit_simps)
    then show ?thesis by (simp add: disjunctive_add_eq_or)
  qed
  finally show ?thesis .
qed

lemma length_uint_div_loop [simp]: "length (uint_div_loop n num dv q) = length q"
  by (induction n num dv q rule: uint_div_loop.induct) auto

lemma val_uint_div_loop:
  assumes "length num = WIDTH" "length dv = WIDTH" "length q = WIDTH"
    and "n \<le> 32 * WIDTH" "0 < d" "n = 0 \<or> val dv = d * 2 ^ (n - 1)"
    and "val num < d * 2 ^ n" "2 ^ n dvd val q"
  shows "val (uint_div_loop n num dv q) = val q + val num div d"
  using assms
proof (induction n num dv q rule: uint_div_loop.induct)
  case (1 num dv q)
  then show ?case by simp
next
  case (2 n num dv q)
  have dv: "val dv = d * 2 ^ n" using "2.prems" by simp
  have dv': "n = 0 \<or> val (uint_shr dv 1) = d * 2 ^ (n - 1)"
    using "2.prems"(2) dv by (cases n) (simp_all add: val_uint_shr)
  have dvdq: "2 ^ n dvd val q" using "2.prems"(8) by (auto intro: dvd_trans [OF le_imp_power_dvd])
  show ?case
  proof (cases "val dv \<le> val num")
    case True
    let ?q = "q[n div 32 := q ! (n div 32) OR push_bit (n mod 32) 1]"
    have q: "val ?q = val q + 2 ^ n"
      using "2.prems" by (intro val_set_bit) simp_all
    have sub: "val (uint_sub num dv) = val num - d * 2 ^ n"
      using True "2.prems" dv by (simp add: val_uint_sub)
    have "val (uint_div_loop n (uint_sub num dv) (uint_shr dv 1) ?q) =
        val ?q + val (uint_sub num dv) div d"
      using "2.prems" True dv dv' dvdq q sub
      by (intro "2.IH"(1)) (auto simp: uint_compare_iff)
    also have "\<dots> = val q + (2 ^ n + (val num - d * 2 ^ n) div d)"
      by (simp only: q sub add.assoc)
    also have "2 ^ n + (val num - d * 2 ^ n) div d = val num div d"
    proof -
      have "val num = (val num - d * 2 ^ n) + 2 ^ n * d" using True dv by simp
      then have "val num div d = ((val num - d * 2 ^ n) + 2 ^ n * d) div d" by simp
      also have "\<dots> = 2 ^ n + (val num - d * 2 ^ n) div d"
        using \<open>0 < d\<close> by (intro div_mult_self1) simp
      finally show ?thesis by simp
    qed
    finally show ?thesis using True "2.prems" by (simp add: uint_compare_iff)
  next
    case False
    then have "val (uint_div_loop n num (uint_shr dv 1) q) = val q + val num div d"
      using "2.prems" dv dv' dvdq
      by (intro "2.IH"(2)) (auto simp: uint_compare_iff)
    with False "2.prems" show ?thesis by (simp add: uint_compare_iff)
  qed
qed

lemma base_uint_zero_simps [simp]: "length base_uint_zero = WIDTH" "val base_uint_zero = 0"
  by (simp_all add: base_uint_zero_def)

lemma val_less_256: "length a = WIDTH \<Longrightarrow> val a < 2 ^ 256"
  using val_less [of a] by (simp add: WIDTH_def)

lemma uint_div_None: "length b = WIDTH \<Longrightarrow> uint_div a b = None \<longleftrightarrow> val b = 0"
  by (simp add: uint_div_def Let_def uint_bits_0_iff)

lemma uint_div_Some:
  assumes a: "length a = WIDTH" and b: "length b = WIDTH" and nz: "val b \<noteq> 0"
  obtains q where "uint_div a b = Some q" "length q = WIDTH" "val q = val a div val b"
proof (cases "uint_bits b > uint_bits a")
  case True
  have "val a < val b"
  proof (rule ccontr)
    assume "\<not> val a < val b"
    then have "2 ^ (uint_bits b - 1) \<le> val a"
      using uint_bits_bounds(1) [OF b nz] by simp
    then have "uint_bits b - 1 < uint_bits a" by (rule uint_bits_ge [OF a])
    with True uint_bits_bounds(3) [OF b nz] show False by simp
  qed
  moreover have "uint_div a b = Some base_uint_zero"
    using True nz b by (simp add: uint_div_def Let_def uint_bits_0_iff)
  ultimately show ?thesis by (intro that [of base_uint_zero]) simp_all
next
  case False
  let ?s = "uint_bits a - uint_bits b"
  let ?q = "uint_div_loop (Suc ?s) a (uint_shl b ?s) base_uint_zero"
  have a0: "uint_bits a \<le> 256" using uint_bits_le [OF a val_less_256 [OF a]] .
  have bb: "0 < uint_bits b" using uint_bits_bounds(3) [OF b nz] .
  with False have anz: "val a \<noteq> 0" using uint_bits_0_iff [OF a] by auto
  have "val b * 2 ^ ?s < 2 ^ uint_bits b * 2 ^ ?s"
    using uint_bits_bounds(2) [OF b nz] by simp
  also have "\<dots> = 2 ^ uint_bits a" using False by (simp flip: power_add)
  also have "\<dots> \<le> 2 ^ 256" using a0 by (rule power_increasing) simp
  finally have shl: "val (uint_shl b ?s) = val b * 2 ^ ?s"
    using b by (simp add: val_uint_shl WIDTH_def)
  have "val a < 2 ^ uint_bits a" using uint_bits_bounds(2) [OF a anz] .
  also have "2 ^ uint_bits a = (2 :: nat) ^ (uint_bits b - 1) * 2 ^ Suc ?s"
    using False bb by (simp only: flip: power_add) simp
  also have "\<dots> \<le> val b * 2 ^ Suc ?s"
    using uint_bits_bounds(1) [OF b nz] by (rule mult_le_mono1)
  finally have "val a < val b * 2 ^ Suc ?s" .
  moreover have "Suc ?s \<le> 32 * WIDTH" using a0 bb False by (simp add: WIDTH_def)
  ultimately have "val ?q = val base_uint_zero + val a div val b"
    using a b nz shl by (intro val_uint_div_loop) simp_all
  moreover have "uint_div a b = Some ?q"
    using False nz b by (simp add: uint_div_def Let_def uint_bits_0_iff del: uint_div_loop.simps)
  ultimately show ?thesis by (intro that [of ?q]) (simp_all del: uint_div_loop.simps)
qed

section \<open>Compact encoding\<close>

lemma unat_GetLow64:
  assumes "length a = WIDTH"
  shows "unat (GetLow64 a) = val a mod 18446744073709551616"
proof -
  obtain x y xs where a: "a = x # y # xs"
    using assms by (auto simp: WIDTH_def length_Suc_conv numeral_eq_Suc)
  have "(ucast x :: uint64) AND push_bit 32 (ucast y) = 0"
    by (rule bit_eqI) (auto simp: bit_simps dest: bit_imp_le_length)
  then have "unat (GetLow64 a) = unat x + unat y * 4294967296"
    by (simp add: GetLow64_def a unat_or_disjoint unat_push_bit_32_64)
  moreover have "val a = (unat x + unat y * 4294967296) + 18446744073709551616 * val xs"
    by (simp add: a)
  moreover have "unat x + unat y * 4294967296 < 18446744073709551616"
    using unat32_less [of x] unat32_less [of y] by simp
  ultimately show ?thesis by simp
qed

lemma length_base_uint_of_u64 [simp]: "length (base_uint_of_u64 b) = WIDTH"
  by (simp add: base_uint_of_u64_def WIDTH_def)

lemma val_base_uint_of_u64 [limb_simps]: "val (base_uint_of_u64 b) = unat b"
proof -
  have "val (base_uint_of_u64 b) =
      unat (ucast b :: uint32) + 4294967296 * unat (ucast (drop_bit 32 b) :: uint32)"
    by (simp add: base_uint_of_u64_def)
  also have "\<dots> = unat b mod 4294967296 + 4294967296 * (unat b div 4294967296)"
    using unat64_less [of b]
    by (simp only: unat_ucast_64_32 unat_high32) (simp add: less_mult_imp_div_less)
  finally show ?thesis by simp
qed

text \<open>The fields of a compact value.\<close>

definition compact_size :: "uint32 \<Rightarrow> nat" where
  "compact_size c = unat c div 2 ^ 24"

definition compact_mant :: "uint32 \<Rightarrow> nat" where
  "compact_mant c = unat c mod 2 ^ 23"

definition compact_neg :: "uint32 \<Rightarrow> bool" where
  "compact_neg c \<longleftrightarrow> bit c 23"

definition compact_value :: "uint32 \<Rightarrow> nat" where
  "compact_value c =
     (if compact_size c \<le> 3 then compact_mant c div 256 ^ (3 - compact_size c)
      else compact_mant c * 256 ^ (compact_size c - 3))"

lemma unat_compact_word: "unat (c AND 0x007fffff :: uint32) = compact_mant c"
proof -
  have "c AND 0x007fffff = take_bit 23 c"
    by (simp add: take_bit_eq_mask mask_eq_exp_minus_1)
  then show ?thesis
    by (simp only: compact_mant_def unsigned_take_bit_eq) (simp add: take_bit_eq_mod)
qed

lemma unat_compact_size: "unat (drop_bit 24 c :: uint32) = compact_size c"
  by (simp only: compact_size_def unat_drop_bit_eq) (simp add: drop_bit_eq_div)

lemma compact_sign_word: "c AND 0x00800000 \<noteq> (0 :: uint32) \<longleftrightarrow> compact_neg c"
proof -
  have "(0x00800000 :: uint32) = push_bit 23 1" by simp
  then show ?thesis by (simp only: compact_neg_def bit_iff_and_push_bit_not_eq_0)
qed

lemma unat_compact_shifted:
  "unat (drop_bit n (c AND 0x007fffff :: uint32)) = compact_mant c div 2 ^ n"
  by (simp only: unat_drop_bit_eq unat_compact_word) (simp add: drop_bit_eq_div)

lemma length_SetCompact [simp]: "length (fst (SetCompact c)) = WIDTH"
  by (simp add: SetCompact_def Let_def)

lemma compact_mant_less: "compact_mant c < 2 ^ 23"
  by (simp add: compact_mant_def)

lemma val_SetCompact: "val (fst (SetCompact c)) = compact_value c mod 2 ^ 256"
proof (cases "compact_size c \<le> 3")
  case True
  then have "val (fst (SetCompact c)) = compact_mant c div 2 ^ (8 * (3 - compact_size c))"
    by (simp add: SetCompact_def Let_def unat_compact_size val_base_uint_of_u64 unat_compact_shifted
        del: drop_bit_and)
  moreover have "compact_mant c div 256 ^ (3 - compact_size c) < 2 ^ 256"
    using compact_mant_less [of c] by (rule le_less_trans [OF div_le_dividend less_trans]) simp
  ultimately show ?thesis using True by (simp add: compact_value_def power_mult)
next
  case False
  then show ?thesis
    by (simp add: SetCompact_def Let_def unat_compact_size val_base_uint_of_u64 val_uint_shl
        unat_compact_word compact_value_def power_mult WIDTH_def)
qed

lemma compact_sign_unat: "unat (c AND 0x00800000 :: uint32) \<noteq> 0 \<longleftrightarrow> compact_neg c"
  by (simp only: word_nonzero_unat [symmetric] compact_sign_word)

lemma SetCompact_negative:
  "fst (snd (SetCompact c)) \<longleftrightarrow> compact_neg c \<and> (if compact_size c \<le> 3 then compact_value c \<noteq> 0 else compact_mant c \<noteq> 0)"
  by (simp only: SetCompact_def Let_def fst_conv snd_conv unat_compact_size word_nonzero_unat
        compact_sign_unat if_distrib [of unat] unat_compact_shifted unat_compact_word)
     (auto simp: compact_value_def power_mult)

lemma SetCompact_overflow: "snd (snd (SetCompact c)) \<longleftrightarrow> 2 ^ 256 \<le> compact_value c"
proof (cases "compact_size c \<le> 3")
  case True
  have "compact_value c \<le> compact_mant c" using True by (simp add: compact_value_def)
  then have "compact_value c < 2 ^ 256" using compact_mant_less [of c] by simp
  with True show ?thesis by (simp add: SetCompact_def Let_def unat_compact_size)
next
  case False
  let ?m = "compact_mant c" and ?s = "compact_size c"
  have ov: "snd (snd (SetCompact c)) \<longleftrightarrow>
      ?m \<noteq> 0 \<and> (34 < ?s \<or> 255 < ?m \<and> 33 < ?s \<or> 65535 < ?m \<and> 32 < ?s)"
    using False
    by (simp only: SetCompact_def Let_def fst_conv snd_conv unat_compact_size if_False
        word_nonzero_unat unat_compact_word word_less_nat_alt) simp
  have v: "compact_value c = ?m * 256 ^ (?s - 3)" using False by (simp add: compact_value_def)
  have "(2 :: nat) ^ 256 = 256 ^ 32" by simp
  consider "?s \<le> 32" | "?s = 33" | "?s = 34" | "35 \<le> ?s" by linarith
  then show ?thesis
  proof cases
    case 1
    have "?m * 256 ^ (?s - 3) \<le> ?m * 256 ^ 29"
      using 1 by (intro mult_le_mono2 power_increasing) simp_all
    also have "\<dots> < 2 ^ 256" using compact_mant_less [of c] by simp
    finally show ?thesis using 1 ov v by simp
  next
    case 4
    have "?m \<noteq> 0 \<Longrightarrow> 1 * 256 ^ 32 \<le> ?m * 256 ^ (?s - 3)"
      using 4 by (intro mult_le_mono power_increasing) simp_all
    then show ?thesis using 4 ov v by auto
  qed (use ov v in auto)
qed

lemma GetCompact_unfold:
  fixes nCompact0 :: uint32
  assumes "nSize0 = (uint_bits a + 7) div 8"
    and "nCompact0 = (if nSize0 \<le> 3 then ucast (push_bit (8 * (3 - nSize0)) (GetLow64 a))
                      else ucast (GetLow64 (uint_shr a (8 * (nSize0 - 3)))))"
    and "unat nCompact0 < 2 ^ 24"
    and "m = (if 2 ^ 23 \<le> unat nCompact0 then unat nCompact0 div 256 else unat nCompact0)"
    and "e = (if 2 ^ 23 \<le> unat nCompact0 then nSize0 + 1 else nSize0)"
    and "e < 256"
  shows "\<exists>c. GetCompact a False = Some c \<and> unat c = m + e * 2 ^ 24"
proof -
  have "bit nCompact0 23 \<longleftrightarrow> odd (unat nCompact0 div 2 ^ 23)"
    by (rule bit_unat_odd)
  also have "\<dots> \<longleftrightarrow> 2 ^ 23 \<le> unat nCompact0"
  proof (cases "2 ^ 23 \<le> unat nCompact0")
    case True
    then have "unat nCompact0 div 2 ^ 23 = 1"
      using assms(3) by (intro div_nat_eqI) simp_all
    with True show ?thesis by simp
  qed simp
  finally have sign: "nCompact0 AND 0x00800000 \<noteq> 0 \<longleftrightarrow> 2 ^ 23 \<le> unat nCompact0"
    by (simp only: compact_sign_word compact_neg_def)
  define n1 where "n1 = (if 2 ^ 23 \<le> unat nCompact0 then drop_bit 8 nCompact0 else nCompact0)"
  have u1: "unat n1 = m"
    using assms(4) unat_drop_bit_eq [of 8 nCompact0] by (simp add: n1_def drop_bit_eq_div)
  have m: "m < 2 ^ 23" using assms(3,4) by (auto simp: less_mult_imp_div_less)
  have hi: "n1 AND NOT 0x007fffff = 0"
    using small_and_not_mask [of n1 23] m u1 by (simp add: mask_eq_exp_minus_1)
  have eu: "unat (push_bit 24 (of_nat e) :: uint32) = e * 2 ^ 24"
    using assms(6)
    by (simp only: unsigned_push_bit_eq) (simp add: push_bit_eq_mult take_bit_eq_mod unat_of_nat)
  have "n1 AND push_bit 24 (of_nat e) = 0"
    using m u1 by (intro small_and_push_bit [of n1 23]) simp_all
  then have "unat (n1 OR push_bit 24 (of_nat e)) = m + e * 2 ^ 24"
    by (simp add: unat_or_disjoint u1 eu)
  moreover have "GetCompact a False = Some (n1 OR push_bit 24 (of_nat e))"
  proof -
    have "(if nCompact0 AND 0x00800000 \<noteq> 0 then (drop_bit 8 nCompact0, nSize0 + 1) else (nCompact0, nSize0)) = (n1, e)"
      by (simp only: sign n1_def assms(5)) simp
    then show ?thesis
      using assms(6) hi
      by (simp only: GetCompact_def Let_def assms(1) [symmetric] assms(2) [symmetric] prod.case) simp
  qed
  ultimately show ?thesis by blast
qed

text \<open>
  The number of bytes \<open>GetCompact\<close> gives a value, and the value after its mantissa has
  been cut to that precision.
\<close>

definition compact_exp :: "base_uint \<Rightarrow> nat" where
  "compact_exp a = (if val a = 0 then 0 else uint_bits a div 8 + 1)"

definition compact_scale :: "nat \<Rightarrow> nat \<Rightarrow> nat" where
  "compact_scale e v = (if e \<le> 3 then v * 256 ^ (3 - e) else v div 256 ^ (e - 3))"

lemma div_pow256: "v div 256 ^ n div 256 = v div (256 :: nat) ^ Suc n"
  by (simp add: div_mult2_eq [symmetric] mult.commute)

lemma compact_word0:
  assumes a: "length a = WIDTH" and n: "n = (uint_bits a + 7) div 8"
  shows "unat (if n \<le> 3 then ucast (push_bit (8 * (3 - n)) (GetLow64 a))
               else ucast (GetLow64 (uint_shr a (8 * (n - 3)))) :: uint32) = compact_scale n (val a)"
    and "compact_scale n (val a) < 2 ^ 24"
proof -
  have "val a < 2 ^ uint_bits a"
    using uint_bits_bounds(2) [OF a] by (cases "val a = 0") auto
  also have "\<dots> \<le> 2 ^ (8 * n)" using n by (intro power_increasing) simp_all
  finally have v: "val a < 256 ^ n" by (simp add: power_mult)
  show lt: "compact_scale n (val a) < 2 ^ 24"
  proof (cases "n \<le> 3")
    case True
    have "val a * 256 ^ (3 - n) < 256 ^ n * 256 ^ (3 - n)" using v by simp
    also have "\<dots> = 256 ^ 3" using True by (simp flip: power_add)
    finally show ?thesis using True by (simp add: compact_scale_def)
  next
    case False
    have "256 ^ 3 * 256 ^ (n - 3) = (256 :: nat) ^ n" using False by (simp only: flip: power_add) simp
    with v have "val a < 256 ^ 3 * 256 ^ (n - 3)" by (simp only:)
    then have "val a div 256 ^ (n - 3) < 256 ^ 3" by (rule less_mult_imp_div_less)
    then show ?thesis using False by (simp add: compact_scale_def)
  qed
  show "unat (if n \<le> 3 then ucast (push_bit (8 * (3 - n)) (GetLow64 a))
               else ucast (GetLow64 (uint_shr a (8 * (n - 3)))) :: uint32) = compact_scale n (val a)"
  proof (cases "n \<le> 3")
    case True
    have "val a < 256 ^ 3" using v True by (rule less_le_trans [OF _ power_increasing]) simp
    then have "unat (GetLow64 a) = val a" by (simp add: unat_GetLow64 a)
    then have "unat (push_bit (8 * (3 - n)) (GetLow64 a)) = compact_scale n (val a)"
      using lt True
      by (simp only: unsigned_push_bit_eq)
         (simp add: push_bit_eq_mult take_bit_eq_mod power_mult compact_scale_def)
    with True lt show ?thesis by (simp add: unat_ucast_64_32)
  next
    case False
    then have "unat (GetLow64 (uint_shr a (8 * (n - 3)))) = compact_scale n (val a)"
      using lt by (simp add: unat_GetLow64 val_uint_shr a compact_scale_def power_mult)
    with False lt show ?thesis by (simp add: unat_ucast_64_32)
  qed
qed

lemma compact_scale_top:
  assumes a: "length a = WIDTH" and n: "n = (uint_bits a + 7) div 8" and nz: "val a \<noteq> 0"
  shows "2 ^ 23 \<le> compact_scale n (val a) \<longleftrightarrow> uint_bits a mod 8 = 0"
proof -
  let ?b = "uint_bits a"
  have lo: "2 ^ (?b - 1) \<le> val a" and hi: "val a < 2 ^ ?b" and pos: "0 < ?b"
    using uint_bits_bounds [OF a nz] by auto
  have pow: "(256 :: nat) ^ k = 2 ^ (8 * k)" for k by (simp add: power_mult)
  show ?thesis
  proof (cases "?b mod 8 = 0")
    case True
    then have b: "?b = 8 * n" using n by auto
    have "2 ^ 23 \<le> compact_scale n (val a)"
    proof (cases "n \<le> 3")
      case le: True
      have "(2 :: nat) ^ 23 = 2 ^ (?b - 1) * 256 ^ (3 - n)"
        using b le pos by (simp only: pow flip: power_add) (simp add: diff_mult_distrib2)
      also have "\<dots> \<le> val a * 256 ^ (3 - n)" using lo by (rule mult_le_mono1)
      finally show ?thesis using le by (simp add: compact_scale_def)
    next
      case gt: False
      have "2 ^ 23 * 256 ^ (n - 3) = (2 :: nat) ^ (?b - 1)"
        using b gt by (simp only: pow flip: power_add) (simp add: diff_mult_distrib2)
      with lo have "2 ^ 23 * 256 ^ (n - 3) \<le> val a" by simp
      then have "2 ^ 23 \<le> val a div 256 ^ (n - 3)" by (simp add: less_eq_div_iff_mult_less_eq)
      then show ?thesis using gt by (simp add: compact_scale_def)
    qed
    with True show ?thesis by simp
  next
    case False
    then have b: "?b \<le> 8 * n - 1" "0 < n" using n by presburger+
    have va: "val a < 2 ^ (8 * n - 1)" using hi b(1) by (rule less_le_trans [OF _ power_increasing]) simp
    have "compact_scale n (val a) < 2 ^ 23"
    proof (cases "n \<le> 3")
      case le: True
      have "val a * 256 ^ (3 - n) < 2 ^ (8 * n - 1) * 256 ^ (3 - n)"
        using va by simp
      also have "\<dots> = 2 ^ 23"
        using b(2) le by (simp only: pow flip: power_add) (simp add: diff_mult_distrib2)
      finally show ?thesis using le by (simp add: compact_scale_def)
    next
      case gt: False
      have "2 ^ (8 * n - 1) = (2 :: nat) ^ 23 * 256 ^ (n - 3)"
        using gt by (simp only: pow flip: power_add) (simp add: diff_mult_distrib2)
      with va have "val a < 2 ^ 23 * 256 ^ (n - 3)" by simp
      then have "val a div 256 ^ (n - 3) < 2 ^ 23" by (rule less_mult_imp_div_less)
      then show ?thesis using gt by (simp add: compact_scale_def)
    qed
    with False show ?thesis by simp
  qed
qed

lemma compact_scale_Suc: "compact_scale n v div 256 = compact_scale (Suc n) v"
proof (cases "n < 3")
  case True
  then have "3 - n = Suc (3 - Suc n)" by simp
  with True show ?thesis by (simp add: compact_scale_def)
next
  case False
  then have "Suc n - 3 = Suc (n - 3)" by simp
  then show ?thesis using False div_pow256 [of v "n - 3"]
    by (cases "n = 3") (simp_all add: compact_scale_def)
qed

lemma compact_fields_of_sum:
  assumes "unat c = m + e * 2 ^ 24" "m < 2 ^ 23"
  shows "compact_size c = e" "compact_mant c = m" "\<not> compact_neg c"
proof -
  show "compact_size c = e" using assms by (simp add: compact_size_def)
  have "unat c = m + (2 * e) * 2 ^ 23" using assms(1) by simp
  then have "unat c mod 2 ^ 23 = m" "unat c div 2 ^ 23 = 2 * e"
    using assms(2) by (simp_all only: mod_mult_self1) simp_all
  then show "compact_mant c = m" "\<not> compact_neg c"
    by (simp_all add: compact_mant_def compact_neg_def bit_unat_odd)
qed

lemma unat_compact_fields:
  "unat c = compact_size c * 2 ^ 24 + (if compact_neg c then 2 ^ 23 else 0) + compact_mant c"
proof -
  define d where "d = unat c div 2 ^ 23"
  have size: "compact_size c = d div 2"
    by (simp add: compact_size_def d_def div_mult2_eq [symmetric])
  have neg: "compact_neg c = odd d" by (simp add: compact_neg_def bit_unat_odd d_def)
  have "d * 2 ^ 23 = (d div 2) * 2 ^ 24 + (if odd d then 2 ^ 23 else 0)"
    by (cases "odd d") (auto elim!: oddE evenE)
  moreover have "unat c = d * 2 ^ 23 + compact_mant c"
    by (simp only: d_def compact_mant_def div_mult_mod_eq)
  ultimately show ?thesis by (simp only: size neg)
qed

lemma compact_fields_inject:
  assumes "compact_size c = compact_size d" "compact_mant c = compact_mant d"
    and "compact_neg c = compact_neg d"
  shows "c = d"
proof -
  have "unat c = unat d"
    using assms by (simp only: unat_compact_fields [of c] unat_compact_fields [of d])
  then show ?thesis by (rule unsigned_word_eqI)
qed

theorem GetCompact_fields:
  assumes a: "length a = WIDTH"
  obtains c where "GetCompact a False = Some c" "compact_size c = compact_exp a"
    "compact_mant c = compact_scale (compact_exp a) (val a)" "\<not> compact_neg c"
proof -
  let ?n = "(uint_bits a + 7) div 8"
  let ?w = "compact_scale ?n (val a)"
  have bits: "uint_bits a \<le> 256" using uint_bits_le [OF a val_less_256 [OF a]] .
  have top: "2 ^ 23 \<le> ?w \<longleftrightarrow> val a \<noteq> 0 \<and> uint_bits a mod 8 = 0"
    using compact_scale_top [OF a refl]
    by (cases "val a = 0") (auto simp: compact_scale_def)
  have e: "compact_exp a = (if 2 ^ 23 \<le> ?w then ?n + 1 else ?n)"
  proof (cases "val a = 0")
    case True
    then show ?thesis using top a by (simp add: compact_exp_def uint_bits_0_iff)
  next
    case False
    then have "compact_exp a = uint_bits a div 8 + 1" by (simp add: compact_exp_def)
    also have "\<dots> = (if uint_bits a mod 8 = 0 then ?n + 1 else ?n)" by presburger
    finally show ?thesis using top False by simp
  qed
  have m: "compact_scale (compact_exp a) (val a) = (if 2 ^ 23 \<le> ?w then ?w div 256 else ?w)"
    by (simp add: e compact_scale_Suc)
  have lt: "?w < 2 ^ 24" by (rule compact_word0(2) [OF a refl])
  then have "compact_scale (compact_exp a) (val a) < 2 ^ 23" using m by (auto simp: less_mult_imp_div_less)
  moreover have "compact_exp a < 256" using bits e by auto
  with GetCompact_unfold [OF refl refl _ _ _, of a, unfolded compact_word0(1) [OF a refl], OF lt m e]
  obtain c where "GetCompact a False = Some c"
    "unat c = compact_scale (compact_exp a) (val a) + compact_exp a * 2 ^ 24" by blast
  ultimately show ?thesis using compact_fields_of_sum [of c] that by blast
qed

definition compact_trunc :: "base_uint \<Rightarrow> nat" where
  "compact_trunc a =
     (if compact_exp a \<le> 3 then val a
      else val a div 256 ^ (compact_exp a - 3) * 256 ^ (compact_exp a - 3))"

lemma compact_trunc_le: "compact_trunc a \<le> val a"
  by (simp add: compact_trunc_def)

lemma val_less_exp:
  assumes "length a = WIDTH" "val a \<noteq> 0"
  shows "val a < 2 ^ (8 * compact_exp a - 1)" "2 ^ (8 * compact_exp a - 9) \<le> val a"
proof -
  have b: "uint_bits a \<le> 8 * compact_exp a - 1" "8 * compact_exp a - 9 \<le> uint_bits a - 1"
    using assms(2) by (simp_all add: compact_exp_def)
  show "val a < 2 ^ (8 * compact_exp a - 1)"
    using uint_bits_bounds(2) [OF assms] b(1) by (rule less_le_trans [OF _ power_increasing]) simp
  show "2 ^ (8 * compact_exp a - 9) \<le> val a"
    using power_increasing [OF b(2), of "2 :: nat"] uint_bits_bounds(1) [OF assms]
    by (rule order_trans [OF _ _]) simp
qed

lemma trunc_ge_pow2:
  assumes "k \<le> m" "2 ^ m \<le> (v :: nat)"
  shows "2 ^ m \<le> v div 2 ^ k * 2 ^ k"
proof -
  have "2 ^ m = (2 :: nat) ^ (m - k) * 2 ^ k" using assms(1) by (simp flip: power_add)
  moreover have "2 ^ (m - k) \<le> v div 2 ^ k"
    using assms(2) calculation by (simp add: less_eq_div_iff_mult_less_eq)
  ultimately show ?thesis by simp
qed

lemma compact_trunc_ge_pow2:
  assumes "length a = WIDTH" "2 ^ m \<le> val a" "8 * compact_exp a - 24 \<le> m"
  shows "2 ^ m \<le> compact_trunc a"
proof -
  have "(256 :: nat) ^ (compact_exp a - 3) = 2 ^ (8 * (compact_exp a - 3))" by (simp add: power_mult)
  also have "8 * (compact_exp a - 3) = 8 * compact_exp a - 24" by (simp add: diff_mult_distrib2)
  finally show ?thesis
    using assms(2) trunc_ge_pow2 [OF assms(3,2)] by (simp add: compact_trunc_def)
qed

lemma compact_trunc_bits:
  assumes "length a = WIDTH" "length n = WIDTH" "val n = compact_trunc a"
  shows "uint_bits n = uint_bits a"
proof (cases "val a = 0")
  case True
  then have "val n = 0" using assms(3) compact_trunc_le [of a] by simp
  with True uint_bits_0_iff [OF assms(1)] uint_bits_0_iff [OF assms(2)] show ?thesis by simp
next
  case False
  have "uint_bits n \<le> uint_bits a"
    using uint_bits_bounds(2) [OF assms(1) False] assms(3) compact_trunc_le [of a]
    by (intro uint_bits_le [OF assms(2)]) simp
  moreover have "2 ^ (uint_bits a - 1) \<le> compact_trunc a"
    using uint_bits_bounds(1) [OF assms(1) False] False
    by (intro compact_trunc_ge_pow2 [OF assms(1)]) (simp_all add: compact_exp_def)
  then have "uint_bits a - 1 < uint_bits n"
    using assms(3) by (intro uint_bits_ge [OF assms(2)]) simp
  ultimately show ?thesis using uint_bits_bounds(3) [OF assms(1) False] by linarith
qed

lemma compact_trunc_exp:
  assumes "length a = WIDTH" "length n = WIDTH" "val n = compact_trunc a"
  shows "compact_exp n = compact_exp a"
  using compact_trunc_bits [OF assms] uint_bits_0_iff [OF assms(1)] uint_bits_0_iff [OF assms(2)]
  by (simp add: compact_exp_def)

lemma compact_trunc_mono:
  assumes "length a = WIDTH" "length b = WIDTH" "val a \<le> val b"
  shows "compact_trunc a \<le> compact_trunc b"
proof (cases "val a = 0")
  case True
  then show ?thesis using compact_trunc_le [of a] by simp
next
  case False
  then have nzb: "val b \<noteq> 0" using assms(3) by simp
  have "uint_bits a - 1 < uint_bits b"
    using uint_bits_bounds(1) [OF assms(1) False] assms(3)
    by (intro uint_bits_ge [OF assms(2)]) simp
  then have le: "compact_exp a \<le> compact_exp b"
    using False nzb uint_bits_bounds(3) [OF assms(1) False]
    by (simp add: compact_exp_def div_le_mono)
  show ?thesis
  proof (cases "compact_exp a = compact_exp b")
    case True
    then show ?thesis
      using assms(3) by (simp add: compact_trunc_def div_le_mono)
  next
    case neq: False
    have "compact_trunc a \<le> val a" by (rule compact_trunc_le)
    also have "\<dots> < 2 ^ (8 * compact_exp a - 1)" by (rule val_less_exp(1) [OF assms(1) False])
    also have "\<dots> \<le> 2 ^ (8 * compact_exp b - 9)"
      using le neq by (intro power_increasing) simp_all
    also have "\<dots> \<le> compact_trunc b"
      using val_less_exp(2) [OF assms(2) nzb]
      by (intro compact_trunc_ge_pow2 [OF assms(2)]) simp_all
    finally show ?thesis by simp
  qed
qed

lemma compact_value_of_fields:
  assumes "compact_size c = compact_exp a"
    and "compact_mant c = compact_scale (compact_exp a) (val a)"
  shows "compact_value c = compact_trunc a"
  using assms by (simp add: compact_value_def compact_scale_def compact_trunc_def)

lemma compact_trunc_less_256: "length a = WIDTH \<Longrightarrow> compact_trunc a < 2 ^ 256"
  using compact_trunc_le [of a] val_less_256 [of a] by simp

text \<open>Decoding what \<open>GetCompact\<close> encoded gives the truncated value and no flag.\<close>

theorem SetCompact_GetCompact:
  assumes "length a = WIDTH"
  obtains c n where "GetCompact a False = Some c" "SetCompact c = (n, False, False)"
    "length n = WIDTH" "val n = compact_trunc a"
proof -
  obtain c where c: "GetCompact a False = Some c" "compact_size c = compact_exp a"
    "compact_mant c = compact_scale (compact_exp a) (val a)" "\<not> compact_neg c"
    using GetCompact_fields [OF assms] .
  have v: "compact_value c = compact_trunc a" using c by (intro compact_value_of_fields)
  obtain n f g where n: "SetCompact c = (n, f, g)" by (cases "SetCompact c")
  have "val n = compact_trunc a"
    using val_SetCompact [of c] n compact_trunc_less_256 [OF assms] by (simp add: v)
  moreover have "\<not> f" using SetCompact_negative [of c] c(4) n by simp
  moreover have "\<not> g"
    using SetCompact_overflow [of c] compact_trunc_less_256 [OF assms] v n by simp
  moreover have "length n = WIDTH" using length_SetCompact [of c] n by simp
  ultimately show ?thesis using that [OF c(1)] n by simp
qed

text \<open>Encoding is idempotent: a decoded encoding encodes to the same compact value.\<close>

theorem GetCompact_SetCompact:
  assumes "length a = WIDTH" "GetCompact a False = Some c"
  shows "GetCompact (fst (SetCompact c)) False = Some c"
proof -
  obtain n where n: "SetCompact c = (n, False, False)" "length n = WIDTH" "val n = compact_trunc a"
    using SetCompact_GetCompact [OF assms(1)] assms(2) by auto
  have e: "compact_exp n = compact_exp a" by (rule compact_trunc_exp [OF assms(1) n(2,3)])
  have s: "compact_scale (compact_exp a) (val n) = compact_scale (compact_exp a) (val a)"
    using n(3) by (simp add: compact_scale_def compact_trunc_def)
  obtain d where d: "GetCompact n False = Some d" "compact_size d = compact_exp n"
    "compact_mant d = compact_scale (compact_exp n) (val n)" "\<not> compact_neg d"
    using GetCompact_fields [OF n(2)] .
  have c: "compact_size c = compact_exp a"
    "compact_mant c = compact_scale (compact_exp a) (val a)" "\<not> compact_neg c"
    using GetCompact_fields [OF assms(1)] assms(2) by auto
  have "c = d"
    by (rule compact_fields_inject) (use c d e s in simp_all)
  with d n show ?thesis by simp
qed

section \<open>Properties\<close>

text \<open>
  Multiplication of 256-bit integers. The limb-by-limb product of \<open>base_uint::operator*=\<close>
  is the product of the represented numbers modulo \<open>2 ^ 256\<close>.
\<close>

theorem uint_mul_correct:
  assumes "length a = WIDTH" "length b = WIDTH"
  shows "length (uint_mul a b) = WIDTH \<and> val (uint_mul a b) = val a * val b mod 2 ^ 256"
  using assms by (simp add: val_uint_mul WIDTH_def)

theorem uint_mul_correct_witness:
  "val (uint_mul (base_uint_of_u64 0xffffffffffffffff) (base_uint_of_u64 0xffffffffffffffff)) =
     (2 ^ 64 - 1) * (2 ^ 64 - 1)"
  using uint_mul_correct [of "base_uint_of_u64 0xffffffffffffffff" "base_uint_of_u64 0xffffffffffffffff"]
  by (simp add: val_base_uint_of_u64)

text \<open>
  C32: Division of 256-bit integers. The shift-and-subtract loop of \<open>base_uint::operator/=\<close>
  computes the exact quotient, and a zero divisor is reported as an error.
\<close>

theorem uint_div_correct:
  assumes "length a = WIDTH" "length b = WIDTH"
  shows "if val b = 0 then uint_div a b = None
         else \<exists>q. uint_div a b = Some q \<and> length q = WIDTH \<and> val q = val a div val b"
proof (cases "val b = 0")
  case True
  with assms show ?thesis by (simp add: uint_div_None)
next
  case False
  from uint_div_Some [OF assms False] False show ?thesis by metis
qed

theorem uint_div_correct_witness:
  "\<exists>q. uint_div (base_uint_of_u64 1000) (base_uint_of_u64 7) = Some q \<and> val q = 142"
  using uint_div_correct [of "base_uint_of_u64 1000" "base_uint_of_u64 7"]
  by (auto simp: val_base_uint_of_u64)

text \<open>
  The compact encoding of targets. \<open>GetCompact\<close> never fails on a 256-bit integer; decoding
  its result sets neither flag and gives the value with all but its top bits cleared, a number
  at most the original; and encoding the decoded value gives the same 32 bits again.
\<close>

theorem compact_round_trip:
  assumes "length a = WIDTH"
  shows "\<exists>c n. GetCompact a False = Some c \<and> SetCompact c = (n, False, False) \<and>
    val n = compact_trunc a \<and> val n \<le> val a \<and> GetCompact n False = Some c"
proof -
  obtain c n where c: "GetCompact a False = Some c" "SetCompact c = (n, False, False)"
    "length n = WIDTH" "val n = compact_trunc a"
    using SetCompact_GetCompact [OF assms] .
  moreover have "GetCompact n False = Some c"
    using GetCompact_SetCompact [OF assms c(1)] c(2) by simp
  ultimately show ?thesis using compact_trunc_le [of a] by auto
qed

theorem compact_round_trip_witness:
  "\<exists>c n. GetCompact (base_uint_of_u64 0x12345678) False = Some c \<and> SetCompact c = (n, False, False) \<and>
    val n \<le> 0x12345678"
  using compact_round_trip [of "base_uint_of_u64 0x12345678"]
  by (auto simp: val_base_uint_of_u64)

end
