(* ===== verification/Uint256.thy ===== *)
theory Uint256
  imports Arith_Uint256
begin

text \<open>
  Opaque 256-bit values (\<open>src/uint256.h\<close>), as their 32 bytes in memory order, and the
  conversions between them and \<open>arith_uint256\<close> (end of \<open>src/arith_uint256.cpp\<close>, with
  \<open>ReadLE32\<close> and \<open>WriteLE32\<close> of \<open>src/crypto/common.h\<close>).
\<close>

type_synonym uint256 = "uint8 list"

definition wf_uint256 :: "uint256 \<Rightarrow> bool" where
  "wf_uint256 u \<longleftrightarrow> length u = 32"

definition uint256_zero :: uint256 where
  "uint256_zero = replicate 32 0"

definition IsNull :: "uint256 \<Rightarrow> bool" where
  "IsNull u \<longleftrightarrow> list_all (\<lambda>v. v = 0) u"

text \<open>Four bytes at an offset, least significant first.\<close>

definition ReadLE32 :: "uint8 list \<Rightarrow> nat \<Rightarrow> uint32" where
  "ReadLE32 bs i =
     ucast (bs ! i) OR push_bit 8 (ucast (bs ! (i + 1))) OR
     push_bit 16 (ucast (bs ! (i + 2))) OR push_bit 24 (ucast (bs ! (i + 3)))"

definition WriteLE32 :: "uint32 \<Rightarrow> uint8 list" where
  "WriteLE32 x = [ucast x, ucast (drop_bit 8 x), ucast (drop_bit 16 x), ucast (drop_bit 24 x)]"

definition ArithToUint256 :: "base_uint \<Rightarrow> uint256" where
  "ArithToUint256 a = concat (map WriteLE32 a)"

definition UintToArith256 :: "uint256 \<Rightarrow> base_uint" where
  "UintToArith256 a = map (\<lambda>x. ReadLE32 a (x * 4)) [0..<WIDTH]"

lemma length_UintToArith256 [simp]: "length (UintToArith256 u) = WIDTH"
  by (simp add: UintToArith256_def)

lemma ReadLE32_WriteLE32: "ReadLE32 (WriteLE32 x) 0 = x"
proof (rule bit_word_eqI)
  fix n assume "n < LENGTH(32)"
  then consider "n < 8" | "8 \<le> n" "n < 16" | "16 \<le> n" "n < 24" | "24 \<le> n" "n < 32"
    by simp linarith
  then show "bit (ReadLE32 (WriteLE32 x) 0) n \<longleftrightarrow> bit x n"
    unfolding ReadLE32_def WriteLE32_def by cases (auto simp: bit_simps)
qed

lemma nth_concat_WriteLE32:
  "i < length a \<Longrightarrow> j < 4 \<Longrightarrow> concat (map WriteLE32 a) ! (i * 4 + j) = WriteLE32 (a ! i) ! j"
proof (induction a arbitrary: i)
  case (Cons x xs)
  show ?case
  proof (cases i)
    case 0
    have "length (WriteLE32 x) = 4" by (simp add: WriteLE32_def)
    with 0 Cons.prems show ?thesis by (simp add: nth_append)
  next
    case (Suc k)
    then have "concat (map WriteLE32 (x # xs)) ! (i * 4 + j) = concat (map WriteLE32 xs) ! (k * 4 + j)"
      by (simp add: nth_append WriteLE32_def)
    with Suc Cons show ?thesis by simp
  qed
qed simp

lemma ReadLE32_ArithToUint256:
  assumes "i < length a"
  shows "ReadLE32 (ArithToUint256 a) (i * 4) = a ! i"
proof -
  have "ReadLE32 (ArithToUint256 a) (i * 4) = ReadLE32 (WriteLE32 (a ! i)) 0"
    using nth_concat_WriteLE32 [OF assms, of 0] nth_concat_WriteLE32 [OF assms, of 1]
      nth_concat_WriteLE32 [OF assms, of 2] nth_concat_WriteLE32 [OF assms, of 3]
    by (simp add: ReadLE32_def ArithToUint256_def numeral_eq_Suc)
  then show ?thesis by (simp add: ReadLE32_WriteLE32)
qed

lemma UintToArith256_ArithToUint256:
  assumes "length a = WIDTH"
  shows "UintToArith256 (ArithToUint256 a) = a"
  by (rule nth_equalityI) (simp_all add: assms UintToArith256_def ReadLE32_ArithToUint256)

end
