(* ===== verification/Chain.thy ===== *)
theory Chain
  imports Uint256
begin

text \<open>
  The block index (\<open>src/chain.h\<close>, \<open>src/chain.cpp\<close> and \<open>AddToBlockIndex\<close> of
  \<open>src/node/blockstorage.cpp\<close>). A \<open>CBlockIndex*\<close> is the address of an entry of the map
  \<open>m_block_index\<close>, which never moves; it is modelled by the entry's key, the block hash,
  so that \<open>nullptr\<close> is \<open>None\<close> and pointer equality is equality of keys. The heap of
  entries is the map itself.

  A function that can abort (a failed \<open>assert\<close>, a null dereference) returns an option
  whose \<open>None\<close> is the abort; a returned pointer is an option inside it. Heights are integers
  without a width: the 32-bit \<open>int\<close> of the code holds every height below \<open>2 ^ 31\<close>, which no chain of
  blocks reaches.
\<close>

section \<open>Block index entries\<close>

type_synonym block_ptr = uint256

record CBlockHeader =
  hdrVersion :: int
  hashPrevBlock :: uint256
  hdrMerkleRoot :: uint256
  hdrTime :: uint32
  hdrBits :: uint32
  hdrNonce :: uint32

record CBlockIndex =
  pprev :: "block_ptr option"
  pskip :: "block_ptr option"
  nHeight :: int
  nChainWork :: base_uint
  nTx :: uint32
  nChainTx :: uint32
  nStatus :: uint32
  nVersion :: int
  hashMerkleRoot :: uint256
  nTime :: uint32
  nBits :: uint32
  nNonce :: uint32
  nSequenceId :: int
  nTimeMax :: uint32

type_synonym block_map = "block_ptr \<rightharpoonup> CBlockIndex"

text \<open>The constructor from a header; the other members have their default initialisers.\<close>

definition CBlockIndex_of_header :: "CBlockHeader \<Rightarrow> CBlockIndex" where
  "CBlockIndex_of_header block =
     \<lparr>pprev = None, pskip = None, nHeight = 0, nChainWork = base_uint_zero, nTx = 0,
      nChainTx = 0, nStatus = 0, nVersion = hdrVersion block,
      hashMerkleRoot = hdrMerkleRoot block, nTime = hdrTime block, nBits = hdrBits block,
      nNonce = hdrNonce block, nSequenceId = 0, nTimeMax = 0\<rparr>"

definition GetBlockTime :: "CBlockIndex \<Rightarrow> int" where
  "GetBlockTime b = uint (nTime b)"

definition BLOCK_VALID_TREE :: uint32 where "BLOCK_VALID_TREE = 2"
definition BLOCK_VALID_TRANSACTIONS :: uint32 where "BLOCK_VALID_TRANSACTIONS = 3"
definition BLOCK_VALID_CHAIN :: uint32 where "BLOCK_VALID_CHAIN = 4"
definition BLOCK_VALID_SCRIPTS :: uint32 where "BLOCK_VALID_SCRIPTS = 5"
definition BLOCK_VALID_MASK :: uint32 where "BLOCK_VALID_MASK = 1 OR 2 OR 3 OR 4 OR 5"
definition BLOCK_FAILED_VALID :: uint32 where "BLOCK_FAILED_VALID = 32"
definition BLOCK_FAILED_CHILD :: uint32 where "BLOCK_FAILED_CHILD = 64"
definition BLOCK_FAILED_MASK :: uint32 where "BLOCK_FAILED_MASK = BLOCK_FAILED_VALID OR BLOCK_FAILED_CHILD"
definition BLOCK_ASSUMED_VALID :: uint32 where "BLOCK_ASSUMED_VALID = 256"

lemmas block_status_defs = BLOCK_VALID_TREE_def BLOCK_VALID_TRANSACTIONS_def BLOCK_VALID_CHAIN_def
  BLOCK_VALID_SCRIPTS_def BLOCK_VALID_MASK_def BLOCK_FAILED_VALID_def BLOCK_FAILED_CHILD_def
  BLOCK_FAILED_MASK_def BLOCK_ASSUMED_VALID_def

text \<open>\<open>IsValid\<close> and \<open>RaiseValidity\<close> abort unless only validity flags are passed.\<close>

definition IsValid :: "CBlockIndex \<Rightarrow> uint32 \<Rightarrow> bool option" where
  "IsValid b nUpTo =
     (if nUpTo AND NOT BLOCK_VALID_MASK \<noteq> 0 then None
      else if nStatus b AND BLOCK_FAILED_MASK \<noteq> 0 then Some False
      else Some (nStatus b AND BLOCK_VALID_MASK \<ge> nUpTo))"

definition RaiseValidity :: "CBlockIndex \<Rightarrow> uint32 \<Rightarrow> (bool \<times> CBlockIndex) option" where
  "RaiseValidity b nUpTo =
     (if nUpTo AND NOT BLOCK_VALID_MASK \<noteq> 0 then None
      else if nStatus b AND BLOCK_FAILED_MASK \<noteq> 0 then Some (False, b)
      else if nStatus b AND BLOCK_VALID_MASK < nUpTo
      then let st = (if nStatus b AND BLOCK_ASSUMED_VALID \<noteq> 0 \<and> nUpTo \<ge> BLOCK_VALID_SCRIPTS
                     then nStatus b AND NOT BLOCK_ASSUMED_VALID else nStatus b)
           in Some (True, b\<lparr>nStatus := (st AND NOT BLOCK_VALID_MASK) OR nUpTo\<rparr>)
      else Some (False, b))"

section \<open>Skip list\<close>

definition InvertLowestOne :: "int \<Rightarrow> int" where
  "InvertLowestOne n = n AND (n - 1)"

definition GetSkipHeight :: "int \<Rightarrow> int" where
  "GetSkipHeight height =
     (if height < 2 then 0
      else if height AND 1 \<noteq> 0
      then InvertLowestOne (InvertLowestOne (height - 1)) + 1
      else InvertLowestOne height)"

lemma InvertLowestOne_bounds:
  assumes "0 < n"
  shows "0 \<le> InvertLowestOne n" "InvertLowestOne n < n"
  using assms AND_upper2 [of "n - 1" n] by (simp_all add: InvertLowestOne_def)

lemma InvertLowestOne_0 [simp]: "InvertLowestOne 0 = 0"
  by (simp add: InvertLowestOne_def)

lemma GetSkipHeight_bounds:
  assumes "0 < h"
  shows "0 \<le> GetSkipHeight h" "GetSkipHeight h < h"
proof -
  have "0 \<le> GetSkipHeight h \<and> GetSkipHeight h < h"
  proof (cases "2 \<le> h \<and> h AND 1 \<noteq> 0")
    case True
    then have "0 \<le> InvertLowestOne (h - 1)" "InvertLowestOne (h - 1) < h - 1"
      using InvertLowestOne_bounds [of "h - 1"] by simp_all
    then have "0 \<le> InvertLowestOne (InvertLowestOne (h - 1))"
      "InvertLowestOne (InvertLowestOne (h - 1)) \<le> InvertLowestOne (h - 1)"
      using InvertLowestOne_bounds [of "InvertLowestOne (h - 1)"]
      by (cases "InvertLowestOne (h - 1) = 0"; simp)+
    with True \<open>InvertLowestOne (h - 1) < h - 1\<close> show ?thesis by (simp add: GetSkipHeight_def)
  next
    case False
    then show ?thesis
      using assms InvertLowestOne_bounds [of h] by (auto simp: GetSkipHeight_def)
  qed
  then show "0 \<le> GetSkipHeight h" "GetSkipHeight h < h" by simp_all
qed

text \<open>
  The loop of \<open>GetAncestor\<close>. Its guard carries \<open>0 \<le> height\<close>, which the caller has
  checked before the loop and which makes the walked height decrease.
\<close>

function ancestor_walk :: "block_map \<Rightarrow> block_ptr \<Rightarrow> int \<Rightarrow> int \<Rightarrow> block_ptr option" where
  "ancestor_walk H pindexWalk heightWalk height =
     (if 0 \<le> height \<and> heightWalk > height
      then (case H pindexWalk of
              None \<Rightarrow> None
            | Some b \<Rightarrow>
                let heightSkip = GetSkipHeight heightWalk;
                    heightSkipPrev = GetSkipHeight (heightWalk - 1)
                in (case pskip b of
                      Some s \<Rightarrow>
                        if heightSkip = height \<or>
                           (heightSkip > height \<and>
                            \<not> (heightSkipPrev < heightSkip - 2 \<and> heightSkipPrev \<ge> height))
                        then ancestor_walk H s heightSkip height
                        else (case pprev b of
                                None \<Rightarrow> None
                              | Some q \<Rightarrow> ancestor_walk H q (heightWalk - 1) height)
                    | None \<Rightarrow>
                        (case pprev b of
                           None \<Rightarrow> None
                         | Some q \<Rightarrow> ancestor_walk H q (heightWalk - 1) height)))
      else Some pindexWalk)"
  by pat_completeness auto
termination
  by (relation "measure (\<lambda>(H, p, hw, h). nat (hw - h))") (auto intro: GetSkipHeight_bounds)

declare ancestor_walk.simps [simp del]

definition GetAncestor :: "block_map \<Rightarrow> block_ptr \<Rightarrow> int \<Rightarrow> block_ptr option option" where
  "GetAncestor H p height =
     (case H p of
        None \<Rightarrow> None
      | Some b \<Rightarrow>
          if height > nHeight b \<or> height < 0 then Some None
          else map_option Some (ancestor_walk H p (nHeight b) height))"

text \<open>\<open>BuildSkip\<close>, as the new value of \<open>pskip\<close>.\<close>

definition BuildSkip :: "block_map \<Rightarrow> CBlockIndex \<Rightarrow> CBlockIndex option" where
  "BuildSkip H b =
     (case pprev b of
        None \<Rightarrow> Some b
      | Some q \<Rightarrow> map_option (\<lambda>s. b\<lparr>pskip := s\<rparr>) (GetAncestor H q (GetSkipHeight (nHeight b))))"

section \<open>Well-formed index\<close>

text \<open>\<open>n\<close> steps along \<open>pprev\<close>: the specification of the ancestor search.\<close>

primrec prev_n :: "block_map \<Rightarrow> nat \<Rightarrow> block_ptr \<Rightarrow> block_ptr option" where
  "prev_n H 0 p = Some p"
| "prev_n H (Suc n) p = do { b \<leftarrow> H p; q \<leftarrow> pprev b; prev_n H n q }"

text \<open>
  The invariant of the block index: heights follow the parent links, an entry without a
  parent has height 0, and a skip pointer is the ancestor at the skip height. A null skip
  pointer is allowed at any height, since \<open>GetAncestor\<close> tests for it and then follows \<open>pprev\<close>; that
  \<open>AddToBlockIndex\<close> sets the pointer of every entry with a parent is stated for it separately.
\<close>

definition wf_entry :: "block_map \<Rightarrow> block_ptr \<Rightarrow> CBlockIndex \<Rightarrow> bool" where
  "wf_entry H p b \<longleftrightarrow>
     length (nChainWork b) = WIDTH \<and>
     (case pprev b of
        None \<Rightarrow> nHeight b = 0 \<and> pskip b = None
      | Some q \<Rightarrow>
          (\<exists>c. H q = Some c \<and> 0 \<le> nHeight c \<and> nHeight b = nHeight c + 1) \<and>
          (\<forall>s. pskip b = Some s \<longrightarrow>
             prev_n H (nat (nHeight b - GetSkipHeight (nHeight b))) p = Some s))"

definition wf_index :: "block_map \<Rightarrow> bool" where
  "wf_index H \<longleftrightarrow> (\<forall>p b. H p = Some b \<longrightarrow> wf_entry H p b)"

lemma wf_indexD: "wf_index H \<Longrightarrow> H p = Some b \<Longrightarrow> wf_entry H p b"
  by (simp add: wf_index_def)

lemma wf_height_nonneg: "wf_index H \<Longrightarrow> H p = Some b \<Longrightarrow> 0 \<le> nHeight b"
  by (drule (1) wf_indexD) (auto simp: wf_entry_def split: option.splits)

lemma wf_prev:
  assumes "wf_index H" "H p = Some b" "0 < nHeight b"
  obtains q c where "pprev b = Some q" "H q = Some c" "nHeight b = nHeight c + 1"
  using wf_indexD [OF assms(1,2)] assms(3) by (auto simp: wf_entry_def split: option.splits)

lemma prev_n_height:
  assumes "wf_index H" "H p = Some b" "int n \<le> nHeight b"
  obtains q c where "prev_n H n p = Some q" "H q = Some c" "nHeight c = nHeight b - int n"
proof -
  have "\<exists>q c. prev_n H n p = Some q \<and> H q = Some c \<and> nHeight c = nHeight b - int n"
    using assms(2,3)
  proof (induction n arbitrary: p b)
    case (Suc n)
    from Suc.prems have "0 < nHeight b" by simp
    from wf_prev [OF assms(1) Suc.prems(1) this]
    obtain q c where "pprev b = Some q" "H q = Some c" "nHeight b = nHeight c + 1" .
    with Suc show ?case by fastforce
  qed simp
  then show ?thesis using that by blast
qed

lemma prev_n_add: "prev_n H (m + n) p = do { q \<leftarrow> prev_n H m p; prev_n H n q }"
  by (induction m arbitrary: p) (auto split: bind_split)

lemma ancestor_walk_prev_n:
  assumes wf: "wf_index H" and h: "0 \<le> h"
  shows "H p = Some b \<Longrightarrow> nHeight b = hw \<Longrightarrow> h \<le> hw \<Longrightarrow>
    ancestor_walk H p hw h = prev_n H (nat (hw - h)) p"
proof (induction "nat (hw - h)" arbitrary: p b hw rule: less_induct)
  case less
  show ?case
  proof (cases "hw > h")
    case False
    with less.prems show ?thesis by (subst ancestor_walk.simps) simp
  next
    case True
    with h less.prems have pos: "0 < nHeight b" "0 < hw" by simp_all
    obtain q c where q: "pprev b = Some q" "H q = Some c" "nHeight b = nHeight c + 1"
      using wf_prev [OF wf less.prems(1) pos(1)] .
    have "ancestor_walk H q (hw - 1) h = prev_n H (nat (hw - 1 - h)) q"
      using True q less.prems by (intro less.hyps) simp_all
    moreover have "nat (hw - h) = Suc (nat (hw - 1 - h))" using True by simp
    ultimately have down: "ancestor_walk H q (hw - 1) h = prev_n H (nat (hw - h)) p"
      using q less.prems by simp
    have skip: "ancestor_walk H s (GetSkipHeight hw) h = prev_n H (nat (hw - h)) p"
      if "pskip b = Some s" "h \<le> GetSkipHeight hw" for s
    proof -
      have lt: "0 \<le> GetSkipHeight hw" "GetSkipHeight hw < hw" using GetSkipHeight_bounds pos by auto
      have s: "prev_n H (nat (hw - GetSkipHeight hw)) p = Some s"
        using wf_indexD [OF wf less.prems(1)] q that(1) less.prems(2) by (simp add: wf_entry_def)
      then obtain c' where "H s = Some c'" "nHeight c' = GetSkipHeight hw"
        using prev_n_height [OF wf less.prems(1), of "nat (hw - GetSkipHeight hw)"] lt less.prems(2)
        by auto
      then have "ancestor_walk H s (GetSkipHeight hw) h = prev_n H (nat (GetSkipHeight hw - h)) s"
        using lt that(2) True by (intro less.hyps) simp_all
      moreover have "nat (hw - h) = nat (hw - GetSkipHeight hw) + nat (GetSkipHeight hw - h)"
        using lt that(2) by simp
      ultimately show ?thesis using s by (simp add: prev_n_add)
    qed
    show ?thesis
      using True h less.prems q down skip
      by (subst ancestor_walk.simps) (auto simp: Let_def split: option.split)
  qed
qed

theorem GetAncestor_prev_n:
  assumes "wf_index H" "H p = Some b" "0 \<le> h" "h \<le> nHeight b"
  obtains q c where "GetAncestor H p h = Some (Some q)" "prev_n H (nat (nHeight b - h)) p = Some q"
    "H q = Some c" "nHeight c = h"
proof -
  obtain q c where "prev_n H (nat (nHeight b - h)) p = Some q" "H q = Some c" "nHeight c = h"
    using prev_n_height [OF assms(1,2), of "nat (nHeight b - h)"] assms(3,4) by auto
  moreover from this have "GetAncestor H p h = Some (Some q)"
    using ancestor_walk_prev_n [OF assms(1,3,2) refl assms(4)] assms by (simp add: GetAncestor_def)
  ultimately show ?thesis using that by blast
qed

lemma GetAncestor_null:
  "H p = Some b \<Longrightarrow> h < 0 \<or> nHeight b < h \<Longrightarrow> GetAncestor H p h = Some None"
  by (auto simp: GetAncestor_def)

section \<open>Insertion into the index\<close>

lemma prev_n_map_le: "H \<subseteq>\<^sub>m H' \<Longrightarrow> prev_n H n p = Some q \<Longrightarrow> prev_n H' n p = Some q"
proof (induction n arbitrary: p)
  case (Suc n)
  then obtain b r where "H p = Some b" "pprev b = Some r" "prev_n H n r = Some q"
    by (auto split: bind_splits)
  with Suc show ?case by (auto simp: map_le_def dom_def)
qed simp

lemma wf_entry_map_le: "H \<subseteq>\<^sub>m H' \<Longrightarrow> wf_entry H p b \<Longrightarrow> wf_entry H' p b"
  by (auto simp: wf_entry_def map_le_def dom_def split: option.splits
      intro: prev_n_map_le [unfolded map_le_def dom_def])

lemma wf_index_insert:
  assumes "wf_index H" "H p = None" "wf_entry (H(p \<mapsto> b)) p b"
  shows "wf_index (H(p \<mapsto> b))"
proof -
  have "H \<subseteq>\<^sub>m H(p \<mapsto> b)" using assms(2) by (auto simp: map_le_def dom_def)
  with assms show ?thesis
    by (auto simp: wf_index_def intro: wf_entry_map_le)
qed

section \<open>Work\<close>

lemma length_8_cases:
  assumes "length a = WIDTH"
  obtains x0 x1 x2 x3 x4 x5 x6 x7 where "a = [x0, x1, x2, x3, x4, x5, x6, x7]"
  using assms by (auto simp: WIDTH_def numeral_eq_Suc length_Suc_conv)

lemma EqualTo_0_iff [limb_simps]:
  assumes "length a = WIDTH"
  shows "EqualTo a 0 \<longleftrightarrow> val a = 0"
proof -
  obtain x0 x1 x2 x3 x4 x5 x6 x7 where a: "a = [x0, x1, x2, x3, x4, x5, x6, x7]"
    using length_8_cases [OF assms] .
  have "[2..<WIDTH] = [2, 3, 4, 5, 6, 7]" by (simp add: WIDTH_def upt_rec)
  moreover have "(ucast x :: uint64) = 0 \<longleftrightarrow> x = 0" for x :: uint32
    by (metis unat_ucast_up_32_64 unat_eq_zero)
  ultimately show ?thesis
    by (auto simp: EqualTo_def a unat_eq_zero)
qed

definition GetBlockProof :: "uint32 \<Rightarrow> base_uint option" where
  "GetBlockProof bits =
     (let (bnTarget, fNegative, fOverflow) = SetCompact bits
      in if fNegative \<or> fOverflow \<or> EqualTo bnTarget 0 then Some (base_uint_of_u64 0)
         else map_option (\<lambda>q. uint_add q (base_uint_of_u64 1))
                (uint_div (uint_not bnTarget) (uint_add bnTarget (base_uint_of_u64 1))))"

text \<open>A decoded target that does not overflow is at most \<open>2 ^ 256 - 2\<close>.\<close>

lemma compact_value_less:
  assumes "compact_value c < 2 ^ 256"
  shows "compact_value c + 1 < 2 ^ 256"
proof (cases "compact_size c \<le> 3")
  case True
  have "compact_value c \<le> compact_mant c" using True by (simp add: compact_value_def)
  also have "\<dots> < 2 ^ 23" by (rule compact_mant_less)
  finally show ?thesis by simp
next
  case False
  then obtain k where "compact_size c - 3 = Suc k" by (cases "compact_size c - 3") auto
  with False have "even (compact_value c)" by (simp add: compact_value_def)
  then have "compact_value c \<noteq> 2 ^ 256 - 1" by auto
  with assms show ?thesis by linarith
qed

lemma div_complement:
  fixes t N :: nat
  assumes "t + 1 \<le> N"
  shows "(N - 1 - t) div (t + 1) + 1 = N div (t + 1)"
proof -
  have "N div (t + 1) = ((N - 1 - t) + (t + 1)) div (t + 1)" using assms by simp
  also have "\<dots> = (N - 1 - t) div (t + 1) + 1" by (subst div_add_self2) simp_all
  finally show ?thesis by simp
qed

theorem GetBlockProof_value:
  obtains w where "GetBlockProof c = Some w" "length w = WIDTH"
    "val w = (if fst (snd (SetCompact c)) \<or> snd (snd (SetCompact c)) \<or> compact_value c = 0 then 0
              else 2 ^ 256 div (compact_value c + 1))"
proof -
  obtain n f g where sc: "SetCompact c = (n, f, g)" by (cases "SetCompact c")
  have n: "length n = WIDTH" "val n = compact_value c mod 2 ^ 256"
    using val_SetCompact [of c] length_SetCompact [of c] sc by simp_all
  show ?thesis
  proof (cases "f \<or> g \<or> compact_value c = 0")
    case True
    then have "GetBlockProof c = Some (base_uint_of_u64 0)"
      using n sc SetCompact_overflow [of c]
      by (auto simp: GetBlockProof_def EqualTo_0_iff)
    with True that [of "base_uint_of_u64 0"] sc show ?thesis
      by (auto simp: val_base_uint_of_u64)
  next
    case False
    let ?t = "compact_value c"
    have t: "?t < 2 ^ 256" using False sc SetCompact_overflow [of c] by simp
    then have t1: "?t + 1 < 2 ^ 256" by (rule compact_value_less)
    have vn: "val n = ?t" using n t by simp
    have v1: "val (uint_add n (base_uint_of_u64 1)) = ?t + 1"
      using n t1 vn by (simp add: val_uint_add val_base_uint_of_u64 WIDTH_def)
    have vnot: "val (uint_not n) = 2 ^ 256 - 1 - ?t"
      using n vn by (simp add: val_uint_not WIDTH_def)
    obtain q where q: "uint_div (uint_not n) (uint_add n (base_uint_of_u64 1)) = Some q"
      "length q = WIDTH" "val q = val (uint_not n) div val (uint_add n (base_uint_of_u64 1))"
      using n v1 by (rule_tac uint_div_Some [of "uint_not n" "uint_add n (base_uint_of_u64 1)"]) simp_all
    have "val q + 1 = 2 ^ 256 div (?t + 1)"
      using q(3) v1 vnot t1 div_complement [of ?t "2 ^ 256"] by simp
    moreover have "2 ^ 256 div (?t + 1) < (2 :: nat) ^ 256"
      using False by (intro div_less_dividend) simp_all
    ultimately have "val (uint_add q (base_uint_of_u64 1)) = 2 ^ 256 div (?t + 1)"
      using q(2) by (simp add: val_uint_add val_base_uint_of_u64 WIDTH_def)
    moreover have "GetBlockProof c = Some (uint_add q (base_uint_of_u64 1))"
      using False n sc q vn by (simp add: GetBlockProof_def EqualTo_0_iff)
    ultimately show ?thesis
      using that [of "uint_add q (base_uint_of_u64 1)"] False sc q(2) by simp
  qed
qed

section \<open>Adding a header to the index\<close>

record BlockManager =
  m_block_index :: block_map
  m_dirty_blockindex :: "block_ptr set"

text \<open>
  A new entry in two steps: \<open>link_entry\<close> looks the parent up (after the entry itself has been
  emplaced) and sets \<open>pprev\<close>, \<open>nHeight\<close> and the skip pointer; \<open>AddToBlockIndex\<close> does the rest.
\<close>

definition link_entry :: "block_map \<Rightarrow> block_ptr \<Rightarrow> CBlockHeader \<Rightarrow> CBlockIndex option" where
  "link_entry index hash block =
     (let b0 = (CBlockIndex_of_header block)\<lparr>nSequenceId := 0\<rparr>
      in case (index(hash \<mapsto> b0)) (hashPrevBlock block) of
           None \<Rightarrow> Some b0
         | Some pb \<Rightarrow>
             let b = b0\<lparr>pprev := Some (hashPrevBlock block), nHeight := nHeight pb + 1\<rparr>
             in BuildSkip (index(hash \<mapsto> b)) b)"

definition AddToBlockIndex ::
  "(CBlockHeader \<Rightarrow> uint256) \<Rightarrow> BlockManager \<Rightarrow> block_ptr option \<Rightarrow> CBlockHeader \<Rightarrow>
   (block_ptr \<times> BlockManager \<times> block_ptr option) option" where
  "AddToBlockIndex GetHash bm best_header block =
     (let hash = GetHash block
      in case m_block_index bm hash of
           Some _ \<Rightarrow> Some (hash, bm, best_header)
         | None \<Rightarrow> do {
             b1 \<leftarrow> link_entry (m_block_index bm) hash block;
             let prev = Option.bind (pprev b1) ((m_block_index bm)(hash \<mapsto> b1));
             let b2 = b1\<lparr>nTimeMax := (case prev of
                                        None \<Rightarrow> nTime b1
                                      | Some pb \<Rightarrow> max (nTimeMax pb) (nTime b1))\<rparr>;
             work \<leftarrow> GetBlockProof (nBits b2);
             let b3 = b2\<lparr>nChainWork := uint_add (case prev of
                                                   None \<Rightarrow> base_uint_of_u64 0
                                                 | Some pb \<Rightarrow> nChainWork pb) work\<rparr>;
             (changed, b4) \<leftarrow> RaiseValidity b3 BLOCK_VALID_TREE;
             let H = (m_block_index bm)(hash \<mapsto> b4);
             best \<leftarrow> (case best_header of
                        None \<Rightarrow> Some (Some hash)
                      | Some bh \<Rightarrow> map_option
                          (\<lambda>x. if uint_lt (nChainWork x) (nChainWork b4) then Some hash else best_header)
                          (H bh));
             Some (hash, bm\<lparr>m_block_index := H,
                            m_dirty_blockindex := insert hash (m_dirty_blockindex bm)\<rparr>, best)
           })"

lemma prev_n_pprev_cong:
  assumes "\<And>p. map_option pprev (H p) = map_option pprev (H' p)"
  shows "prev_n H n p = prev_n H' n p"
proof (induction n arbitrary: p)
  case (Suc n)
  then show ?case using assms [of p] by (cases "H p"; cases "H' p") (auto split: bind_split)
qed simp

lemma RaiseValidity_fresh:
  "nStatus b = 0 \<Longrightarrow> RaiseValidity b BLOCK_VALID_TREE = Some (True, b\<lparr>nStatus := BLOCK_VALID_TREE\<rparr>)"
  by (simp add: RaiseValidity_def block_status_defs)

text \<open>The skip pointer that \<open>BuildSkip\<close> gives a new entry is the one the invariant asks for.\<close>

lemma BuildSkip_new:
  assumes wf: "wf_index H" and fresh: "H p = None" and q: "H q = Some c" "pprev b = Some q"
    and h: "nHeight b = nHeight c + 1" and b: "pskip b = None" "length (nChainWork b) = WIDTH"
  obtains s where "BuildSkip (H(p \<mapsto> b)) b = Some (b\<lparr>pskip := Some s\<rparr>)"
    "prev_n (H(p \<mapsto> b)) (nat (nHeight b - GetSkipHeight (nHeight b))) p = Some s"
proof -
  let ?H = "H(p \<mapsto> b)" and ?k = "GetSkipHeight (nHeight b)"
  have pq: "p \<noteq> q" using fresh q by auto
  have c0: "0 \<le> nHeight c" using wf_height_nonneg [OF wf q(1)] .
  have "wf_entry ?H p b" using pq q h b c0 by (simp add: wf_entry_def)
  then have wf': "wf_index ?H" using wf_index_insert [OF wf fresh] by simp
  have k: "0 \<le> ?k" "?k \<le> nHeight c" using GetSkipHeight_bounds [of "nHeight b"] h c0 by simp_all
  obtain s where s: "GetAncestor ?H q ?k = Some (Some s)"
    "prev_n ?H (nat (nHeight c - ?k)) q = Some s"
    using GetAncestor_prev_n [OF wf' _ k(1) k(2), of q] pq q(1) by auto
  have "nat (nHeight b - ?k) = Suc (nat (nHeight c - ?k))" using h k by simp
  then have "prev_n ?H (nat (nHeight b - ?k)) p = Some s" using s(2) q(2) by simp
  with s(1) q(2) that show ?thesis by (simp add: BuildSkip_def)
qed

text \<open>What a fresh entry is: its parent, height, work and well-formedness.\<close>

definition prev_work :: "block_map \<Rightarrow> block_ptr \<Rightarrow> nat" where
  "prev_work H q = (case H q of None \<Rightarrow> 0 | Some c \<Rightarrow> val (nChainWork c))"

definition proof_value :: "uint32 \<Rightarrow> nat" where
  "proof_value c =
     (if fst (snd (SetCompact c)) \<or> snd (snd (SetCompact c)) \<or> compact_value c = 0 then 0
      else 2 ^ 256 div (compact_value c + 1))"

lemma GetBlockProof_proof_value:
  obtains w where "GetBlockProof c = Some w" "length w = WIDTH" "val w = proof_value c"
  using GetBlockProof_value [of c] unfolding proof_value_def .

definition best_ok :: "block_map \<Rightarrow> block_ptr option \<Rightarrow> bool" where
  "best_ok H best \<longleftrightarrow>
     (case best of
        None \<Rightarrow> H = Map.empty
      | Some p \<Rightarrow> (\<exists>x. H p = Some x \<and> (\<forall>q b. H q = Some b \<longrightarrow> val (nChainWork b) \<le> val (nChainWork x))))"

definition best_present :: "block_map \<Rightarrow> block_ptr option \<Rightarrow> bool" where
  "best_present H best \<longleftrightarrow> (case best of None \<Rightarrow> True | Some p \<Rightarrow> H p \<noteq> None)"

lemma best_ok_present: "best_ok H best \<Longrightarrow> best_present H best"
  by (auto simp: best_ok_def best_present_def split: option.splits)

lemma best_insert:
  assumes wf: "wf_index H" and best: "best_present H best" and b: "length (nChainWork b) = WIDTH" and fresh: "H p = None"
  shows "\<exists>best'. (case best of
                        None \<Rightarrow> Some (Some p)
                      | Some bh \<Rightarrow> map_option
                          (\<lambda>x. if uint_lt (nChainWork x) (nChainWork b) then Some p else best)
                          ((H(p \<mapsto> b)) bh)) = Some best' \<and> best_present (H(p \<mapsto> b)) best' \<and>
           (best_ok H best \<longrightarrow> best_ok (H(p \<mapsto> b)) best')"
proof (cases best)
  case None
  then show ?thesis by (auto simp: best_ok_def best_present_def)
next
  case (Some bh)
  with best obtain x where x: "H bh = Some x" by (auto simp: best_present_def)
  have "length (nChainWork x) = WIDTH" using wf_indexD [OF wf x] by (simp add: wf_entry_def)
  then have lt: "uint_lt (nChainWork x) (nChainWork b) \<longleftrightarrow> val (nChainWork x) < val (nChainWork b)"
    using b by (simp add: uint_compare_iff)
  have "bh \<noteq> p" using x fresh by auto
  with Some x lt show ?thesis
    by (fastforce simp: best_ok_def best_present_def)
qed

lemma AddToBlockIndex_known:
  "m_block_index bm (GetHash block) = Some b \<Longrightarrow>
   AddToBlockIndex GetHash bm best block = Some (GetHash block, bm, best)"
  by (simp add: AddToBlockIndex_def)

lemma link_entry_ok:
  assumes wf: "wf_index H" and fresh: "H p = None" and ns: "hashPrevBlock block \<noteq> p"
  obtains b1 where "link_entry H p block = Some b1"
    "nBits b1 = hdrBits block" "nTime b1 = hdrTime block" "nStatus b1 = 0"
    "nVersion b1 = hdrVersion block \<and> hashMerkleRoot b1 = hdrMerkleRoot block \<and> nNonce b1 = hdrNonce block"
    "nHeight b1 = (case H (hashPrevBlock block) of None \<Rightarrow> 0 | Some c \<Rightarrow> nHeight c + 1)"
    "pprev b1 = (case H (hashPrevBlock block) of None \<Rightarrow> None | Some c \<Rightarrow> Some (hashPrevBlock block))"
    "\<forall>b. pprev b = pprev b1 \<and> pskip b = pskip b1 \<and> nHeight b = nHeight b1 \<and>
       length (nChainWork b) = WIDTH \<longrightarrow> wf_index (H(p \<mapsto> b))"
proof (cases "H (hashPrevBlock block)")
  case None
  let ?b0 = "(CBlockIndex_of_header block)\<lparr>nSequenceId := 0\<rparr>"
  have "wf_index (H(p \<mapsto> b))"
    if "pprev b = None" "pskip b = None" "nHeight b = 0" "length (nChainWork b) = WIDTH" for b
    using wf fresh that by (intro wf_index_insert) (simp_all add: wf_entry_def)
  with None ns that [of ?b0] show ?thesis by (simp add: link_entry_def CBlockIndex_of_header_def)
next
  case (Some c)
  let ?q = "hashPrevBlock block"
  let ?b = "(CBlockIndex_of_header block)\<lparr>nSequenceId := 0, pprev := Some ?q, nHeight := nHeight c + 1\<rparr>"
  have c0: "0 \<le> nHeight c" using wf_height_nonneg [OF wf Some] .
  obtain s where s: "BuildSkip (H(p \<mapsto> ?b)) ?b = Some (?b\<lparr>pskip := Some s\<rparr>)"
    "prev_n (H(p \<mapsto> ?b)) (nat (nHeight ?b - GetSkipHeight (nHeight ?b))) p = Some s"
    using BuildSkip_new [OF wf fresh Some, of ?b] by (auto simp: CBlockIndex_of_header_def)
  have "wf_index (H(p \<mapsto> b))"
    if b: "pprev b = Some ?q" "pskip b = Some s" "nHeight b = nHeight c + 1" "length (nChainWork b) = WIDTH" for b
  proof (rule wf_index_insert [OF wf fresh])
    have "prev_n (H(p \<mapsto> b)) n p = prev_n (H(p \<mapsto> ?b)) n p" for n
      by (rule prev_n_pprev_cong) (simp add: b)
    with b s(2) Some ns c0 show "wf_entry (H(p \<mapsto> b)) p b" by (simp add: wf_entry_def)
  qed
  with Some ns s(1) that [of "?b\<lparr>pskip := Some s\<rparr>"] show ?thesis
    by (simp add: link_entry_def CBlockIndex_of_header_def)
qed

theorem AddToBlockIndex_new:
  assumes wf: "wf_index (m_block_index bm)" and fresh: "m_block_index bm (GetHash block) = None"
    and ns: "hashPrevBlock block \<noteq> GetHash block" and best: "best_present (m_block_index bm) best"
  obtains b best' where
    "AddToBlockIndex GetHash bm best block =
       Some (GetHash block,
             bm\<lparr>m_block_index := (m_block_index bm)(GetHash block \<mapsto> b),
                m_dirty_blockindex := insert (GetHash block) (m_dirty_blockindex bm)\<rparr>, best')"
    "wf_index ((m_block_index bm)(GetHash block \<mapsto> b))"
    "best_present ((m_block_index bm)(GetHash block \<mapsto> b)) best'"
    "best_ok (m_block_index bm) best \<Longrightarrow> best_ok ((m_block_index bm)(GetHash block \<mapsto> b)) best'"
    "val (nChainWork b) =
       (prev_work (m_block_index bm) (hashPrevBlock block) + proof_value (hdrBits block)) mod 2 ^ 256"
    "nHeight b = (case m_block_index bm (hashPrevBlock block) of None \<Rightarrow> 0 | Some c \<Rightarrow> nHeight c + 1)"
    "nStatus b = BLOCK_VALID_TREE" "nBits b = hdrBits block" "nTime b = hdrTime block"
    "nVersion b = hdrVersion block \<and> hashMerkleRoot b = hdrMerkleRoot block \<and> nNonce b = hdrNonce block"
    "pprev b = (case m_block_index bm (hashPrevBlock block) of None \<Rightarrow> None | Some c \<Rightarrow> Some (hashPrevBlock block))"
proof -
  let ?H = "m_block_index bm" and ?p = "GetHash block" and ?q = "hashPrevBlock block"
  obtain b1 where b1: "link_entry ?H ?p block = Some b1"
    "nBits b1 = hdrBits block" "nTime b1 = hdrTime block" "nStatus b1 = 0"
    "nVersion b1 = hdrVersion block \<and> hashMerkleRoot b1 = hdrMerkleRoot block \<and> nNonce b1 = hdrNonce block"
    "nHeight b1 = (case ?H ?q of None \<Rightarrow> 0 | Some c \<Rightarrow> nHeight c + 1)"
    "pprev b1 = (case ?H ?q of None \<Rightarrow> None | Some c \<Rightarrow> Some ?q)"
    "\<forall>b. pprev b = pprev b1 \<and> pskip b = pskip b1 \<and> nHeight b = nHeight b1 \<and>
       length (nChainWork b) = WIDTH \<longrightarrow> wf_index (?H(?p \<mapsto> b))"
    by (rule link_entry_ok [OF wf fresh ns])
  have prev: "Option.bind (pprev b1) (?H(?p \<mapsto> b1)) = ?H ?q" using b1(7) ns by (cases "?H ?q") simp_all
  obtain w where w: "GetBlockProof (hdrBits block) = Some w" "length w = WIDTH"
    "val w = proof_value (hdrBits block)" by (rule GetBlockProof_proof_value)
  define pw where "pw = (case ?H ?q of None \<Rightarrow> base_uint_of_u64 0 | Some pb \<Rightarrow> nChainWork pb)"
  have pw: "length pw = WIDTH" "val pw = prev_work ?H ?q"
    using wf_indexD [OF wf, of ?q]
    by (auto simp: pw_def prev_work_def wf_entry_def val_base_uint_of_u64 split: option.split)
  define tm where "tm = (case ?H ?q of None \<Rightarrow> nTime b1 | Some pb \<Rightarrow> max (nTimeMax pb) (nTime b1))"
  define b4 where "b4 = b1\<lparr>nTimeMax := tm, nChainWork := uint_add pw w, nStatus := BLOCK_VALID_TREE\<rparr>"
  have rv: "RaiseValidity (b1\<lparr>nTimeMax := tm, nChainWork := uint_add pw w\<rparr>) BLOCK_VALID_TREE = Some (True, b4)"
    by (simp add: RaiseValidity_fresh b1(4) b4_def)
  have len: "length (nChainWork b4) = WIDTH" using pw w by (simp add: b4_def)
  have wf': "wf_index (?H(?p \<mapsto> b4))" using len b1(8) by (simp add: b4_def)
  from best_insert [OF wf best len fresh] obtain best' where best':
    "(case best of
        None \<Rightarrow> Some (Some ?p)
      | Some bh \<Rightarrow> map_option
          (\<lambda>x. if uint_lt (nChainWork x) (nChainWork b4) then Some ?p else best)
          ((?H(?p \<mapsto> b4)) bh)) = Some best'" "best_present (?H(?p \<mapsto> b4)) best'"
    "best_ok ?H best \<Longrightarrow> best_ok (?H(?p \<mapsto> b4)) best'" by blast
  have "AddToBlockIndex GetHash bm best block =
       Some (?p, bm\<lparr>m_block_index := ?H(?p \<mapsto> b4),
                m_dirty_blockindex := insert ?p (m_dirty_blockindex bm)\<rparr>, best')"
    using best'(1) rv w(1) b1(1,2) prev fresh
    by (simp add: AddToBlockIndex_def Let_def pw_def [symmetric] tm_def [symmetric])
  moreover have "val (nChainWork b4) = (prev_work ?H ?q + proof_value (hdrBits block)) mod 2 ^ 256"
    using pw w by (simp add: b4_def val_uint_add WIDTH_def)
  ultimately show ?thesis
    using that wf' best'(2,3) b1 by (simp add: b4_def)
qed

text \<open>The links of the new entry: those of \<open>link_entry\<close>, with a skip pointer whenever there is a parent.\<close>

lemma link_entry_skip:
  assumes "wf_index H" "H p = None" "hashPrevBlock block \<noteq> p" "link_entry H p block = Some b1"
  shows "pskip b1 = None \<longleftrightarrow> H (hashPrevBlock block) = None"
proof (cases "H (hashPrevBlock block)")
  case None
  with assms(3,4) show ?thesis by (auto simp: link_entry_def CBlockIndex_of_header_def)
next
  case (Some c)
  let ?b = "(CBlockIndex_of_header block)\<lparr>nSequenceId := 0, pprev := Some (hashPrevBlock block), nHeight := nHeight c + 1\<rparr>"
  obtain s where "BuildSkip (H(p \<mapsto> ?b)) ?b = Some (?b\<lparr>pskip := Some s\<rparr>)"
    using BuildSkip_new [OF assms(1,2) Some, of ?b] by (auto simp: CBlockIndex_of_header_def)
  with Some assms(3,4) show ?thesis by (auto simp: link_entry_def)
qed

lemma AddToBlockIndex_links:
  assumes add: "AddToBlockIndex GetHash bm best block = Some (p, bm', best')"
    and new: "m_block_index bm' = (m_block_index bm)(GetHash block \<mapsto> b)"
    and wf: "wf_index (m_block_index bm)" "m_block_index bm (GetHash block) = None" "hashPrevBlock block \<noteq> GetHash block"
  shows "(pskip b = None \<longleftrightarrow> m_block_index bm (hashPrevBlock block) = None) \<and>
    nTimeMax b = (case m_block_index bm (hashPrevBlock block) of
        None \<Rightarrow> hdrTime block | Some c \<Rightarrow> max (nTimeMax c) (hdrTime block))"
proof -
  let ?H = "m_block_index bm" and ?q = "hashPrevBlock block"
  obtain b1 where b1: "link_entry ?H (GetHash block) block = Some b1" "nTime b1 = hdrTime block" "nStatus b1 = 0"
    "pprev b1 = (case ?H ?q of None \<Rightarrow> None | Some c \<Rightarrow> Some ?q)"
    by (rule link_entry_ok [OF wf])
  have prev: "Option.bind (pprev b1) (?H(GetHash block \<mapsto> b1)) = ?H ?q" using b1(4) wf(3) by (cases "?H ?q") simp_all
  have "b = the (m_block_index bm' (GetHash block))" by (simp add: new)
  with add b1(1-3) prev wf(2) link_entry_skip [OF wf b1(1)] show ?thesis
    by (auto simp: AddToBlockIndex_def Let_def RaiseValidity_fresh split: bind_splits)
qed

section \<open>A two-block index\<close>

text \<open>A genesis entry and one child, used to instantiate the properties of the index.\<close>

definition example_header :: "uint256 \<Rightarrow> uint32 \<Rightarrow> CBlockHeader" where
  "example_header prev time =
     \<lparr>hdrVersion = 1, hashPrevBlock = prev, hdrMerkleRoot = uint256_zero, hdrTime = time,
      hdrBits = 0x1d00ffff, hdrNonce = 0\<rparr>"

definition example_hash :: "uint8 \<Rightarrow> uint256" where
  "example_hash n = n # replicate 31 0"

definition example_index :: block_map where
  "example_index =
     [example_hash 1 \<mapsto> CBlockIndex_of_header (example_header uint256_zero 1000),
      example_hash 2 \<mapsto> (CBlockIndex_of_header (example_header (example_hash 1) 1600))
        \<lparr>pprev := Some (example_hash 1), pskip := Some (example_hash 1), nHeight := 1\<rparr>]"

lemma example_hash_simps [simp]: "example_hash 1 \<noteq> example_hash 2" "example_hash 2 \<noteq> example_hash 1"
  by (simp_all add: example_hash_def)

lemma example_hash_nonzero: "uint256_zero \<noteq> example_hash 1"
  by (simp add: uint256_zero_def example_hash_def list_eq_iff_nth_eq exI [where x = 0])

lemma wf_index_empty [simp]: "wf_index Map.empty"
  by (simp add: wf_index_def)

lemma wf_index_example: "wf_index example_index"
proof -
  let ?b1 = "CBlockIndex_of_header (example_header uint256_zero 1000)"
  have "wf_index (Map.empty(example_hash 1 \<mapsto> ?b1))"
    by (rule wf_index_insert) (simp_all add: wf_entry_def CBlockIndex_of_header_def)
  then show ?thesis
    unfolding example_index_def
    by (rule wf_index_insert) (simp_all add: wf_entry_def CBlockIndex_of_header_def GetSkipHeight_def)
qed

lemma example_index_entries:
  "example_index (example_hash 1) = Some (CBlockIndex_of_header (example_header uint256_zero 1000))"
  "example_index (example_hash 2) = Some ((CBlockIndex_of_header (example_header (example_hash 1) 1600))
     \<lparr>pprev := Some (example_hash 1), pskip := Some (example_hash 1), nHeight := 1\<rparr>)"
  by (simp_all add: example_index_def)

section \<open>Properties\<close>

text \<open>
  Work of a block. \<open>GetBlockProof\<close>, which computes \<open>~t / (t + 1) + 1\<close> in 256 bits, never
  divides by zero and returns exactly \<open>2 ^ 256 div (t + 1)\<close> for the target \<open>t\<close> of a valid
  compact value, and 0 for a negative, overflowing or zero one.
\<close>

theorem GetBlockProof_correct:
  "\<exists>w. GetBlockProof c = Some w \<and>
     val w = (if compact_neg c \<and> compact_value c \<noteq> 0 \<or> 2 ^ 256 \<le> compact_value c \<or> compact_value c = 0 then 0
              else 2 ^ 256 div (compact_value c + 1))"
proof -
  have "fst (snd (SetCompact c)) \<or> snd (snd (SetCompact c)) \<or> compact_value c = 0 \<longleftrightarrow>
      compact_neg c \<and> compact_value c \<noteq> 0 \<or> 2 ^ 256 \<le> compact_value c \<or> compact_value c = 0"
    using SetCompact_negative [of c] SetCompact_overflow [of c] by (auto simp: compact_value_def)
  then show ?thesis using GetBlockProof_value [of c] by metis
qed

text \<open>
  C25: Ancestor search. On a well-formed index \<open>GetAncestor\<close>, which jumps along skip pointers,
  returns exactly the block reached by following parent links down to the height; it never
  runs into a null pointer, and outside the heights of the chain it returns null.
\<close>

theorem GetAncestor_correct:
  assumes "wf_index H" "H p = Some b"
  shows "if 0 \<le> h \<and> h \<le> nHeight b
         then \<exists>q c. GetAncestor H p h = Some (Some q) \<and> prev_n H (nat (nHeight b - h)) p = Some q \<and>
                H q = Some c \<and> nHeight c = h
         else GetAncestor H p h = Some None"
proof (cases "0 \<le> h \<and> h \<le> nHeight b")
  case True
  with GetAncestor_prev_n [OF assms, of h] show ?thesis by metis
next
  case False
  then show ?thesis using GetAncestor_null [of H p b h, OF assms(2)] by auto
qed

theorem GetAncestor_correct_witness:
  "GetAncestor example_index (example_hash 2) 0 = Some (Some (example_hash 1)) \<and>
   GetAncestor example_index (example_hash 2) 5 = Some None"
  using GetAncestor_correct [OF wf_index_example example_index_entries(2), of 0]
    GetAncestor_correct [OF wf_index_example example_index_entries(2), of 5]
  by (auto simp: example_index_entries)

text \<open>
  C9: Adding a header. For a header that is not in the index and does not name itself as its
  parent, \<open>AddToBlockIndex\<close> completes and the index with the new entry is well-formed again. The
  entry points to its parent, if that is known, and its skip pointer is then set, to the ancestor
  at \<open>GetSkipHeight\<close>; without a parent both are null. Its height is one more than its parent's, its
  work is its parent's plus its own proof modulo \<open>2 ^ 256\<close>, its maximal time covers its ancestors,
  its status is \<open>BLOCK_VALID_TREE\<close>; and the best header is again an entry of greatest work.
\<close>

theorem AddToBlockIndex_correct:
  assumes "wf_index (m_block_index bm)" "best_ok (m_block_index bm) best"
    "m_block_index bm (GetHash block) = None" "hashPrevBlock block \<noteq> GetHash block"
  shows "\<exists>b best' bm'. AddToBlockIndex GetHash bm best block = Some (GetHash block, bm', best') \<and>
    m_block_index bm' = (m_block_index bm)(GetHash block \<mapsto> b) \<and> wf_index (m_block_index bm') \<and>
    best_ok (m_block_index bm') best' \<and> GetHash block \<in> m_dirty_blockindex bm' \<and>
    nHeight b = (case m_block_index bm (hashPrevBlock block) of None \<Rightarrow> 0 | Some c \<Rightarrow> nHeight c + 1) \<and>
    val (nChainWork b) =
      (prev_work (m_block_index bm) (hashPrevBlock block) + proof_value (hdrBits block)) mod 2 ^ 256 \<and>
    nStatus b = BLOCK_VALID_TREE \<and>
    (case m_block_index bm (hashPrevBlock block) of
       None \<Rightarrow> pprev b = None \<and> pskip b = None \<and> nTimeMax b = hdrTime block
     | Some c \<Rightarrow> pprev b = Some (hashPrevBlock block) \<and> nTimeMax b = max (nTimeMax c) (hdrTime block) \<and>
         pskip b \<noteq> None \<and>
         pskip b = prev_n (m_block_index bm') (nat (nHeight b - GetSkipHeight (nHeight b))) (GetHash block))"
proof (rule AddToBlockIndex_new [where GetHash = GetHash, OF assms(1,3,4) best_ok_present [OF assms(2)]])
  let ?H = "m_block_index bm" and ?p = "GetHash block" and ?q = "hashPrevBlock block"
  fix b best'
  assume b: "AddToBlockIndex GetHash bm best block =
       Some (?p, bm\<lparr>m_block_index := ?H(?p \<mapsto> b), m_dirty_blockindex := insert ?p (m_dirty_blockindex bm)\<rparr>, best')"
      (is "_ = Some (_, ?bm, _)")
    "wf_index (?H(?p \<mapsto> b))" "best_present (?H(?p \<mapsto> b)) best'" "best_ok ?H best \<Longrightarrow> best_ok (?H(?p \<mapsto> b)) best'"
    "val (nChainWork b) = (prev_work ?H ?q + proof_value (hdrBits block)) mod 2 ^ 256"
    "nHeight b = (case ?H ?q of None \<Rightarrow> 0 | Some c \<Rightarrow> nHeight c + 1)"
    "nStatus b = BLOCK_VALID_TREE" "nBits b = hdrBits block" "nTime b = hdrTime block"
    "nVersion b = hdrVersion block \<and> hashMerkleRoot b = hdrMerkleRoot block \<and> nNonce b = hdrNonce block"
    "pprev b = (case ?H ?q of None \<Rightarrow> None | Some c \<Rightarrow> Some ?q)"
  have links: "(pskip b = None \<longleftrightarrow> ?H ?q = None) \<and>
      nTimeMax b = (case ?H ?q of None \<Rightarrow> hdrTime block | Some c \<Rightarrow> max (nTimeMax c) (hdrTime block))"
    by (rule AddToBlockIndex_links [OF b(1) _ assms(1,3,4)]) simp
  have "wf_entry (?H(?p \<mapsto> b)) ?p b" by (rule wf_indexD [OF b(2)]) simp
  then have "case ?H ?q of None \<Rightarrow> pprev b = None \<and> pskip b = None \<and> nTimeMax b = hdrTime block
      | Some c \<Rightarrow> pprev b = Some ?q \<and> nTimeMax b = max (nTimeMax c) (hdrTime block) \<and> pskip b \<noteq> None \<and>
          pskip b = prev_n (m_block_index ?bm) (nat (nHeight b - GetSkipHeight (nHeight b))) ?p"
    using links b(11) by (cases "?H ?q") (auto simp: wf_entry_def)
  with b(1,2,5-7) b(4) [OF assms(2)] show ?thesis
    by (intro exI [of _ b] exI [of _ best'] exI [of _ ?bm]) simp
qed

theorem AddToBlockIndex_correct_witness:
  "\<exists>b best' bm'. AddToBlockIndex (\<lambda>_. example_hash 3) \<lparr>m_block_index = example_index, m_dirty_blockindex = {}\<rparr>
     (Some (example_hash 2)) (example_header (example_hash 2) 2200) = Some (example_hash 3, bm', best') \<and>
     m_block_index bm' = example_index(example_hash 3 \<mapsto> b) \<and> wf_index (m_block_index bm') \<and>
     nHeight b = 2 \<and> pprev b = Some (example_hash 2) \<and> pskip b = Some (example_hash 1)"
proof -
  let ?bm = "\<lparr>m_block_index = example_index, m_dirty_blockindex = {}\<rparr>" and ?h = "example_header (example_hash 2) 2200"
  have ne: "example_hash 3 \<noteq> example_hash 1" "example_hash 3 \<noteq> example_hash 2" by (simp_all add: example_hash_def)
  have 1: "wf_index (m_block_index ?bm)" using wf_index_example by simp
  have 2: "best_ok (m_block_index ?bm) (Some (example_hash 2))"
    by (auto simp: best_ok_def example_index_def CBlockIndex_of_header_def split: if_splits)
  have 3: "m_block_index ?bm ((\<lambda>_. example_hash 3) ?h) = None" using ne by (simp add: example_index_def)
  have 4: "hashPrevBlock ?h \<noteq> (\<lambda>_. example_hash 3) ?h" using ne by (simp add: example_header_def)
  have "GetSkipHeight 2 = 0" by code_simp
  with AddToBlockIndex_correct [OF 1 2 3 4] show ?thesis
    by (elim exE conjE, intro exI conjI)
      (assumption | simp add: example_header_def example_index_entries ne ne [symmetric] numeral_2_eq_2)+
qed

end
