(* ===== verification/Active_Chain.thy ===== *)
theory Active_Chain
  imports Chain
begin

text \<open>
  Walks over the block index: the active chain \<open>CChain\<close> (\<open>SetTip\<close>, \<open>FindFork\<close>, \<open>Next\<close>),
  \<open>LastCommonAncestor\<close>, \<open>LocatorEntries\<close> and \<open>GetMedianTimePast\<close> of \<open>src/chain.h\<close> and
  \<open>src/chain.cpp\<close>. The loops that follow \<open>pprev\<close> end only on an index without cycles; they
  are partial functions whose \<open>None\<close> is an abort or a loop that never ends, and the theorems
  show that on a well-formed index they return.
\<close>

section \<open>Ancestors\<close>

lemma prev_n_bound:
  "wf_index H \<Longrightarrow> H p = Some b \<Longrightarrow> prev_n H n p = Some q \<Longrightarrow> int n \<le> nHeight b"
proof (induction n arbitrary: p b)
  case 0
  then show ?case using wf_height_nonneg by auto
next
  case (Suc n)
  then obtain r where r: "pprev b = Some r" "prev_n H n r = Some q" by (auto split: bind_splits)
  moreover from wf_indexD [OF Suc.prems(1,2)] r(1) obtain c
    where "H r = Some c" "nHeight b = nHeight c + 1" by (auto simp: wf_entry_def)
  ultimately show ?case using Suc.IH [OF Suc.prems(1)] by fastforce
qed

lemma prev_n_entry:
  assumes "wf_index H" "H p = Some b" "prev_n H n p = Some q"
  obtains c where "H q = Some c" "nHeight c = nHeight b - int n"
  using prev_n_height [OF assms(1,2) prev_n_bound [OF assms]] assms(3) by auto

lemma wf_pprev_None: "wf_index H \<Longrightarrow> H p = Some b \<Longrightarrow> pprev b = None \<longleftrightarrow> nHeight b = 0"
  by (drule (1) wf_indexD) (auto simp: wf_entry_def split: option.splits)

lemma wf_pprev_Some:
  assumes "wf_index H" "H p = Some b" "pprev b = Some q"
  obtains c where "H q = Some c" "nHeight b = nHeight c + 1" "0 \<le> nHeight c"
  using wf_indexD [OF assms(1,2)] assms(3) by (auto simp: wf_entry_def)

section \<open>The active chain\<close>

type_synonym CChain = "block_ptr option list"

definition Genesis :: "CChain \<Rightarrow> block_ptr option" where
  "Genesis vChain = (if length vChain > 0 then vChain ! 0 else None)"

definition Tip :: "CChain \<Rightarrow> block_ptr option" where
  "Tip vChain = (if length vChain > 0 then vChain ! (length vChain - 1) else None)"

definition chain_at :: "CChain \<Rightarrow> int \<Rightarrow> block_ptr option" where
  "chain_at vChain h = (if h < 0 \<or> h \<ge> int (length vChain) then None else vChain ! nat h)"

definition Contains :: "block_map \<Rightarrow> CChain \<Rightarrow> block_ptr \<Rightarrow> bool option" where
  "Contains H vChain p = map_option (\<lambda>b. chain_at vChain (nHeight b) = Some p) (H p)"

definition Next :: "block_map \<Rightarrow> CChain \<Rightarrow> block_ptr \<Rightarrow> block_ptr option option" where
  "Next H vChain p =
     do { c \<leftarrow> Contains H vChain p; b \<leftarrow> H p;
          Some (if c then chain_at vChain (nHeight b + 1) else None) }"

definition Height :: "CChain \<Rightarrow> int" where
  "Height vChain = int (length vChain) - 1"

definition resize :: "nat \<Rightarrow> CChain \<Rightarrow> CChain" where
  "resize n v = take n v @ replicate (n - length v) None"

partial_function (option) set_tip_loop :: "block_map \<Rightarrow> CChain \<Rightarrow> block_ptr option \<Rightarrow> CChain option" where
  "set_tip_loop H vChain pindex =
     (case pindex of
        None \<Rightarrow> Some vChain
      | Some p \<Rightarrow>
          (case H p of
             None \<Rightarrow> None
           | Some b \<Rightarrow>
               if nHeight b < 0 \<or> int (length vChain) \<le> nHeight b then None
               else if vChain ! nat (nHeight b) = Some p then Some vChain
               else set_tip_loop H (vChain[nat (nHeight b) := Some p]) (pprev b)))"

definition SetTip :: "block_map \<Rightarrow> CChain \<Rightarrow> block_ptr \<Rightarrow> CChain option" where
  "SetTip H vChain p =
     do { b \<leftarrow> H p; set_tip_loop H (resize (nat (nHeight b + 1)) vChain) (Some p) }"

partial_function (option) find_fork_loop ::
  "block_map \<Rightarrow> CChain \<Rightarrow> block_ptr option \<Rightarrow> block_ptr option option" where
  "find_fork_loop H vChain pindex =
     (case pindex of
        None \<Rightarrow> Some None
      | Some p \<Rightarrow>
          (case Contains H vChain p of
             None \<Rightarrow> None
           | Some c \<Rightarrow>
               if c then Some (Some p)
               else (case H p of None \<Rightarrow> None | Some b \<Rightarrow> find_fork_loop H vChain (pprev b))))"

definition FindFork :: "block_map \<Rightarrow> CChain \<Rightarrow> block_ptr option \<Rightarrow> block_ptr option option" where
  "FindFork H vChain pindex =
     (case pindex of
        None \<Rightarrow> Some None
      | Some p \<Rightarrow> do {
          b \<leftarrow> H p;
          q \<leftarrow> (if nHeight b > Height vChain then GetAncestor H p (Height vChain) else Some (Some p));
          find_fork_loop H vChain q
        })"

text \<open>
  The invariant of \<open>vChain\<close>: position \<open>i\<close> holds a block of height \<open>i\<close> whose parent is at
  position \<open>i - 1\<close>.
\<close>

definition linked_at :: "block_map \<Rightarrow> CChain \<Rightarrow> nat \<Rightarrow> bool" where
  "linked_at H v i \<longleftrightarrow>
     (\<exists>p b. v ! i = Some p \<and> H p = Some b \<and> nHeight b = int i \<and>
            pprev b = (case i of 0 \<Rightarrow> None | Suc j \<Rightarrow> v ! j))"

definition is_chain :: "block_map \<Rightarrow> CChain \<Rightarrow> bool" where
  "is_chain H v \<longleftrightarrow> (\<forall>i < length v. linked_at H v i)"

lemma is_chain_prev_n:
  assumes "is_chain H v" "i < length v" "v ! i = Some p" "j \<le> i"
  shows "prev_n H (i - j) p = v ! j"
  using assms(2-4)
proof (induction "i - j" arbitrary: i p)
  case 0
  then show ?case by simp
next
  case (Suc k)
  then obtain i' where i': "i = Suc i'" by (cases i) auto
  with Suc assms(1) obtain b where b: "H p = Some b" "pprev b = v ! i'"
    by (auto simp: is_chain_def linked_at_def)
  obtain q where q: "v ! i' = Some q"
    using Suc.prems(1) assms(1) i' by (meson Suc_lessD is_chain_def linked_at_def)
  then have "prev_n H (i' - j) q = v ! j" using Suc.hyps i' Suc.prems by (intro Suc.hyps(1)) simp_all
  moreover have "i - j = Suc (i' - j)" using Suc.hyps(2) i' by simp
  ultimately show ?case using b q by simp
qed

lemma linked_at_prev:
  assumes "wf_index H" "linked_at H v (Suc k)"
  shows "v ! k \<noteq> None"
proof -
  from assms(2) obtain p b where "H p = Some b" "nHeight b = 1 + int k" "pprev b = v ! k"
    by (auto simp: linked_at_def)
  with wf_pprev_None [OF assms(1), of p b] show ?thesis by auto
qed

lemma linked_at_downwards:
  assumes wf: "wf_index H" and "\<forall>i \<le> k. v ! i = None \<or> linked_at H v i" "v ! k \<noteq> None" "i \<le> k"
  shows "linked_at H v i"
proof -
  have "linked_at H v (k - n)" if "n \<le> k" for n
    using that
  proof (induction n)
    case 0
    from assms(2) have "v ! k = None \<or> linked_at H v k" by blast
    then show ?case using assms(3) by simp
  next
    case (Suc n)
    then have "linked_at H v (Suc (k - Suc n))" by (simp add: Suc_diff_Suc)
    then have "v ! (k - Suc n) \<noteq> None" by (rule linked_at_prev [OF wf])
    moreover have "v ! (k - Suc n) = None \<or> linked_at H v (k - Suc n)" using assms(2) by simp
    ultimately show ?case by metis
  qed
  from this [of "k - i"] assms(4) show ?thesis by simp
qed

lemma linked_at_upd: "k < i \<Longrightarrow> i \<noteq> Suc k \<Longrightarrow> linked_at H (v[k := x]) i = linked_at H v i"
  "i < k \<Longrightarrow> linked_at H (v[k := x]) i = linked_at H v i"
  by (auto simp: linked_at_def split: nat.splits)

lemma set_tip_loop_ok:
  assumes wf: "wf_index H"
  shows "H q = Some c \<Longrightarrow> nHeight c = int k \<Longrightarrow> k < length u \<Longrightarrow>
    \<forall>i \<le> k. u ! i = None \<or> linked_at H u i \<Longrightarrow>
    \<forall>i < length u. k < i \<longrightarrow> linked_at H (u[k := Some q]) i \<Longrightarrow>
    \<exists>u'. set_tip_loop H u (Some q) = Some u' \<and> is_chain H u' \<and> length u' = length u \<and>
         (\<forall>i \<ge> k. u' ! i = (u[k := Some q]) ! i)"
proof (induction k arbitrary: q c u)
  case 0
  then have "pprev c = None" using wf_pprev_None [OF wf] by simp
  then have "linked_at H (u[0 := Some q]) 0" using 0 by (simp add: linked_at_def)
  with 0 have ch: "is_chain H (u[0 := Some q])" unfolding is_chain_def by (metis gr0I length_list_update)
  have "u ! 0 = Some q \<Longrightarrow> u[0 := Some q] = u" by (metis list_update_id)
  then have "set_tip_loop H u (Some q) = Some (u[0 := Some q])"
    using 0 \<open>pprev c = None\<close>
    by (subst set_tip_loop.simps) (auto simp: set_tip_loop.simps [of H _ None])
  with ch show ?case by simp
next
  case (Suc k)
  have nk: "nat (nHeight c) = Suc k" "\<not> nHeight c < 0" "\<not> int (length u) \<le> nHeight c"
    using Suc.prems by simp_all
  show ?case
  proof (cases "u ! Suc k = Some q")
    case True
    then have same: "u[Suc k := Some q] = u" by (metis list_update_id)
    have "linked_at H u i" if "i \<le> Suc k" for i
      using linked_at_downwards [OF wf Suc.prems(4)] True that by simp
    then have "is_chain H u" using Suc.prems(5) same by (auto simp: is_chain_def not_less_eq_eq)
    moreover have "set_tip_loop H u (Some q) = Some u"
      using Suc.prems(1) True by (subst set_tip_loop.simps) (simp add: nk)
    ultimately show ?thesis using same by simp
  next
    case False
    let ?u = "u[Suc k := Some q]"
    have "0 < nHeight c" using Suc.prems(2) by simp
    from wf_prev [OF wf Suc.prems(1) this]
    obtain r d where r: "pprev c = Some r" "H r = Some d" "nHeight c = nHeight d + 1" .
    have A: "\<forall>i \<le> k. ?u ! i = None \<or> linked_at H ?u i"
      using Suc.prems(4) by (auto simp: linked_at_upd le_SucI)
    have B: "\<forall>i < length ?u. k < i \<longrightarrow> linked_at H (?u[k := Some r]) i"
    proof (intro allI impI)
      fix i assume i: "i < length ?u" "k < i"
      show "linked_at H (?u[k := Some r]) i"
      proof (cases "i = Suc k")
        case True
        with i r(1) Suc.prems(1,2,3) show ?thesis by (simp add: linked_at_def)
      next
        case False
        with i have "linked_at H ?u i" using Suc.prems(5) by simp
        with False i show ?thesis by (simp add: linked_at_upd)
      qed
    qed
    obtain u' where u': "set_tip_loop H ?u (Some r) = Some u'" "is_chain H u'" "length u' = length ?u"
      "\<forall>i \<ge> k. u' ! i = (?u[k := Some r]) ! i"
      using Suc.IH [OF r(2) _ _ A B] r(3) Suc.prems by auto
    moreover have "set_tip_loop H u (Some q) = Some u'"
      using Suc.prems(1) False u'(1) r(1) by (subst set_tip_loop.simps) (simp add: nk)
    ultimately show ?thesis using Suc.prems(3) by (auto intro!: exI [of _ u'])
  qed
qed

lemma SetTip_ok:
  assumes wf: "wf_index H" and v: "is_chain H v" and p: "H p = Some b"
  obtains v' where "SetTip H v p = Some v'" "is_chain H v'" "Tip v' = Some p" "Height v' = nHeight b"
proof -
  obtain k where k: "nHeight b = int k" using wf_height_nonneg [OF wf p] nonneg_int_cases by blast
  let ?u = "resize (Suc k) v"
  have len: "length ?u = Suc k" by (simp add: resize_def)
  have "?u ! i = None \<or> linked_at H ?u i" if "i \<le> k" for i
  proof (cases "i < length v")
    case True
    then have "linked_at H v i" using v by (simp add: is_chain_def)
    moreover have "?u ! j = v ! j" if "j \<le> i" for j
      using True \<open>i \<le> k\<close> that by (simp add: resize_def nth_append)
    ultimately show ?thesis by (auto simp: linked_at_def split: nat.splits)
  next
    case False
    then show ?thesis using that by (simp add: resize_def nth_append)
  qed
  then obtain u' where u': "set_tip_loop H ?u (Some p) = Some u'" "is_chain H u'" "length u' = Suc k"
    "u' ! k = Some p"
    using set_tip_loop_ok [OF wf p k, of ?u] len by auto
  have "nat (nHeight b + 1) = Suc k" using k by simp
  then have "SetTip H v p = Some u'" using p u'(1) by (simp add: SetTip_def)
  moreover have "u' \<noteq> []" using u'(3) by auto
  ultimately show ?thesis using u' k that by (simp add: Tip_def Height_def)
qed

lemma is_chain_Contains:
  assumes "is_chain H v" "H p = Some b"
  shows "Contains H v p = Some (Some p \<in> set v)"
proof -
  have "chain_at v (nHeight b) = Some p \<longleftrightarrow> Some p \<in> set v"
  proof
    show "Some p \<in> set v" if "chain_at v (nHeight b) = Some p"
      using that by (auto simp: chain_at_def in_set_conv_nth split: if_splits intro!: exI [of _ "nat (nHeight b)"])
    assume "Some p \<in> set v"
    then obtain i where i: "i < length v" "v ! i = Some p" by (auto simp: in_set_conv_nth)
    with assms have "nHeight b = int i" by (auto simp: is_chain_def linked_at_def)
    with i show "chain_at v (nHeight b) = Some p" by (simp add: chain_at_def)
  qed
  then show ?thesis using assms(2) by (simp add: Contains_def)
qed

lemma is_chain_height: "is_chain H v \<Longrightarrow> H p = Some b \<Longrightarrow> Some p \<in> set v \<Longrightarrow> nHeight b \<le> Height v"
  by (fastforce simp: in_set_conv_nth is_chain_def linked_at_def Height_def)

text \<open>The fork point: the first ancestor, counted from the block, that is on the chain.\<close>

definition first_on_chain :: "block_map \<Rightarrow> CChain \<Rightarrow> block_ptr \<Rightarrow> block_ptr option \<Rightarrow> bool" where
  "first_on_chain H v p r \<longleftrightarrow>
     (case r of
        None \<Rightarrow> \<forall>n q. prev_n H n p = Some q \<longrightarrow> Some q \<notin> set v
      | Some f \<Rightarrow> Some f \<in> set v \<and>
          (\<exists>n. prev_n H n p = Some f \<and> (\<forall>m < n. \<forall>q. prev_n H m p = Some q \<longrightarrow> Some q \<notin> set v)))"

lemma first_on_chain_step:
  assumes "H p = Some b" "Some p \<notin> set v"
    "case pprev b of None \<Rightarrow> r = None | Some q \<Rightarrow> first_on_chain H v q r"
  shows "first_on_chain H v p r"
proof (cases "pprev b")
  case None
  have "prev_n H n p = Some q \<Longrightarrow> q = p" for n q using None assms(1) by (cases n) auto
  with None assms show ?thesis by (auto simp: first_on_chain_def)
next
  case (Some q)
  have step: "prev_n H (Suc n) p = prev_n H n q" for n using Some assms(1) by simp
  have notin: "Some x \<notin> set v" if "\<forall>m < n. \<forall>x. prev_n H m q = Some x \<longrightarrow> Some x \<notin> set v"
    "m < Suc n" "prev_n H m p = Some x" for n m x
    using that step assms(2) by (cases m) auto
  show ?thesis
  proof (cases r)
    case None
    with Some assms have "Some x \<notin> set v" if "prev_n H n p = Some x" for n x
      using that notin [of "Suc n" n x] by (auto simp: first_on_chain_def)
    with None show ?thesis by (simp add: first_on_chain_def)
  next
    case r: (Some f)
    with Some assms obtain n where "Some f \<in> set v" "prev_n H n q = Some f"
      "\<forall>m < n. \<forall>x. prev_n H m q = Some x \<longrightarrow> Some x \<notin> set v" by (auto simp: first_on_chain_def)
    with r notin step [of n] show ?thesis
      unfolding first_on_chain_def by (auto intro!: exI [of _ "Suc n"])
  qed
qed

lemma find_fork_loop_ok:
  assumes wf: "wf_index H" and v: "is_chain H v"
  shows "H p = Some b \<Longrightarrow> \<exists>r. find_fork_loop H v (Some p) = Some r \<and> first_on_chain H v p r"
proof (induction "nat (nHeight b)" arbitrary: p b rule: less_induct)
  case less
  note C = is_chain_Contains [OF v less.prems]
  show ?case
  proof (cases "Some p \<in> set v")
    case True
    with C show ?thesis
      by (subst find_fork_loop.simps) (auto simp: first_on_chain_def intro!: exI [of _ "0 :: nat"])
  next
    case False
    have unfold: "find_fork_loop H v (Some p) = find_fork_loop H v (pprev b)"
      using False C less.prems by (subst find_fork_loop.simps) simp
    show ?thesis
    proof (cases "pprev b")
      case None
      then have "first_on_chain H v p None" using first_on_chain_step [of H p b v, OF less.prems False] by simp
      with None unfold show ?thesis by (simp add: find_fork_loop.simps [of H v None])
    next
      case (Some q)
      obtain c where c: "H q = Some c" "nHeight b = nHeight c + 1" "0 \<le> nHeight c"
        by (rule wf_pprev_Some [OF wf less.prems Some])
      then obtain r where "find_fork_loop H v (Some q) = Some r" "first_on_chain H v q r"
        using less.hyps [of c q] by auto
      with Some unfold first_on_chain_step [of H p b v, OF less.prems False] show ?thesis by auto
    qed
  qed
qed

lemma first_on_chain_jump:
  assumes "prev_n H k p = Some q" "\<forall>m < k. \<forall>x. prev_n H m p = Some x \<longrightarrow> Some x \<notin> set v"
    "first_on_chain H v q r"
  shows "first_on_chain H v p r"
proof -
  have shift: "prev_n H (k + n) p = prev_n H n q" for n using assms(1) by (simp add: prev_n_add)
  have notin: "Some x \<notin> set v" if "\<forall>m < n. \<forall>x. prev_n H m q = Some x \<longrightarrow> Some x \<notin> set v"
    "m < k + n" "prev_n H m p = Some x" for n m x
  proof (cases "m < k")
    case False
    then obtain d where "m = k + d" using nat_le_iff_add by (meson not_less)
    with that shift show ?thesis by simp
  qed (use that assms(2) in blast)
  show ?thesis
  proof (cases r)
    case None
    with assms(3) have "Some x \<notin> set v" if "prev_n H n p = Some x" for n x
      using that notin [of "Suc n" n x] by (auto simp: first_on_chain_def)
    with None show ?thesis by (simp add: first_on_chain_def)
  next
    case (Some f)
    with assms(3) obtain n where "Some f \<in> set v" "prev_n H n q = Some f"
      "\<forall>m < n. \<forall>x. prev_n H m q = Some x \<longrightarrow> Some x \<notin> set v" by (auto simp: first_on_chain_def)
    with Some notin shift [of n] show ?thesis
      unfolding first_on_chain_def by (auto intro!: exI [of _ "k + n"])
  qed
qed

lemma FindFork_ok:
  assumes wf: "wf_index H" and v: "is_chain H v" and p: "H p = Some b"
  shows "\<exists>r. FindFork H v (Some p) = Some r \<and> first_on_chain H v p r"
proof (cases "nHeight b > Height v")
  case False
  with p find_fork_loop_ok [OF wf v p] show ?thesis by (simp add: FindFork_def)
next
  case True
  have above: "Some x \<notin> set v" if m: "prev_n H m p = Some x" "int m < nHeight b - Height v" for m x
  proof
    assume x: "Some x \<in> set v"
    from prev_n_entry [OF wf p m(1)] obtain c where "H x = Some c" "nHeight c = nHeight b - int m" .
    with is_chain_height [OF v _ x] m(2) show False by auto
  qed
  show ?thesis
  proof (cases "v = []")
    case True
    then have "GetAncestor H p (Height v) = Some None" using p by (intro GetAncestor_null) (auto simp: Height_def)
    with True p \<open>nHeight b > Height v\<close> show ?thesis
      by (simp add: FindFork_def first_on_chain_def find_fork_loop.simps [of H "[]" None])
  next
    case False
    then have h: "0 \<le> Height v" by (cases v) (simp_all add: Height_def)
    obtain q c where q: "GetAncestor H p (Height v) = Some (Some q)"
      "prev_n H (nat (nHeight b - Height v)) p = Some q" "H q = Some c" "nHeight c = Height v"
      using GetAncestor_prev_n [OF wf p h] True by auto
    obtain r where r: "find_fork_loop H v (Some q) = Some r" "first_on_chain H v q r"
      using find_fork_loop_ok [OF wf v q(3)] by blast
    have "first_on_chain H v p r"
      using above True by (intro first_on_chain_jump [OF q(2) _ r(2)]) auto
    with p True q(1) r(1) show ?thesis by (simp add: FindFork_def)
  qed
qed

section \<open>Last common ancestor\<close>

partial_function (option) lca_loop ::
  "block_map \<Rightarrow> block_ptr option \<Rightarrow> block_ptr option \<Rightarrow> (block_ptr option \<times> block_ptr option) option" where
  "lca_loop H pa pb =
     (if pa = pb then Some (pa, pb)
      else (case pa of
              None \<Rightarrow> Some (pa, pb)
            | Some a \<Rightarrow>
                (case pb of
                   None \<Rightarrow> Some (pa, pb)
                 | Some b \<Rightarrow>
                     (case H a of
                        None \<Rightarrow> None
                      | Some x \<Rightarrow>
                          (case H b of None \<Rightarrow> None | Some y \<Rightarrow> lca_loop H (pprev x) (pprev y))))))"

definition LastCommonAncestor :: "block_map \<Rightarrow> block_ptr \<Rightarrow> block_ptr \<Rightarrow> block_ptr option option" where
  "LastCommonAncestor H pa pb = do {
     x \<leftarrow> H pa;
     y \<leftarrow> H pb;
     qa \<leftarrow> (if nHeight x > nHeight y then GetAncestor H pa (nHeight y) else Some (Some pa));
     qb \<leftarrow> (if nHeight x > nHeight y then Some (Some pb)
          else if nHeight y > nHeight x then GetAncestor H pb (nHeight x) else Some (Some pb));
     (ra, rb) \<leftarrow> lca_loop H qa qb;
     (if ra = rb then Some ra else None)
   }"

text \<open>All branches meet: there is one entry without a parent.\<close>

definition single_root :: "block_map \<Rightarrow> block_ptr \<Rightarrow> bool" where
  "single_root H g \<longleftrightarrow> (\<forall>p b. H p = Some b \<and> pprev b = None \<longrightarrow> p = g)"

definition is_ancestor :: "block_map \<Rightarrow> block_ptr \<Rightarrow> block_ptr \<Rightarrow> bool" where
  "is_ancestor H p r \<longleftrightarrow> (\<exists>n. prev_n H n p = Some r)"

lemma lca_loop_ok:
  assumes wf: "wf_index H" and g: "single_root H g"
  shows "H a = Some x \<Longrightarrow> H b = Some y \<Longrightarrow> nHeight x = int k \<Longrightarrow> nHeight y = int k \<Longrightarrow>
    \<exists>c n. lca_loop H (Some a) (Some b) = Some (Some c, Some c) \<and>
      prev_n H n a = Some c \<and> prev_n H n b = Some c \<and> (\<forall>m < n. prev_n H m a \<noteq> prev_n H m b)"
proof (induction k arbitrary: a b x y)
  case 0
  then have "pprev x = None" "pprev y = None"
    using wf_pprev_None [OF wf 0(1)] wf_pprev_None [OF wf 0(2)] by simp_all
  then have "a = b" using g 0(1,2) unfolding single_root_def by metis
  then show ?case by (subst lca_loop.simps) (auto intro!: exI [of _ "0 :: nat"])
next
  case (Suc k)
  show ?case
  proof (cases "a = b")
    case True
    then show ?thesis by (subst lca_loop.simps) (auto intro!: exI [of _ "0 :: nat"])
  next
    case False
    have pos: "0 < nHeight x" "0 < nHeight y" using Suc.prems by simp_all
    from wf_prev [OF wf Suc.prems(1) pos(1)]
    obtain a' x' where a': "pprev x = Some a'" "H a' = Some x'" "nHeight x = nHeight x' + 1" .
    from wf_prev [OF wf Suc.prems(2) pos(2)]
    obtain b' y' where b': "pprev y = Some b'" "H b' = Some y'" "nHeight y = nHeight y' + 1" .
    from Suc.IH [OF a'(2) b'(2)] a'(3) b'(3) Suc.prems obtain c n where
      IH: "lca_loop H (Some a') (Some b') = Some (Some c, Some c)" "prev_n H n a' = Some c"
        "prev_n H n b' = Some c" "\<forall>m < n. prev_n H m a' \<noteq> prev_n H m b'" by auto
    have "lca_loop H (Some a) (Some b) = Some (Some c, Some c)"
      using False Suc.prems(1,2) a'(1) b'(1) IH(1) by (subst lca_loop.simps) simp
    moreover have "\<forall>m < Suc n. prev_n H m a \<noteq> prev_n H m b"
      using False IH(4) Suc.prems(1,2) a'(1) b'(1) by (auto simp: less_Suc_eq_0_disj)
    ultimately show ?thesis
      using IH(2,3) Suc.prems(1,2) a'(1) b'(1) by (intro exI [of _ c] exI [of _ "Suc n"]) simp
  qed
qed

lemma lca_loop_highest:
  assumes wf: "wf_index H" and g: "single_root H g"
    and ab: "H a = Some x" "H b = Some y" "nHeight x = nHeight y"
  shows "\<exists>c. lca_loop H (Some a) (Some b) = Some (Some c, Some c) \<and> is_ancestor H a c \<and>
    is_ancestor H b c \<and> (\<forall>r. is_ancestor H a r \<and> is_ancestor H b r \<longrightarrow> is_ancestor H c r)"
proof -
  obtain k where k: "nHeight x = int k" using wf_height_nonneg [OF wf ab(1)] nonneg_int_cases by blast
  from lca_loop_ok [OF wf g ab(1,2) k] k ab(3) obtain c n where c: "lca_loop H (Some a) (Some b) = Some (Some c, Some c)"
    "prev_n H n a = Some c" "prev_n H n b = Some c" "\<forall>m < n. prev_n H m a \<noteq> prev_n H m b"
    by auto
  have "is_ancestor H c r" if i: "prev_n H i a = Some r" and j: "prev_n H j b = Some r" for r i j
  proof -
    from prev_n_entry [OF wf ab(1) i] obtain d where d: "H r = Some d" "nHeight d = nHeight x - int i" .
    from prev_n_entry [OF wf ab(2) j] obtain d' where "H r = Some d'" "nHeight d' = nHeight y - int j" .
    with d ab(3) have "i = j" by simp
    with i j c(4) have "n \<le> i" by (metis not_less)
    then have "prev_n H (i - n) c = Some r" using i c(2) prev_n_add [of H n "i - n" a] by simp
    then show ?thesis by (auto simp: is_ancestor_def)
  qed
  with c show ?thesis unfolding is_ancestor_def by blast
qed

lemma is_ancestor_trans: "is_ancestor H p q \<Longrightarrow> is_ancestor H q r \<Longrightarrow> is_ancestor H p r"
  unfolding is_ancestor_def using prev_n_add by (metis bind.bind_lunit)

text \<open>An ancestor at most as high as another ancestor of the same block is an ancestor of it.\<close>

lemma is_ancestor_linear:
  assumes wf: "wf_index H" and p: "H p = Some b" and "is_ancestor H p q" "is_ancestor H p r"
    and "H q = Some c" "H r = Some d" "nHeight d \<le> nHeight c"
  shows "is_ancestor H q r"
proof -
  obtain i j where i: "prev_n H i p = Some q" and j: "prev_n H j p = Some r"
    using assms by (auto simp: is_ancestor_def)
  from prev_n_entry [OF wf p i] obtain c' where "H q = Some c'" "nHeight c' = nHeight b - int i" .
  moreover from prev_n_entry [OF wf p j] obtain d' where "H r = Some d'" "nHeight d' = nHeight b - int j" .
  ultimately have "i \<le> j" using assms(5-7) by simp
  then have "prev_n H (j - i) q = Some r" using i j prev_n_add [of H i "j - i" p] by simp
  then show ?thesis by (auto simp: is_ancestor_def)
qed

lemma is_ancestor_height:
  assumes "wf_index H" "H p = Some b" "is_ancestor H p r"
  obtains c where "H r = Some c" "nHeight c \<le> nHeight b"
proof -
  from assms(3) obtain n where n: "prev_n H n p = Some r" by (auto simp: is_ancestor_def)
  from prev_n_entry [OF assms(1,2) n] obtain c where "H r = Some c" "nHeight c = nHeight b - int n" .
  with that show ?thesis by simp
qed

definition is_lca :: "block_map \<Rightarrow> block_ptr \<Rightarrow> block_ptr \<Rightarrow> block_ptr \<Rightarrow> bool" where
  "is_lca H a b c \<longleftrightarrow> is_ancestor H a c \<and> is_ancestor H b c \<and>
     (\<forall>r. is_ancestor H a r \<and> is_ancestor H b r \<longrightarrow> is_ancestor H c r)"

lemma is_lca_commute: "is_lca H a b c = is_lca H b a c"
  by (auto simp: is_lca_def)

lemma is_lca_jump:
  assumes wf: "wf_index H" and "H a = Some x" "H b = Some y" "is_ancestor H a a'" "H a' = Some x'"
    "nHeight x' = nHeight y" "is_lca H a' b c"
  shows "is_lca H a b c"
proof -
  have "is_ancestor H a' r" if r: "is_ancestor H a r" "is_ancestor H b r" for r
  proof -
    from is_ancestor_height [OF wf assms(3) r(2)] obtain d where "H r = Some d" "nHeight d \<le> nHeight y" .
    with is_ancestor_linear [OF wf assms(2,4) r(1) assms(5)] assms(6) show ?thesis by simp
  qed
  with assms show ?thesis by (auto simp: is_lca_def intro: is_ancestor_trans)
qed

lemma LastCommonAncestor_ok:
  assumes wf: "wf_index H" and g: "single_root H g" and a: "H a = Some x" and b: "H b = Some y"
  shows "\<exists>c. LastCommonAncestor H a b = Some (Some c) \<and> is_lca H a b c"
proof -
  have jump: "\<exists>q z. GetAncestor H p (nHeight v) = Some (Some q) \<and> is_ancestor H p q \<and> H q = Some z \<and> nHeight z = nHeight v"
    if pr: "H p = Some u" "H r = Some v" "nHeight v < nHeight u" for p u r v
  proof -
    have "nHeight v \<le> nHeight u" using pr(3) by simp
    from GetAncestor_prev_n [OF wf pr(1) wf_height_nonneg [OF wf pr(2)] this]
    obtain q z where "GetAncestor H p (nHeight v) = Some (Some q)"
      "prev_n H (nat (nHeight u - nHeight v)) p = Some q" "H q = Some z" "nHeight z = nHeight v" .
    then show ?thesis by (auto simp: is_ancestor_def)
  qed
  consider "nHeight x > nHeight y" | "nHeight y > nHeight x" | "nHeight x = nHeight y" by linarith
  then show ?thesis
  proof cases
    case 1
    from jump [OF a b 1] obtain q z where q: "GetAncestor H a (nHeight y) = Some (Some q)"
      "is_ancestor H a q" "H q = Some z" "nHeight z = nHeight y" by blast
    from lca_loop_highest [OF wf g q(3) b q(4)] obtain c
      where "lca_loop H (Some q) (Some b) = Some (Some c, Some c)" "is_lca H q b c"
      by (auto simp: is_lca_def)
    with 1 a b q is_lca_jump [OF wf a b q(2-4)] show ?thesis by (simp add: LastCommonAncestor_def)
  next
    case 2
    from jump [OF b a 2] obtain q z where q: "GetAncestor H b (nHeight x) = Some (Some q)"
      "is_ancestor H b q" "H q = Some z" "nHeight z = nHeight x" by blast
    from lca_loop_highest [OF wf g a q(3)] q(4) obtain c
      where "lca_loop H (Some a) (Some q) = Some (Some c, Some c)" "is_lca H a q c"
      by (auto simp: is_lca_def)
    with 2 a b q is_lca_jump [OF wf b a q(2-4), of c] show ?thesis
      by (simp add: LastCommonAncestor_def is_lca_commute)
  next
    case 3
    from lca_loop_highest [OF wf g a b 3] a b 3 show ?thesis
      by (auto simp: LastCommonAncestor_def is_lca_def)
  qed
qed

section \<open>Block locators\<close>

text \<open>
  The step of the loop is an integer without a width. The 32-bit \<open>step\<close> of the code would overflow
  only after a descent of more than \<open>2 ^ 30\<close> blocks.
\<close>

partial_function (option) locator_loop ::
  "block_map \<Rightarrow> int \<times> uint256 list \<Rightarrow> block_ptr option \<Rightarrow> uint256 list option" where
  "locator_loop H st index =
     (case index of
        None \<Rightarrow> Some (snd st)
      | Some p \<Rightarrow>
          do {
            b \<leftarrow> H p;
            let hv = snd st @ [p];
            if nHeight b = 0 then Some hv
            else do {
              q \<leftarrow> GetAncestor H p (max (nHeight b - fst st) 0);
              locator_loop H (if length hv > 10 then fst st * 2 else fst st, hv) q
            }
          })"

definition LocatorEntries :: "block_map \<Rightarrow> block_ptr option \<Rightarrow> uint256 list option" where
  "LocatorEntries H index = (if index = None then Some [] else locator_loop H (1, []) index)"

text \<open>
  What a locator lists: ancestors of the block, of decreasing height, the block first and a
  block of height 0 last.
\<close>

fun descends :: "block_map \<Rightarrow> block_ptr \<Rightarrow> uint256 list \<Rightarrow> bool" where
  "descends H p [] \<longleftrightarrow> map_option nHeight (H p) = Some 0"
| "descends H p (q # qs) \<longleftrightarrow> (\<exists>n > 0. prev_n H n p = Some q) \<and> descends H q qs"

lemma locator_loop_step:
  assumes wf: "wf_index H" and p: "H p = Some b" and pos: "0 < nHeight b" and step: "0 < step"
  obtains q c n where
    "locator_loop H (step, hv) (Some p) =
       locator_loop H (if length hv \<ge> 10 then step * 2 else step, hv @ [p]) (Some q)"
    "0 < n" "prev_n H n p = Some q" "H q = Some c" "nHeight c = max (nHeight b - step) 0"
proof -
  let ?h = "max (nHeight b - step) 0"
  have h: "0 \<le> ?h" "?h \<le> nHeight b" "?h < nHeight b" using pos step by auto
  from GetAncestor_prev_n [OF wf p h(1,2)]
  obtain q c where q: "GetAncestor H p ?h = Some (Some q)" "prev_n H (nat (nHeight b - ?h)) p = Some q"
    "H q = Some c" "nHeight c = ?h" .
  have "locator_loop H (step, hv) (Some p) =
       locator_loop H (if length hv \<ge> 10 then step * 2 else step, hv @ [p]) (Some q)"
    using p pos q(1) by (subst locator_loop.simps) simp
  then show ?thesis using that [OF _ _ q(2-4)] h by simp
qed

lemma locator_loop_end:
  "H p = Some b \<Longrightarrow> nHeight b = 0 \<Longrightarrow> locator_loop H (step, hv) (Some p) = Some (hv @ [p])"
  by (subst locator_loop.simps) simp

text \<open>
  The loop's result and its length: once steps double, a height of at most
  \<open>step * (2 ^ m - 1)\<close> takes at most \<open>m + 1\<close> more entries.
\<close>

lemma locator_loop_ok:
  assumes wf: "wf_index H"
  shows "H p = Some b \<Longrightarrow> 0 < step \<Longrightarrow> nHeight b \<le> step * (2 ^ m - 1) \<Longrightarrow>
    \<exists>l. locator_loop H (step, hv) (Some p) = Some (hv @ p # l) \<and> descends H p l \<and>
        length l \<le> m + (10 - length hv)"
proof (induction "nat (nHeight b)" arbitrary: p b step hv m rule: less_induct)
  case less
  show ?case
  proof (cases "nHeight b = 0")
    case True
    with less.prems locator_loop_end [of H p b] show ?thesis by (intro exI [of _ "[]"]) simp
  next
    case False
    then have pos: "0 < nHeight b" using wf_height_nonneg [OF wf less.prems(1)] by simp
    from locator_loop_step [OF wf less.prems(1) pos less.prems(2), of hv]
    obtain q c n where q:
      "locator_loop H (step, hv) (Some p) =
         locator_loop H (if length hv \<ge> 10 then step * 2 else step, hv @ [p]) (Some q)"
      "0 < n" "prev_n H n p = Some q" "H q = Some c" "nHeight c = max (nHeight b - step) 0" .
    have lt: "nat (nHeight c) < nat (nHeight b)" using q(5) pos less.prems(2) by auto
    show ?thesis
    proof (cases "length hv \<ge> 10")
      case True
      obtain m' where m': "m = Suc m'" using less.prems(3) pos by (cases m) simp_all
      have "nHeight c \<le> (step * 2) * (2 ^ m' - 1)"
      proof -
        have "nHeight b - step \<le> (step * 2) * (2 ^ m' - 1)"
          using less.prems(3) m' by (simp add: algebra_simps)
        moreover have "0 \<le> (step * 2) * (2 ^ m' - 1)" using less.prems(2) by simp
        ultimately show ?thesis using q(5) by simp
      qed
      from less.hyps [OF lt q(4) _ this, of "hv @ [p]"] less.prems(2)
      obtain l where "locator_loop H (step * 2, hv @ [p]) (Some q) = Some ((hv @ [p]) @ q # l)"
        "descends H q l" "length l \<le> m' + (10 - length (hv @ [p]))" by auto
      with q True m' show ?thesis by (intro exI [of _ "q # l"]) auto
    next
      case False
      have "nHeight c \<le> step * (2 ^ m - 1)" using less.prems(2,3) q(5) pos by simp
      from less.hyps [OF lt q(4) _ this, of "hv @ [p]"] less.prems(2)
      obtain l where "locator_loop H (step, hv @ [p]) (Some q) = Some ((hv @ [p]) @ q # l)"
        "descends H q l" "length l \<le> m + (10 - length (hv @ [p]))" by auto
      with q False show ?thesis by (intro exI [of _ "q # l"]) auto
    qed
  qed
qed

section \<open>Median time past\<close>

definition nMedianTimeSpan :: nat where "nMedianTimeSpan = 11"

primrec median_times :: "block_map \<Rightarrow> nat \<Rightarrow> block_ptr option \<Rightarrow> int list \<Rightarrow> int list option" where
  "median_times H 0 pindex acc = Some acc"
| "median_times H (Suc n) pindex acc =
     (case pindex of
        None \<Rightarrow> Some acc
      | Some p \<Rightarrow> do { b \<leftarrow> H p; median_times H n (pprev b) (GetBlockTime b # acc) })"

definition GetMedianTimePast :: "block_map \<Rightarrow> block_ptr \<Rightarrow> int option" where
  "GetMedianTimePast H p = do {
     pmedian \<leftarrow> median_times H nMedianTimeSpan (Some p) [];
     Some (sort pmedian ! (length pmedian div 2))
   }"

lemma median_times_acc:
  "median_times H n pindex acc = map_option (\<lambda>l. l @ acc) (median_times H n pindex [])"
proof (induction n arbitrary: pindex acc)
  case (Suc n)
  show ?case
  proof (cases pindex)
    case (Some p)
    then show ?thesis
      using Suc.IH [of _ "[_]"] Suc.IH [of _ "_ # acc"]
      by (cases "H p") (auto simp: option.map_comp comp_def)
  qed simp
qed simp

lemma median_times_total:
  assumes wf: "wf_index H"
  shows "H p = Some b \<Longrightarrow> \<exists>l. median_times H n (Some p) acc = Some l \<and> (n > 0 \<longrightarrow> l \<noteq> []) \<and> length l \<le> n + length acc"
proof (induction n arbitrary: p b acc)
  case (Suc n)
  show ?case
  proof (cases "pprev b")
    case None
    with Suc.prems show ?thesis by (cases n) auto
  next
    case (Some q)
    from wf_pprev_Some [OF wf Suc.prems Some] obtain c where c: "H q = Some c" by blast
    from Suc.IH [OF c, of "GetBlockTime b # acc"] Suc.prems Some show ?thesis
      by (cases n) auto
  qed
qed simp

text \<open>Looking one block further back adds at most one timestamp, the oldest.\<close>

lemma median_times_Suc:
  "median_times H (Suc n) pindex acc = Some l \<Longrightarrow>
   \<exists>l'. median_times H n pindex acc = Some l' \<and>
        (l = l' \<and> length l \<le> n + length acc \<or> (\<exists>x. l = x # l' \<and> length l = Suc n + length acc))"
proof (induction n arbitrary: pindex acc)
  case 0
  then show ?case by (cases pindex) (auto split: bind_splits)
next
  case (Suc n)
  show ?case
  proof (cases pindex)
    case None
    with Suc.prems show ?thesis by simp
  next
    case (Some p)
    with Suc.prems obtain b where b: "H p = Some b"
      "median_times H (Suc n) (pprev b) (GetBlockTime b # acc) = Some l"
      by (auto split: bind_splits)
    from Suc.IH [OF b(2)] Some b(1) show ?thesis by auto
  qed
qed

lemma median_times_child:
  assumes "H p = Some b" "pprev b = Some q"
  shows "median_times H (Suc n) (Some p) [] = map_option (\<lambda>l. l @ [GetBlockTime b]) (median_times H n (Some q) [])"
  using assms median_times_acc [of H n "Some q" "[GetBlockTime b]"] by simp

text \<open>The element at position \<open>k\<close> of the sorted list, by counting.\<close>

lemma sorted_nth_count:
  assumes "sorted zs" "k < length zs"
  shows "m \<le> zs ! k \<longleftrightarrow> length zs \<le> k + length (filter (\<lambda>z. m \<le> z) zs)"
proof -
  have split: "filter P zs = filter P (take k zs) @ filter P (drop k zs)" for P
    by (metis append_take_drop_id filter_append)
  show ?thesis
  proof
    assume m: "m \<le> zs ! k"
    have "m \<le> zs ! (k + i)" if "i < length zs - k" for i
      using m sorted_nth_mono [OF assms(1), of k "k + i"] that by force
    then have "\<forall>z \<in> set (drop k zs). m \<le> z" by (auto simp: in_set_conv_nth)
    then have "filter (\<lambda>z. m \<le> z) (drop k zs) = drop k zs" by (simp add: filter_id_conv)
    then show "length zs \<le> k + length (filter (\<lambda>z. m \<le> z) zs)" using split [of "\<lambda>z. m \<le> z"] by simp
  next
    assume len: "length zs \<le> k + length (filter (\<lambda>z. m \<le> z) zs)"
    show "m \<le> zs ! k"
    proof (rule ccontr)
      assume "\<not> m \<le> zs ! k"
      then have lt: "zs ! k < m" by simp
      have "\<forall>z \<in> set (take (Suc k) zs). \<not> m \<le> z"
      proof
        fix z assume "z \<in> set (take (Suc k) zs)"
        then obtain i where "i \<le> k" "z = zs ! i" using assms(2)
          by (auto simp: in_set_conv_nth less_Suc_eq_le)
        then have "z \<le> zs ! k" using assms by (auto intro: sorted_nth_mono)
        with lt show "\<not> m \<le> z" by simp
      qed
      then have "filter (\<lambda>z. m \<le> z) (take (Suc k) zs) = []" by (simp add: filter_empty_conv)
      then have "filter (\<lambda>z. m \<le> z) zs = filter (\<lambda>z. m \<le> z) (drop (Suc k) zs)"
        by (metis append_take_drop_id filter_append append_Nil)
      then have "length (filter (\<lambda>z. m \<le> z) zs) \<le> length zs - Suc k"
        by (metis length_drop length_filter_le)
      with len assms(2) show False by simp
    qed
  qed
qed

lemma sort_nth_count:
  fixes m :: int
  assumes "k < length xs"
  shows "m \<le> sort xs ! k \<longleftrightarrow> length xs \<le> k + length (filter (\<lambda>z. m \<le> z) xs)"
proof -
  have "filter (\<lambda>z. m \<le> z) (sort xs) = sort (filter (\<lambda>z. m \<le> z) xs)" by (simp add: filter_sort)
  then show ?thesis using sorted_nth_count [of "sort xs" k m] assms by simp
qed

definition median :: "int list \<Rightarrow> int" where
  "median xs = sort xs ! (length xs div 2)"

lemma median_grow: "xs \<noteq> [] \<Longrightarrow> median xs < t \<Longrightarrow> median xs \<le> median (xs @ [t])"
  using sort_nth_count [of "length xs div 2" xs "median xs"]
    sort_nth_count [of "length (xs @ [t]) div 2" "xs @ [t]" "median xs"]
  by (cases xs) (auto simp: median_def)

lemma median_slide: "median (x # ys) < t \<Longrightarrow> median (x # ys) \<le> median (ys @ [t])"
  using sort_nth_count [of "length (x # ys) div 2" "x # ys" "median (x # ys)"]
    sort_nth_count [of "length (ys @ [t]) div 2" "ys @ [t]" "median (x # ys)"]
  by (auto simp: median_def split: if_splits)

text \<open>A block later than its parent's median time past does not move the median back.\<close>

lemma GetMedianTimePast_mono:
  assumes wf: "wf_index H" and p: "H p = Some b" and q: "pprev b = Some q"
    and mtp: "GetMedianTimePast H q = Some m" and later: "m < GetBlockTime b"
  shows "\<exists>m'. GetMedianTimePast H p = Some m' \<and> m \<le> m'"
proof -
  from mtp obtain l where l: "median_times H (Suc 10) (Some q) [] = Some l" "m = median l"
    by (auto simp: GetMedianTimePast_def nMedianTimeSpan_def median_def numeral_eq_Suc split: bind_splits)
  from wf_pprev_Some [OF wf p q] obtain c where c: "H q = Some c" by blast
  have "l \<noteq> []" using median_times_total [OF wf c, of "Suc 10" "[]"] l(1) by auto
  from median_times_Suc [OF l(1)] obtain l' where l': "median_times H 10 (Some q) [] = Some l'"
    "l = l' \<or> (\<exists>x. l = x # l')" by auto
  then have "median_times H (Suc 10) (Some p) [] = Some (l' @ [GetBlockTime b])"
    by (simp only: median_times_child [of H p b q, OF p q] option.map)
  moreover have "Suc 10 = nMedianTimeSpan" by (simp add: nMedianTimeSpan_def)
  ultimately have "GetMedianTimePast H p = Some (median (l' @ [GetBlockTime b]))"
    by (simp only: GetMedianTimePast_def median_def bind.bind_lunit)
  moreover have "m \<le> median (l' @ [GetBlockTime b])"
    using l'(2) l(2) later \<open>l \<noteq> []\<close> median_grow median_slide by auto
  ultimately show ?thesis by simp
qed

section \<open>Properties\<close>

text \<open>
  C33: \<open>CChain::SetTip\<close>. On a well-formed index, whatever chain is active, \<open>SetTip\<close> terminates
  without a null access or a write out of range, and the vector is again the path from the
  genesis block to the new tip: position \<open>i\<close> holds the ancestor of height \<open>i\<close>.
\<close>

theorem SetTip_correct:
  assumes "wf_index H" "is_chain H v" "H p = Some b"
  shows "\<exists>v'. SetTip H v p = Some v' \<and> is_chain H v' \<and> Tip v' = Some p \<and> Height v' = nHeight b \<and>
    (\<forall>h. 0 \<le> h \<and> h \<le> nHeight b \<longrightarrow> chain_at v' h = prev_n H (nat (nHeight b - h)) p)"
proof -
  from SetTip_ok [OF assms] obtain v' where v': "SetTip H v p = Some v'" "is_chain H v'" "Tip v' = Some p"
    "Height v' = nHeight b" .
  then have len: "int (length v') = nHeight b + 1" by (simp add: Height_def)
  have "v' \<noteq> []" using v'(3) by (auto simp: Tip_def)
  then have last: "length v' - 1 < length v'" "v' ! (length v' - 1) = Some p" using v'(3) by (auto simp: Tip_def)
  have "chain_at v' h = prev_n H (nat (nHeight b - h)) p" if h: "0 \<le> h" "h \<le> nHeight b" for h
  proof -
    have eq: "length v' - 1 - nat h = nat (nHeight b - h)" "nat h \<le> length v' - 1" using len h by linarith+
    have "chain_at v' h = v' ! nat h" using len h by (simp add: chain_at_def)
    also have "\<dots> = prev_n H (length v' - 1 - nat h) p"
      using is_chain_prev_n [OF v'(2) last eq(2)] by simp
    finally show ?thesis unfolding eq(1) .
  qed
  with v' show ?thesis by blast
qed

theorem SetTip_correct_witness:
  "\<exists>v'. SetTip example_index [] (example_hash 2) = Some v' \<and> is_chain example_index v' \<and>
     chain_at v' 0 = Some (example_hash 1)"
  using SetTip_correct [OF wf_index_example _ example_index_entries(2), of "[]"]
  by (fastforce simp: is_chain_def example_index_entries)

text \<open>
  \<open>CChain::FindFork\<close>. On a well-formed index \<open>FindFork\<close> terminates and returns the first
  ancestor of the block, counted from the block itself, that is on the active chain, or null
  when no ancestor is.
\<close>

theorem FindFork_correct:
  assumes "wf_index H" "is_chain H v" "H p = Some b"
  shows "\<exists>r. FindFork H v (Some p) = Some r \<and> first_on_chain H v p r"
  using FindFork_ok [OF assms] .

lemma example_is_chain: "is_chain example_index [Some (example_hash 1)]"
  by (simp add: is_chain_def linked_at_def example_index_entries CBlockIndex_of_header_def)

lemma example_prev_n:
  "prev_n example_index n (example_hash 1) = (if n = 0 then Some (example_hash 1) else None)"
  "prev_n example_index n (example_hash 2) =
     (case n of 0 \<Rightarrow> Some (example_hash 2) | Suc 0 \<Rightarrow> Some (example_hash 1) | _ \<Rightarrow> None)"
  by (cases n; cases "n - 1"; simp add: example_index_entries CBlockIndex_of_header_def)+

theorem FindFork_correct_witness:
  "FindFork example_index [Some (example_hash 1)] (Some (example_hash 2)) = Some (Some (example_hash 1))"
  using FindFork_correct [OF wf_index_example example_is_chain example_index_entries(2)]
  by (auto simp: first_on_chain_def example_prev_n split: option.splits nat.splits)

text \<open>
  \<open>LastCommonAncestor\<close>. On a well-formed index with one root, \<open>LastCommonAncestor\<close> of two
  blocks returns, its final assertion holds, and the result is their common ancestor of which
  every other common ancestor is an ancestor.
\<close>

theorem LastCommonAncestor_correct:
  assumes "wf_index H" "single_root H g" "H a = Some x" "H b = Some y"
  shows "\<exists>c. LastCommonAncestor H a b = Some (Some c) \<and> is_ancestor H a c \<and> is_ancestor H b c \<and>
    (\<forall>r. is_ancestor H a r \<and> is_ancestor H b r \<longrightarrow> is_ancestor H c r)"
  using LastCommonAncestor_ok [OF assms] unfolding is_lca_def .

lemma example_single_root: "single_root example_index (example_hash 1)"
  by (auto simp: single_root_def example_index_def CBlockIndex_of_header_def split: if_splits)

theorem LastCommonAncestor_correct_witness:
  "LastCommonAncestor example_index (example_hash 2) (example_hash 1) = Some (Some (example_hash 1))"
  using LastCommonAncestor_correct [OF wf_index_example example_single_root example_index_entries(2,1)]
  by (auto simp: is_ancestor_def example_prev_n split: if_splits)

text \<open>
  C34: \<open>LocatorEntries\<close>. The locator of a block is the block itself followed by ancestors of
  strictly decreasing height, ending with the block of height 0; for a block below height
  \<open>2 ^ m\<close> it has at most \<open>m + 11\<close> entries.
\<close>

theorem LocatorEntries_correct:
  assumes "wf_index H" "H p = Some b" "nHeight b < 2 ^ m"
  shows "\<exists>l. LocatorEntries H (Some p) = Some (p # l) \<and> descends H p l \<and> length (p # l) \<le> m + 11"
  using locator_loop_ok [OF assms(1,2), of 1 m "[]"] assms(3) by (auto simp: LocatorEntries_def)

theorem LocatorEntries_correct_witness:
  "\<exists>l. LocatorEntries example_index (Some (example_hash 2)) = Some (example_hash 2 # l) \<and>
     descends example_index (example_hash 2) l \<and> length (example_hash 2 # l) \<le> 12"
  using LocatorEntries_correct [OF wf_index_example example_index_entries(2), of 1] by simp

text \<open>
  Median time past. A block whose time is above its parent's median time past, as
  \<open>ContextualCheckBlockHeader\<close> demands, has a median time past that is not below its parent's.
\<close>

theorem MedianTimePast_monotone:
  assumes "wf_index H" "H p = Some b" "pprev b = Some q"
    "GetMedianTimePast H q = Some m" "m < GetBlockTime b"
  shows "\<exists>m'. GetMedianTimePast H p = Some m' \<and> m \<le> m'"
  using GetMedianTimePast_mono [OF assms] .

lemma example_median_1: "GetMedianTimePast example_index (example_hash 1) = Some 1000"
proof -
  obtain n where n: "nMedianTimeSpan = Suc (Suc n)" by (rule that [of 9]) (simp add: nMedianTimeSpan_def)
  show ?thesis unfolding GetMedianTimePast_def n
    by (simp add: example_index_entries CBlockIndex_of_header_def example_header_def
        GetBlockTime_def)
qed

theorem MedianTimePast_monotone_witness:
  "\<exists>m'. GetMedianTimePast example_index (example_hash 2) = Some m' \<and> 1000 \<le> m'"
  using MedianTimePast_monotone [OF wf_index_example example_index_entries(2) _ example_median_1]
  by (simp add: CBlockIndex_of_header_def example_header_def GetBlockTime_def)

end
