(* ===== verification/Consensus_Params.thy ===== *)
theory Consensus_Params
  imports Active_Chain
begin

text \<open>
  The consensus parameters (\<open>src/consensus/params.h\<close>) and the values the main network gives
  them (\<open>CMainParams\<close> in \<open>src/kernel/chainparams.cpp\<close>). The genesis hash is computed by the
  constructor from the proof-of-work hash of the genesis header; it is an argument here.
\<close>

section \<open>C arithmetic\<close>

text \<open>Conversion to a 32-bit \<open>int\<close>.\<close>

definition to_int32 :: "int \<Rightarrow> int" where
  "to_int32 x = signed_take_bit 31 x"

lemma to_int32_id [simp]: "- 2147483648 \<le> x \<Longrightarrow> x < 2147483648 \<Longrightarrow> to_int32 x = x"
  by (simp add: to_int32_def signed_take_bit_int_eq_self_iff)

lemma sdiv_nonneg: "0 \<le> a \<Longrightarrow> 0 < b \<Longrightarrow> a sdiv b = a div (b :: int)"
  by (cases "a = 0") (simp_all add: signed_divide_int_def sgn_if)

lemma smod_nonneg: "0 \<le> a \<Longrightarrow> 0 < b \<Longrightarrow> a smod b = a mod (b :: int)"
  by (cases "a = 0") (simp_all add: signed_modulo_int_def)

section \<open>Parameters\<close>

record BIP9Deployment =
  dep_bit :: nat
  nStartTime :: int
  nTimeout :: int
  min_activation_height :: int

definition NO_TIMEOUT :: int where "NO_TIMEOUT = 9223372036854775807"
definition ALWAYS_ACTIVE :: int where "ALWAYS_ACTIVE = -1"
definition NEVER_ACTIVE :: int where "NEVER_ACTIVE = -2"

datatype DeploymentPos = DEPLOYMENT_TESTDUMMY | DEPLOYMENT_TAPROOT

datatype BuriedDeployment = DEPLOYMENT_HEIGHTINCB | DEPLOYMENT_CLTV | DEPLOYMENT_DERSIG
  | DEPLOYMENT_CSV | DEPLOYMENT_SEGWIT

record Params =
  hashGenesisBlock :: uint256
  nSubsidyHalvingInterval :: int
  script_flag_exceptions :: "uint256 \<rightharpoonup> uint32"
  BIP34Height :: int
  BIP34Hash :: uint256
  BIP65Height :: int
  BIP66Height :: int
  CSVHeight :: int
  SegwitHeight :: int
  MinBIP9WarningHeight :: int
  nRuleChangeActivationThreshold :: int
  nMinerConfirmationWindow :: int
  vDeployments :: "DeploymentPos \<Rightarrow> BIP9Deployment"
  powLimit :: uint256
  fPowAllowMinDifficultyBlocks :: bool
  fPowNoRetargeting :: bool
  nPowTargetSpacing :: int
  nPowTargetTimespan :: int
  nFastRetargetPeriod :: int
  nFastRetargetUntilHeight :: int
  nMinimumChainWork :: uint256
  defaultAssumeValid :: uint256
  signet_blocks :: bool
  signet_challenge :: "uint8 list"

text \<open>The quotient \<open>None\<close> is a division by zero.\<close>

definition DifficultyAdjustmentInterval :: "Params \<Rightarrow> int option" where
  "DifficultyAdjustmentInterval params =
     (if nPowTargetSpacing params = 0 then None
      else Some (nPowTargetTimespan params sdiv nPowTargetSpacing params))"

fun DeploymentHeight :: "Params \<Rightarrow> BuriedDeployment \<Rightarrow> int" where
  "DeploymentHeight params DEPLOYMENT_HEIGHTINCB = BIP34Height params"
| "DeploymentHeight params DEPLOYMENT_CLTV = BIP65Height params"
| "DeploymentHeight params DEPLOYMENT_DERSIG = BIP66Height params"
| "DeploymentHeight params DEPLOYMENT_CSV = CSVHeight params"
| "DeploymentHeight params DEPLOYMENT_SEGWIT = SegwitHeight params"

text \<open>The main network. \<open>uint256S\<close> writes the most significant byte first.\<close>

definition main_powLimit :: uint256 where
  "main_powLimit = replicate 30 0xff @ [0, 0]"

definition CMainParams :: "uint256 \<Rightarrow> Params" where
  "CMainParams genesisHash =
     \<lparr>hashGenesisBlock = genesisHash, nSubsidyHalvingInterval = 210000,
      script_flag_exceptions = Map.empty, BIP34Height = 17, BIP34Hash = uint256_zero,
      BIP65Height = 1, BIP66Height = 1, CSVHeight = 1, SegwitHeight = 0,
      MinBIP9WarningHeight = 0, nRuleChangeActivationThreshold = 1815,
      nMinerConfirmationWindow = 2016,
      vDeployments = (\<lambda>pos. case pos of
          DEPLOYMENT_TESTDUMMY \<Rightarrow>
            \<lparr>dep_bit = 28, nStartTime = NEVER_ACTIVE, nTimeout = NO_TIMEOUT, min_activation_height = 0\<rparr>
        | DEPLOYMENT_TAPROOT \<Rightarrow>
            \<lparr>dep_bit = 2, nStartTime = ALWAYS_ACTIVE, nTimeout = NO_TIMEOUT, min_activation_height = 0\<rparr>),
      powLimit = main_powLimit, fPowAllowMinDifficultyBlocks = False, fPowNoRetargeting = False,
      nPowTargetSpacing = 10 * 60, nPowTargetTimespan = 14 * 24 * 60 * 60,
      nFastRetargetPeriod = 144, nFastRetargetUntilHeight = 2016,
      nMinimumChainWork = uint256_zero, defaultAssumeValid = uint256_zero,
      signet_blocks = False, signet_challenge = []\<rparr>"

end
