(* ===== verification/Pow.thy ===== *)
theory Pow
  imports Consensus_Params
begin

text \<open>
  Proof of work (\<open>src/pow.cpp\<close>): the retarget interval of the first blocks, the required
  difficulty of the next block, the check that a difficulty transition is permitted, and
  \<open>CheckProofOfWork\<close>. \<open>bnNew *= nActualTimespan\<close> selects the 32-bit overload of the
  multiplication and wraps modulo \<open>2 ^ 256\<close>; \<open>bnNew /= nTargetTimespan\<close> converts the divisor
  to 256 bits.
\<close>

section \<open>Scaling a target\<close>

text \<open>
  What the retargeting code needs of 256-bit arithmetic: multiplication by a word, division
  and comparison, each with its meaning on the represented number.
\<close>

locale target_arith =
  fixes wf :: "'u \<Rightarrow> bool" and num :: "'u \<Rightarrow> nat" and modulus :: nat
    and mul32 :: "'u \<Rightarrow> uint32 \<Rightarrow> 'u" and divide :: "'u \<Rightarrow> 'u \<Rightarrow> 'u option" and gt :: "'u \<Rightarrow> 'u \<Rightarrow> bool"
  assumes wf_mul32: "wf a \<Longrightarrow> wf (mul32 a s)"
    and num_mul32: "wf a \<Longrightarrow> num (mul32 a s) = num a * unat s mod modulus"
    and divide_Some: "wf a \<Longrightarrow> wf b \<Longrightarrow> num b \<noteq> 0 \<Longrightarrow> \<exists>q. divide a b = Some q \<and> wf q \<and> num q = num a div num b"
    and gt_iff: "wf a \<Longrightarrow> wf b \<Longrightarrow> gt a b \<longleftrightarrow> num b < num a"
begin

lemma scale_clamp:
  assumes "wf t" "wf d" "wf lim" "num d \<noteq> 0"
  shows "\<exists>q. divide (mul32 t s) d = Some q \<and> wf (if gt q lim then lim else q) \<and>
    num (if gt q lim then lim else q) = min (num lim) (num t * unat s mod modulus div num d)"
  using divide_Some [OF wf_mul32 [OF assms(1)] assms(2,4), of s] assms
  by (auto simp: num_mul32 gt_iff)

end

interpretation arith256: target_arith
  "\<lambda>a. length a = WIDTH" val "2 ^ 256" uint_mul32 uint_div uint_gt
proof
  show "length a = WIDTH \<Longrightarrow> val (uint_mul32 a s) = val a * unat s mod 2 ^ 256" for a s
    by (simp add: val_uint_mul32 WIDTH_def)
  show "length a = WIDTH \<Longrightarrow> length b = WIDTH \<Longrightarrow> val b \<noteq> 0 \<Longrightarrow>
    \<exists>q. uint_div a b = Some q \<and> length q = WIDTH \<and> val q = val a div val b" for a b
    by (rule uint_div_Some [of a b]) auto
qed (simp_all add: uint_compare_iff)

section \<open>Retarget schedule\<close>

definition BBGetRetargetInterval :: "int \<Rightarrow> Params \<Rightarrow> int option" where
  "BBGetRetargetInterval height params =
     (if nFastRetargetPeriod params > 0 \<and> nFastRetargetUntilHeight params > 0 \<and>
         height < nFastRetargetUntilHeight params
      then Some (nFastRetargetPeriod params)
      else DifficultyAdjustmentInterval params)"

definition BBGetTargetTimespan :: "int \<Rightarrow> Params \<Rightarrow> int option" where
  "BBGetTargetTimespan height params =
     map_option (\<lambda>interval. interval * nPowTargetSpacing params) (BBGetRetargetInterval height params)"

definition CalculateNextWorkRequired :: "CBlockIndex \<Rightarrow> int \<Rightarrow> Params \<Rightarrow> uint32 option" where
  "CalculateNextWorkRequired pindexLast nFirstBlockTime params =
     (if fPowNoRetargeting params then Some (nBits pindexLast)
      else do {
        nTargetTimespan \<leftarrow> BBGetTargetTimespan (nHeight pindexLast + 1) params;
        let t0 = GetBlockTime pindexLast - nFirstBlockTime;
        let t1 = (if t0 < nTargetTimespan sdiv 4 then nTargetTimespan sdiv 4 else t0);
        let nActualTimespan = (if t1 > nTargetTimespan * 4 then nTargetTimespan * 4 else t1);
        let bnPowLimit = UintToArith256 (powLimit params);
        let bnOld = fst (SetCompact (nBits pindexLast));
        bnNew \<leftarrow> uint_div (uint_mul32 bnOld (word_of_int nActualTimespan))
                         (base_uint_of_u64 (word_of_int nTargetTimespan));
        GetCompact (if uint_gt bnNew bnPowLimit then bnPowLimit else bnNew) False
      })"

text \<open>
  The special rule of the test networks: back to the last block that was not mined at the
  minimum difficulty.
\<close>

partial_function (option) min_difficulty_walk ::
  "block_map \<Rightarrow> int \<times> uint32 \<Rightarrow> block_ptr \<Rightarrow> uint32 option" where
  "min_difficulty_walk H il pindex =
     do {
       b \<leftarrow> H pindex;
       (case pprev b of
          None \<Rightarrow> Some (nBits b)
        | Some q \<Rightarrow>
            if nHeight b smod fst il \<noteq> 0 \<and> nBits b = snd il then min_difficulty_walk H il q
            else Some (nBits b))
     }"

definition GetNextWorkRequired :: "block_map \<Rightarrow> block_ptr option \<Rightarrow> CBlockHeader \<Rightarrow> Params \<Rightarrow> uint32 option" where
  "GetNextWorkRequired H pindexLast pblock params = do {
     lastp \<leftarrow> pindexLast;
     b \<leftarrow> H lastp;
     nProofOfWorkLimit \<leftarrow> GetCompact (UintToArith256 (powLimit params)) False;
     nRetargetInterval \<leftarrow> BBGetRetargetInterval (nHeight b + 1) params;
     if nRetargetInterval = 0 then None
     else if (nHeight b + 1) smod nRetargetInterval \<noteq> 0
     then if fPowAllowMinDifficultyBlocks params
          then if uint (hdrTime pblock) > GetBlockTime b + nPowTargetSpacing params * 2
               then Some nProofOfWorkLimit
               else min_difficulty_walk H (nRetargetInterval, nProofOfWorkLimit) lastp
          else Some (nBits b)
     else do {
       let nHeightFirst = to_int32 (nHeight b - (nRetargetInterval - 1));
       if nHeightFirst < 0 then None
       else do {
         anc \<leftarrow> GetAncestor H lastp nHeightFirst;
         pindexFirst \<leftarrow> anc;
         f \<leftarrow> H pindexFirst;
         CalculateNextWorkRequired b (GetBlockTime f) params
       }
     }
   }"

definition PermittedDifficultyTransition :: "Params \<Rightarrow> int \<Rightarrow> uint32 \<Rightarrow> uint32 \<Rightarrow> bool option" where
  "PermittedDifficultyTransition params height old_nbits new_nbits =
     (if fPowAllowMinDifficultyBlocks params then Some True
      else do {
        nRetargetInterval \<leftarrow> BBGetRetargetInterval (to_int32 height) params;
        nTargetTimespan \<leftarrow> BBGetTargetTimespan (to_int32 height) params;
        if nRetargetInterval = 0 then None
        else if height smod nRetargetInterval = 0 then do {
          let smallest_timespan = nTargetTimespan sdiv 4;
          let largest_timespan = nTargetTimespan * 4;
          let pow_limit = UintToArith256 (powLimit params);
          let observed_new_target = fst (SetCompact new_nbits);
          largest_q \<leftarrow> uint_div (uint_mul32 (fst (SetCompact old_nbits)) (word_of_int largest_timespan))
                          (base_uint_of_u64 (word_of_int nTargetTimespan));
          let largest_difficulty_target = (if uint_gt largest_q pow_limit then pow_limit else largest_q);
          largest_bits \<leftarrow> GetCompact largest_difficulty_target False;
          let maximum_new_target = fst (SetCompact largest_bits);
          if uint_lt maximum_new_target observed_new_target then Some False
          else do {
            smallest_q \<leftarrow> uint_div (uint_mul32 (fst (SetCompact old_nbits)) (word_of_int smallest_timespan))
                             (base_uint_of_u64 (word_of_int nTargetTimespan));
            let smallest_difficulty_target = (if uint_gt smallest_q pow_limit then pow_limit else smallest_q);
            smallest_bits \<leftarrow> GetCompact smallest_difficulty_target False;
            let minimum_new_target = fst (SetCompact smallest_bits);
            Some (\<not> uint_gt minimum_new_target observed_new_target)
          }
        }
        else Some (old_nbits = new_nbits)
      })"

definition CheckProofOfWork :: "uint256 \<Rightarrow> uint32 \<Rightarrow> Params \<Rightarrow> bool" where
  "CheckProofOfWork hash bits params =
     (if hash = hashGenesisBlock params then True
      else let (bnTarget, fNegative, fOverflow) = SetCompact bits
           in if fNegative \<or> EqualTo bnTarget 0 \<or> fOverflow \<or>
                 uint_gt bnTarget (UintToArith256 (powLimit params))
              then False
              else \<not> uint_gt (UintToArith256 hash) bnTarget)"

section \<open>Retargeting\<close>

definition hash_value :: "uint256 \<Rightarrow> nat" where
  "hash_value h = val (UintToArith256 h)"

text \<open>The exact target of the next period: scaled, and clamped to the proof-of-work limit.\<close>

definition scaled_target :: "nat \<Rightarrow> nat \<Rightarrow> nat \<Rightarrow> nat \<Rightarrow> nat" where
  "scaled_target limit old s span = min limit (old * s mod 2 ^ 256 div span)"

lemma scaled_target_mono:
  "old * s' < 2 ^ 256 \<Longrightarrow> s \<le> s' \<Longrightarrow> scaled_target lim old s T \<le> scaled_target lim old s' T"
  unfolding scaled_target_def
  by (intro min.mono order_refl) (simp add: div_le_mono le_less_trans [OF mult_le_mono2])

text \<open>One retarget computation: scale, clamp, encode; decoding gives the truncated value.\<close>

lemma retarget_step:
  fixes c :: uint32 and span s :: int
  assumes "0 < span" "span < 2 ^ 32" "0 \<le> s" "s < 2 ^ 32"
  obtains q a bits n where
    "uint_div (uint_mul32 (fst (SetCompact c)) (word_of_int s)) (base_uint_of_u64 (word_of_int span)) = Some q"
    "a = (if uint_gt q (UintToArith256 lim) then UintToArith256 lim else q)" "length a = WIDTH"
    "val a = scaled_target (hash_value lim) (compact_value c mod 2 ^ 256) (nat s) (nat span)"
    "GetCompact a False = Some bits" "SetCompact bits = (n, False, False)"
    "length n = WIDTH" "val n = compact_trunc a"
proof -
  let ?t = "fst (SetCompact c)" and ?d = "base_uint_of_u64 (word_of_int span)"
  have d: "val ?d = nat span"
    using assms by (simp add: val_base_uint_of_u64 unsigned_of_int take_bit_int_eq_self)
  have s: "unat (word_of_int s :: uint32) = nat s"
    using assms by (simp add: unsigned_of_int take_bit_int_eq_self)
  obtain q where q: "uint_div (uint_mul32 ?t (word_of_int s)) ?d = Some q"
    "length (if uint_gt q (UintToArith256 lim) then UintToArith256 lim else q) = WIDTH"
    "val (if uint_gt q (UintToArith256 lim) then UintToArith256 lim else q) =
       scaled_target (hash_value lim) (compact_value c mod 2 ^ 256) (nat s) (nat span)"
    using arith256.scale_clamp [of ?t ?d "UintToArith256 lim" "word_of_int s"] assms(1) d s
    by (auto simp: scaled_target_def hash_value_def val_SetCompact mod_mult_left_eq)
  from SetCompact_GetCompact [OF q(2)] show ?thesis using that [OF q(1) refl q(2,3)] by blast
qed

text \<open>The time a period took, limited to a factor of four either way.\<close>

definition clamp_timespan :: "int \<Rightarrow> int \<Rightarrow> int" where
  "clamp_timespan span t = min (span * 4) (max (span div 4) t)"

lemma clamp_timespan_bounds:
  assumes "0 < span"
  shows "span div 4 \<le> clamp_timespan span t" "clamp_timespan span t \<le> span * 4" "0 \<le> clamp_timespan span t"
  using assms by (auto simp: clamp_timespan_def)

lemma CalculateNextWorkRequired_spec:
  assumes "\<not> fPowNoRetargeting params" "BBGetTargetTimespan (nHeight b + 1) params = Some span"
    "0 < span" "span * 4 < 2 ^ 32"
  obtains bits n a where "CalculateNextWorkRequired b t params = Some bits"
    "SetCompact bits = (n, False, False)" "length n = WIDTH" "val n = compact_trunc a" "length a = WIDTH"
    "val a = scaled_target (hash_value (powLimit params)) (compact_value (nBits b) mod 2 ^ 256)
               (nat (clamp_timespan span (GetBlockTime b - t))) (nat span)"
proof -
  let ?s = "clamp_timespan span (GetBlockTime b - t)"
  have s: "0 \<le> ?s" "?s < 2 ^ 32" "span < 2 ^ 32"
    using clamp_timespan_bounds [OF assms(3)] assms(4)
    by (auto intro: le_less_trans [of _ "span * 4"] simp: assms(3))
  have eq: "(let t1 = (if u < span sdiv 4 then span sdiv 4 else u)
             in if t1 > span * 4 then span * 4 else t1) = clamp_timespan span u" for u
    using assms(3) by (auto simp: clamp_timespan_def sdiv_nonneg Let_def)
  from retarget_step [OF assms(3) s(3) s(1,2), of "nBits b" "powLimit params"]
  obtain q a bits n where r:
    "uint_div (uint_mul32 (fst (SetCompact (nBits b))) (word_of_int ?s)) (base_uint_of_u64 (word_of_int span)) = Some q"
    "a = (if uint_gt q (UintToArith256 (powLimit params)) then UintToArith256 (powLimit params) else q)" "length a = WIDTH"
    "val a = scaled_target (hash_value (powLimit params)) (compact_value (nBits b) mod 2 ^ 256) (nat ?s) (nat span)"
    "GetCompact a False = Some bits" "SetCompact bits = (n, False, False)"
    "length n = WIDTH" "val n = compact_trunc a" .
  have "CalculateNextWorkRequired b t params = Some bits"
    using assms(1,2) r(1,5) eq [of "GetBlockTime b - t"]
    by (simp add: CalculateNextWorkRequired_def Let_def r(2))
  with r that show ?thesis by blast
qed

text \<open>
  At a retarget height the check compares the new target with two scaled and truncated
  targets, the largest and the smallest.
\<close>

lemma Permitted_eval:
  assumes "\<not> fPowAllowMinDifficultyBlocks params"
    and I: "BBGetRetargetInterval h params = Some I" "I \<noteq> 0" "h smod I = 0"
    and T: "BBGetTargetTimespan h params = Some span" "0 < span" "span * 4 < 2 ^ 32" "to_int32 h = h"
  obtains a1 a2 where "length a1 = WIDTH" "length a2 = WIDTH"
    "val a1 = scaled_target (hash_value (powLimit params)) (compact_value old mod 2 ^ 256) (nat (span * 4)) (nat span)"
    "val a2 = scaled_target (hash_value (powLimit params)) (compact_value old mod 2 ^ 256) (nat (span div 4)) (nat span)"
    "\<And>new. PermittedDifficultyTransition params h old new =
       Some (compact_trunc a2 \<le> val (fst (SetCompact new)) \<and> val (fst (SetCompact new)) \<le> compact_trunc a1)"
proof -
  let ?L = "UintToArith256 (powLimit params)"
  have b: "span < 2 ^ 32" "0 \<le> span * 4" "0 \<le> span div 4" "span div 4 < 2 ^ 32" using T(2,3) by simp_all
  from retarget_step [OF T(2) b(1,2) T(3), of old "powLimit params"]
  obtain q1 a1 c1 n1 where r1:
    "uint_div (uint_mul32 (fst (SetCompact old)) (word_of_int (span * 4))) (base_uint_of_u64 (word_of_int span)) = Some q1"
    "a1 = (if uint_gt q1 ?L then ?L else q1)" "length a1 = WIDTH"
    "val a1 = scaled_target (hash_value (powLimit params)) (compact_value old mod 2 ^ 256) (nat (span * 4)) (nat span)"
    "GetCompact a1 False = Some c1" "SetCompact c1 = (n1, False, False)" "length n1 = WIDTH" "val n1 = compact_trunc a1" .
  from retarget_step [OF T(2) b(1,3,4), of old "powLimit params"]
  obtain q2 a2 c2 n2 where r2:
    "uint_div (uint_mul32 (fst (SetCompact old)) (word_of_int (span div 4))) (base_uint_of_u64 (word_of_int span)) = Some q2"
    "a2 = (if uint_gt q2 ?L then ?L else q2)" "length a2 = WIDTH"
    "val a2 = scaled_target (hash_value (powLimit params)) (compact_value old mod 2 ^ 256) (nat (span div 4)) (nat span)"
    "GetCompact a2 False = Some c2" "SetCompact c2 = (n2, False, False)" "length n2 = WIDTH" "val n2 = compact_trunc a2" .
  have "PermittedDifficultyTransition params h old new =
       Some (compact_trunc a2 \<le> val (fst (SetCompact new)) \<and> val (fst (SetCompact new)) \<le> compact_trunc a1)" for new
  proof -
    have cmp: "uint_lt n1 (fst (SetCompact new)) \<longleftrightarrow> compact_trunc a1 < val (fst (SetCompact new))"
      "CompareTo n2 (fst (SetCompact new)) \<le> 0 \<longleftrightarrow> compact_trunc a2 \<le> val (fst (SetCompact new))"
      using r1(7,8) r2(7,8) uint_compare_iff(1) [of n2 "fst (SetCompact new)"]
      by (simp_all add: uint_compare_iff linorder_not_less [symmetric])
    show ?thesis
      using assms(1) I T(1,2,4) r1(1,5,6) r2(1,5,6)
      by (simp add: PermittedDifficultyTransition_def sdiv_nonneg Let_def cmp not_less not_le
          r1(2) [symmetric] r2(2) [symmetric])
  qed
  with r1(3,4) r2(3,4) that show ?thesis by blast
qed

lemma Permitted_retarget:
  assumes "\<not> fPowAllowMinDifficultyBlocks params"
    and I: "BBGetRetargetInterval h params = Some I" "I \<noteq> 0" "h smod I = 0"
    and T: "BBGetTargetTimespan h params = Some span" "0 < span" "span * 4 < 2 ^ 32" "to_int32 h = h"
    and fits: "(compact_value old mod 2 ^ 256) * nat (span * 4) < 2 ^ 256"
    and new: "SetCompact new = (n, False, False)" "length n = WIDTH" "val n = compact_trunc a" "length a = WIDTH"
      "val a = scaled_target (hash_value (powLimit params)) (compact_value old mod 2 ^ 256) (nat s) (nat span)"
    and s: "span div 4 \<le> s" "s \<le> span * 4"
  shows "PermittedDifficultyTransition params h old new = Some True"
proof -
  from Permitted_eval [OF assms(1) I T, of old] obtain a1 a2 where e:
    "length a1 = WIDTH" "length a2 = WIDTH"
    "val a1 = scaled_target (hash_value (powLimit params)) (compact_value old mod 2 ^ 256) (nat (span * 4)) (nat span)"
    "val a2 = scaled_target (hash_value (powLimit params)) (compact_value old mod 2 ^ 256) (nat (span div 4)) (nat span)"
    "PermittedDifficultyTransition params h old new =
       Some (compact_trunc a2 \<le> val (fst (SetCompact new)) \<and> val (fst (SetCompact new)) \<le> compact_trunc a1)"
    by metis
  have "val a \<le> val a1" unfolding new(5) e(3) by (rule scaled_target_mono [OF fits nat_mono [OF s(2)]])
  moreover have "compact_value old mod 2 ^ 256 * nat s < 2 ^ 256"
    using s(2) by (intro le_less_trans [OF mult_le_mono2 fits] nat_mono)
  then have "val a2 \<le> val a" unfolding new(5) e(4) by (rule scaled_target_mono [OF _ nat_mono [OF s(1)]])
  ultimately show ?thesis
    using e(5) new(1,3) compact_trunc_mono [OF new(4) e(1)] compact_trunc_mono [OF e(2) new(4)] by simp
qed

text \<open>
  The required difficulty exists and is a permitted transition, when the old target times the
  longest timespan fits into 256 bits.
\<close>

lemma GetNextWorkRequired_permitted:
  assumes wf: "wf_index H" and p: "H p = Some b" and h: "nHeight b + 1 < 2 ^ 31"
    and params: "\<not> fPowAllowMinDifficultyBlocks params" "\<not> fPowNoRetargeting params"
    and I: "BBGetRetargetInterval (nHeight b + 1) params = Some I" "0 < I" "I < 2 ^ 31"
    and span: "BBGetTargetTimespan (nHeight b + 1) params = Some span" "0 < span" "span * 4 < 2 ^ 32"
    and fits: "(compact_value (nBits b) mod 2 ^ 256) * nat (span * 4) < 2 ^ 256"
  shows "\<exists>new. GetNextWorkRequired H (Some p) blk params = Some new \<and>
    PermittedDifficultyTransition params (nHeight b + 1) (nBits b) new = Some True"
proof -
  have h0: "0 \<le> nHeight b" by (rule wf_height_nonneg [OF wf p])
  have i32: "to_int32 (nHeight b + 1) = nHeight b + 1" using h h0 by simp
  obtain lim where lim: "GetCompact (UintToArith256 (powLimit params)) False = Some lim"
    using SetCompact_GetCompact [of "UintToArith256 (powLimit params)"] by auto
  show ?thesis
  proof (cases "(nHeight b + 1) smod I = 0")
    case False
    then show ?thesis
      using p params(1) I lim span i32
      by (simp add: GetNextWorkRequired_def PermittedDifficultyTransition_def)
  next
    case True
    then have "I dvd nHeight b + 1" using h0 I(2) by (simp add: smod_nonneg mod_eq_0_iff_dvd)
    then have le: "I \<le> nHeight b + 1" using h0 by (intro zdvd_imp_le) simp_all
    let ?h = "nHeight b - (I - 1)"
    have hf: "0 \<le> ?h" "?h \<le> nHeight b" "to_int32 ?h = ?h" using le I(2) h by simp_all
    from GetAncestor_prev_n [OF wf p hf(1,2)]
    obtain q c where q: "GetAncestor H p ?h = Some (Some q)" "H q = Some c" by metis
    from CalculateNextWorkRequired_spec [OF params(2) span, of "GetBlockTime c"]
    obtain bits n a where r: "CalculateNextWorkRequired b (GetBlockTime c) params = Some bits"
      "SetCompact bits = (n, False, False)" "length n = WIDTH" "val n = compact_trunc a" "length a = WIDTH"
      "val a = scaled_target (hash_value (powLimit params)) (compact_value (nBits b) mod 2 ^ 256)
               (nat (clamp_timespan span (GetBlockTime b - GetBlockTime c))) (nat span)" .
    have "GetNextWorkRequired H (Some p) blk params = Some bits"
      using p lim I True hf q r(1) by (simp add: GetNextWorkRequired_def)
    moreover have "PermittedDifficultyTransition params (nHeight b + 1) (nBits b) bits = Some True"
      using clamp_timespan_bounds [OF span(2)] I(2) True
      by (intro Permitted_retarget [OF params(1) I(1) _ _ span i32 fits r(2-6)]) simp_all
    ultimately show ?thesis by blast
  qed
qed

lemma CheckProofOfWork_iff:
  "CheckProofOfWork hash bits params \<longleftrightarrow>
     hash = hashGenesisBlock params \<or>
     \<not> (compact_neg bits \<and> compact_value bits \<noteq> 0) \<and> 0 < compact_value bits \<and>
     compact_value bits \<le> hash_value (powLimit params) \<and> hash_value hash \<le> compact_value bits"
proof -
  obtain n f g where sc: "SetCompact bits = (n, f, g)" by (cases "SetCompact bits")
  have len: "length n = WIDTH" using length_SetCompact [of bits] sc by simp
  have v: "val n = compact_value bits mod 2 ^ 256" using val_SetCompact [of bits] sc by simp
  have g: "g \<longleftrightarrow> 2 ^ 256 \<le> compact_value bits" using SetCompact_overflow [of bits] sc by simp
  have f: "f \<longleftrightarrow> compact_neg bits \<and> compact_value bits \<noteq> 0"
    using SetCompact_negative [of bits] sc by (auto simp: compact_value_def)
  have lim: "hash_value u < 2 ^ 256" for u unfolding hash_value_def by (rule val_less_256) simp
  show ?thesis
  proof (cases "compact_value bits < 2 ^ 256")
    case True
    then show ?thesis
      using sc len v f g by (auto simp: CheckProofOfWork_def EqualTo_0_iff uint_compare_iff hash_value_def not_less)
  next
    case False
    then have "\<not> compact_value bits \<le> hash_value (powLimit params)"
      using lim [of "powLimit params"] by linarith
    with False g sc show ?thesis by (auto simp: CheckProofOfWork_def)
  qed
qed

section \<open>The main network\<close>

lemma main_schedule:
  "BBGetRetargetInterval h (CMainParams g) = Some (if h < 2016 then 144 else 2016)"
  "BBGetTargetTimespan h (CMainParams g) = Some (if h < 2016 then 86400 else 1209600)"
  by (simp_all add: BBGetTargetTimespan_def BBGetRetargetInterval_def CMainParams_def
      DifficultyAdjustmentInterval_def sdiv_nonneg)

lemma main_powLimit_arith:
  "UintToArith256 main_powLimit =
     [0xffffffff, 0xffffffff, 0xffffffff, 0xffffffff, 0xffffffff, 0xffffffff, 0xffffffff, 0xffff]"
  by (simp add: UintToArith256_def WIDTH_def upt_rec main_powLimit_def ReadLE32_def nth_append)

lemma main_powLimit_value: "hash_value main_powLimit = 2 ^ 240 - 1"
  by (simp add: hash_value_def main_powLimit_arith)

lemma compact_limit_value: "compact_value 0x1f00ffff = 0xffff * 2 ^ 224"
  by (simp add: compact_value_def compact_size_def compact_mant_def)

lemma main_params_simps [simp]:
  "powLimit (CMainParams g) = main_powLimit" "\<not> fPowAllowMinDifficultyBlocks (CMainParams g)"
  "\<not> fPowNoRetargeting (CMainParams g)" "hashGenesisBlock (CMainParams g) = g"
  by (simp_all add: CMainParams_def)


text \<open>
  The schedule of the main network satisfies the arithmetic side conditions of retargeting;
  what remains is that the old target times the longest timespan fits.
\<close>

lemma main_permitted:
  assumes "wf_index H" "H p = Some b" "nHeight b + 1 < 2 ^ 31"
    "compact_value (nBits b) * (if nHeight b + 1 < 2016 then 345600 else 4838400) < 2 ^ 256"
  shows "\<exists>new. GetNextWorkRequired H (Some p) blk (CMainParams g) = Some new \<and>
    PermittedDifficultyTransition (CMainParams g) (nHeight b + 1) (nBits b) new = Some True"
proof (rule GetNextWorkRequired_permitted [OF assms(1-3) _ _ main_schedule(1) _ _ main_schedule(2)])
  have "compact_value (nBits b) < 2 ^ 256"
    using assms(4) by (rule le_less_trans [rotated]) simp
  then show "compact_value (nBits b) mod 2 ^ 256 * nat ((if nHeight b + 1 < 2016 then 86400 else 1209600) * 4) < 2 ^ 256"
    using assms(4) by (simp split: if_splits)
qed simp_all

text \<open>
  At the difficulty of the genesis block the product does not fit. After a period four times
  too long the required target is less than a quarter of the old one, where it should have
  stayed at the limit.
\<close>

lemma main_wrapped_target:
  "scaled_target (hash_value main_powLimit) (compact_value 0x1f00ffff mod 2 ^ 256) 345600 86400 =
     1174059520 * 2 ^ 224 div 86400"
  by (simp add: scaled_target_def main_powLimit_value compact_limit_value)

lemma SetCompact_value:
  assumes "SetCompact bits = (n, f, False)"
  shows "val n = compact_value bits"
  using val_SetCompact [of bits] SetCompact_overflow [of bits] assms by simp

lemma main_retarget_wraps:
  assumes "nBits b = 0x1f00ffff" "nHeight b + 1 < 2016" "t + 345600 \<le> GetBlockTime b"
  shows "\<exists>bits. CalculateNextWorkRequired b t (CMainParams g) = Some bits \<and>
    4 * compact_value bits < compact_value (nBits b)"
proof -
  have span: "BBGetTargetTimespan (nHeight b + 1) (CMainParams g) = Some 86400"
    using assms(2) by (simp add: main_schedule)
  have clamp: "clamp_timespan 86400 (GetBlockTime b - t) = 345600"
    using assms(3) by (simp add: clamp_timespan_def)
  have c: "(0 :: int) < 86400" "(86400 :: int) * 4 < 2 ^ 32" by simp_all
  from CalculateNextWorkRequired_spec [OF main_params_simps(3) span c, of t, unfolded clamp main_params_simps(1)]
  obtain bits n a where r: "CalculateNextWorkRequired b t (CMainParams g) = Some bits"
    "SetCompact bits = (n, False, False)" "val n = compact_trunc a"
    "val a = scaled_target (hash_value main_powLimit) (compact_value (nBits b) mod 2 ^ 256) (nat 345600) (nat 86400)"
    by metis
  have "compact_value bits \<le> 1174059520 * 2 ^ 224 div 86400"
    using r(3,4) compact_trunc_le [of a] SetCompact_value [OF r(2)] assms(1) main_wrapped_target by simp
  then have "4 * compact_value bits < compact_value (nBits b)"
    by (simp add: assms(1) compact_limit_value)
  with r(1) show ?thesis by blast
qed

text \<open>
  There the upper bound of \<open>PermittedDifficultyTransition\<close> wraps as well and falls below its
  lower bound: no transition is permitted.
\<close>

lemma main_smallest_target:
  assumes "length a = WIDTH" "val a = 65535 * 2 ^ 222"
  shows "compact_trunc a = 65535 * 2 ^ 222"
proof -
  have "uint_bits a = 238"
    using uint_bits_le [OF assms(1), of 238] uint_bits_ge [OF assms(1), of 237] assms(2) by simp
  then show ?thesis by (simp add: compact_trunc_def compact_exp_def assms(2))
qed

lemma main_no_transition:
  assumes "0 < h" "h < 2016" "h mod 144 = 0"
  shows "PermittedDifficultyTransition (CMainParams g) h 0x1f00ffff new = Some False"
proof -
  have I: "BBGetRetargetInterval h (CMainParams g) = Some 144" "(144 :: int) \<noteq> 0" "h smod 144 = 0"
    and T: "BBGetTargetTimespan h (CMainParams g) = Some 86400" "(0 :: int) < 86400"
      "(86400 :: int) * 4 < 2 ^ 32" "to_int32 h = h"
    using assms by (simp_all add: main_schedule smod_nonneg)
  from Permitted_eval [OF main_params_simps(2) I T, of "0x1f00ffff"] obtain a1 a2 where e:
    "length a2 = WIDTH"
    "val a1 = scaled_target (hash_value main_powLimit) (compact_value 0x1f00ffff mod 2 ^ 256) (nat (86400 * 4)) (nat 86400)"
    "val a2 = scaled_target (hash_value main_powLimit) (compact_value 0x1f00ffff mod 2 ^ 256) (nat (86400 div 4)) (nat 86400)"
    "PermittedDifficultyTransition (CMainParams g) h 0x1f00ffff new =
       Some (compact_trunc a2 \<le> val (fst (SetCompact new)) \<and> val (fst (SetCompact new)) \<le> compact_trunc a1)"
    unfolding main_params_simps(1) by metis
  have "val a2 = 65535 * 2 ^ 222"
    using e(3) by (simp add: scaled_target_def main_powLimit_value compact_limit_value)
  then have "compact_trunc a2 = 65535 * 2 ^ 222" by (rule main_smallest_target [OF e(1)])
  moreover have "compact_trunc a1 \<le> 1174059520 * 2 ^ 224 div 86400"
    using e(2) compact_trunc_le [of a1] main_wrapped_target by simp
  ultimately have "compact_trunc a1 < compact_trunc a2" by simp
  then show ?thesis using e(4) by simp
qed

section \<open>Properties\<close>

text \<open>
  C7: Retargeting is permitted. Under any parameters without the test networks' exceptions,
  with a positive interval and timespan for the height, and an old target whose product with
  the longest timespan fits into 256 bits, \<open>GetNextWorkRequired\<close> returns a difficulty (no null
  ancestor, no failed assertion, no division by zero), and \<open>PermittedDifficultyTransition\<close>, the
  check that headers synchronisation uses, accepts it.
\<close>

theorem NextWork_permitted:
  assumes "wf_index H" "H p = Some b" "nHeight b + 1 < 2 ^ 31"
    "\<not> fPowAllowMinDifficultyBlocks params" "\<not> fPowNoRetargeting params"
    "BBGetRetargetInterval (nHeight b + 1) params = Some I" "0 < I" "I < 2 ^ 31"
    "BBGetTargetTimespan (nHeight b + 1) params = Some span" "0 < span" "span * 4 < 2 ^ 32"
    "(compact_value (nBits b) mod 2 ^ 256) * nat (span * 4) < 2 ^ 256"
  shows "\<exists>new. GetNextWorkRequired H (Some p) blk params = Some new \<and>
    PermittedDifficultyTransition params (nHeight b + 1) (nBits b) new = Some True"
  using GetNextWorkRequired_permitted [OF assms] .

lemma example_compact_value: "compact_value 0x1d00ffff = 0xffff * 2 ^ 208"
  by (simp add: compact_value_def compact_size_def compact_mant_def)

theorem NextWork_permitted_witness:
  "\<exists>new. GetNextWorkRequired example_index (Some (example_hash 2)) (example_header (example_hash 2) 2200)
       (CMainParams (example_hash 1)) = Some new \<and>
     PermittedDifficultyTransition (CMainParams (example_hash 1)) 2 0x1d00ffff new = Some True"
  using NextWork_permitted [OF wf_index_example example_index_entries(2), of "CMainParams (example_hash 1)" 144 86400]
  by (simp add: main_schedule CBlockIndex_of_header_def example_header_def example_compact_value)

text \<open>
  \<open>CheckProofOfWork\<close>. A hash passes exactly when it is the genesis hash, or the compact
  value is a positive target of at most the proof-of-work limit and the hash, read as a
  256-bit number, does not exceed the target.
\<close>

theorem CheckProofOfWork_correct:
  "CheckProofOfWork hash bits params \<longleftrightarrow>
     hash = hashGenesisBlock params \<or>
     \<not> (compact_neg bits \<and> compact_value bits \<noteq> 0) \<and> 0 < compact_value bits \<and>
     compact_value bits \<le> hash_value (powLimit params) \<and> hash_value hash \<le> compact_value bits"
  by (rule CheckProofOfWork_iff)

text \<open>
  C28: Overflow on the main network. For a block at the main network's limit in the fast
  retarget phase, after a period four times too long, \<open>CalculateNextWorkRequired\<close> computes with
  a product that wraps at 256 bits: the new target is less than a quarter of the old one, where
  without the wrap it would stay at the limit.
\<close>

theorem retarget_overflow:
  assumes "nBits b = 0x1f00ffff" "nHeight b + 1 < 2016" "t + 345600 \<le> GetBlockTime b"
  shows "\<exists>bits. CalculateNextWorkRequired b t (CMainParams g) = Some bits \<and>
    4 * compact_value bits < compact_value (nBits b)"
  using main_retarget_wraps [OF assms] .

definition example_slow_block :: CBlockIndex where
  "example_slow_block = (CBlockIndex_of_header (example_header uint256_zero 500000))\<lparr>nHeight := 143, nBits := 0x1f00ffff\<rparr>"

theorem retarget_overflow_witness:
  "\<exists>bits. CalculateNextWorkRequired example_slow_block 1000 (CMainParams uint256_zero) = Some bits \<and>
     4 * compact_value bits < compact_value 0x1f00ffff"
  using retarget_overflow [of example_slow_block 1000 uint256_zero]
  by (simp add: example_slow_block_def CBlockIndex_of_header_def example_header_def GetBlockTime_def)

text \<open>
  C29: No permitted transition. At every retarget height of the fast phase of the main network,
  \<open>PermittedDifficultyTransition\<close> rejects every new difficulty when the old one is the limit,
  the unchanged difficulty included: the largest permitted target, computed with a product that
  wraps, is below the smallest.
\<close>

theorem no_permitted_transition:
  assumes "0 < h" "h < 2016" "h mod 144 = 0"
  shows "PermittedDifficultyTransition (CMainParams g) h 0x1f00ffff new = Some False"
  using main_no_transition [OF assms] .

theorem no_permitted_transition_witness:
  "PermittedDifficultyTransition (CMainParams uint256_zero) 144 0x1f00ffff 0x1f00ffff = Some False"
  using no_permitted_transition [of 144 uint256_zero "0x1f00ffff"] by simp

end
