(* ===== verification/Serialize.thy ===== *)
theory Serialize
  imports Prelude
begin

text \<open>
  Serialization (\<open>src/serialize.h\<close>): little-endian integers, \<open>CompactSize\<close>, \<open>VarInt\<close>, byte
  vectors and vectors. A serializer returns the bytes it writes. An unserializer consumes a
  prefix of its input and returns the value and the rest, or the exception it throws.

  The locale \<open>codec\<close> is the contract every pair satisfies: what was written is read back, and
  what can be read is exactly what the serializer writes. Each format of the program is an
  interpretation of it.
\<close>

section \<open>Readers\<close>

type_synonym bytes = "uint8 list"

datatype ser_error = EndOfData | NonCanonicalCompactSize | SizeTooLarge | VarIntTooLarge
  | SuperfluousWitness | UnknownOptionalData

type_synonym 'a reader = "bytes \<Rightarrow> ser_error + 'a \<times> bytes"

definition rd_return :: "'a \<Rightarrow> 'a reader" where
  "rd_return x s = Inr (x, s)"

definition rd_fail :: "ser_error \<Rightarrow> 'a reader" where
  "rd_fail e s = Inl e"

definition rd_bind :: "'a reader \<Rightarrow> ('a \<Rightarrow> 'b reader) \<Rightarrow> 'b reader" where
  "rd_bind p f s = (case p s of Inl e \<Rightarrow> Inl e | Inr (x, r) \<Rightarrow> f x r)"

definition read_bytes :: "nat \<Rightarrow> bytes reader" where
  "read_bytes n s = (if length s < n then Inl EndOfData else Inr (take n s, drop n s))"

lemma rd_return_Inr [simp]: "rd_return x s = Inr (y, r) \<longleftrightarrow> y = x \<and> r = s"
  by (auto simp: rd_return_def)

lemma rd_fail_Inr [simp]: "rd_fail e s \<noteq> Inr z"
  by (simp add: rd_fail_def)

lemma rd_bind_Inr:
  "rd_bind p f s = Inr z \<longleftrightarrow> (\<exists>x r. p s = Inr (x, r) \<and> f x r = Inr z)"
  by (auto simp: rd_bind_def split: sum.splits)

lemma read_bytes_Inr: "read_bytes n s = Inr (x, r) \<longleftrightarrow> length x = n \<and> s = x @ r"
  by (auto simp: read_bytes_def append_eq_conv_conj)

section \<open>The contract\<close>

locale codec =
  fixes ser :: "'a \<Rightarrow> bytes" and unser :: "'a reader" and valid :: "'a \<Rightarrow> bool"
  assumes unser_iff: "unser s = Inr (x, r) \<longleftrightarrow> valid x \<and> s = ser x @ r"
begin

lemma unser_ser: "valid x \<Longrightarrow> unser (ser x @ r) = Inr (x, r)"
  by (simp add: unser_iff)

lemma prefix_free:
  assumes "valid x" "valid y" "ser x @ r = ser y @ s"
  shows "x = y \<and> r = s"
proof -
  have "unser (ser x @ r) = Inr (x, r)" using assms(1) by (rule unser_ser)
  moreover have "unser (ser x @ r) = Inr (y, s)" using assms(2,3) by (simp add: unser_iff)
  ultimately show ?thesis by simp
qed

lemma ser_inject: "valid x \<Longrightarrow> valid y \<Longrightarrow> ser x = ser y \<longleftrightarrow> x = y"
  using prefix_free [of x y "[]" "[]"] by auto

lemma bind_ser: "valid x \<Longrightarrow> rd_bind unser f (ser x @ r) = f x r"
  by (simp add: rd_bind_def unser_ser)

lemma unser_bind: "rd_bind unser f s = Inr z \<longleftrightarrow> (\<exists>x r. valid x \<and> s = ser x @ r \<and> f x r = Inr z)"
  by (auto simp: rd_bind_Inr unser_iff)

end

section \<open>Integers\<close>

fun le_word :: "bytes \<Rightarrow> 'a::len word" where
  "le_word [] = 0"
| "le_word (b # bs) = ucast b OR push_bit 8 (le_word bs)"

definition le_bytes :: "nat \<Rightarrow> 'a::len word \<Rightarrow> bytes" where
  "le_bytes n w = map (\<lambda>i. ucast (drop_bit (8 * i) w)) [0..<n]"

lemma length_le_bytes [simp]: "length (le_bytes n w) = n"
  by (simp add: le_bytes_def)

lemma bit_le_word:
  "bit (le_word bs :: 'a::len word) k \<longleftrightarrow>
     k < LENGTH('a) \<and> k div 8 < length bs \<and> bit (bs ! (k div 8)) (k mod 8)"
proof (induction bs arbitrary: k)
  case (Cons b bs)
  show ?case
  proof (cases "k < 8")
    case True
    then show ?thesis by (auto simp: bit_simps)
  next
    case False
    then obtain j where j: "k = j + 8" by (metis le_add_diff_inverse2 not_less)
    have "\<not> bit b k" using False bit_imp_le_length [of b k] by auto
    moreover have "k div 8 = Suc (j div 8)" "k mod 8 = j mod 8" using j by simp_all
    ultimately show ?thesis using Cons.IH [of j] j by (auto simp: bit_simps)
  qed
qed simp

lemma le_word_le_bytes: "LENGTH('a) = 8 * n \<Longrightarrow> le_word (le_bytes n (w :: 'a::len word)) = w"
  by (rule bit_word_eqI) (auto simp: bit_le_word le_bytes_def bit_simps less_mult_imp_div_less mult.commute)

lemma le_bytes_le_word:
  assumes "length bs = n" "LENGTH('a) = 8 * n"
  shows "le_bytes n (le_word bs :: 'a::len word) = bs"
proof (rule nth_equalityI)
  fix i assume "i < length (le_bytes n (le_word bs :: 'a word))"
  then have i: "i < n" by simp
  show "le_bytes n (le_word bs :: 'a word) ! i = bs ! i"
  proof (rule bit_word_eqI)
    fix k assume "k < LENGTH(8)"
    then have k: "k < 8" by simp
    have "8 * i + k < 8 * n" using i k by simp
    then show "bit (le_bytes n (le_word bs :: 'a word) ! i) k = bit (bs ! i) k"
      using i k assms by (simp add: le_bytes_def bit_simps bit_le_word)
  qed
qed (simp add: assms)

definition ser_word :: "'a::len word \<Rightarrow> bytes" where
  "ser_word w = le_bytes (LENGTH('a) div 8) w"

definition unser_word :: "'a::len word reader" where
  "unser_word = rd_bind (read_bytes (LENGTH('a) div 8)) (\<lambda>bs. rd_return (le_word bs))"

lemma unser_word_iff:
  assumes "8 dvd LENGTH('a)"
  shows "unser_word s = Inr (x :: 'a::len word, r) \<longleftrightarrow> s = ser_word x @ r"
proof -
  let ?n = "LENGTH('a) div 8"
  have n: "LENGTH('a) = 8 * ?n" using assms by simp
  have "unser_word s = Inr (x, r) \<longleftrightarrow> (\<exists>bs. length bs = ?n \<and> s = bs @ r \<and> x = le_word bs)"
    by (auto simp: unser_word_def rd_bind_Inr read_bytes_Inr)
  also have "\<dots> \<longleftrightarrow> s = ser_word x @ r"
    using le_bytes_le_word [OF _ n] le_word_le_bytes [OF n, of x] by (auto simp: ser_word_def)
  finally show ?thesis .
qed

interpretation ser8: codec "ser_word :: uint8 \<Rightarrow> bytes" unser_word "\<lambda>_. True"
  by unfold_locales (simp add: unser_word_iff)

interpretation ser16: codec "ser_word :: 16 word \<Rightarrow> bytes" unser_word "\<lambda>_. True"
  by unfold_locales (simp add: unser_word_iff)

interpretation ser32: codec "ser_word :: uint32 \<Rightarrow> bytes" unser_word "\<lambda>_. True"
  by unfold_locales (simp add: unser_word_iff)

interpretation ser64: codec "ser_word :: uint64 \<Rightarrow> bytes" unser_word "\<lambda>_. True"
  by unfold_locales (simp add: unser_word_iff)

text \<open>Signed integers, in two's complement.\<close>

definition ser_int32 :: "int \<Rightarrow> bytes" where
  "ser_int32 x = ser_word (word_of_int x :: uint32)"

definition unser_int32 :: "int reader" where
  "unser_int32 = rd_bind unser_word (\<lambda>w. rd_return (sint (w :: uint32)))"

definition ser_int64 :: "int \<Rightarrow> bytes" where
  "ser_int64 x = ser_word (word_of_int x :: uint64)"

definition unser_int64 :: "int reader" where
  "unser_int64 = rd_bind unser_word (\<lambda>w. rd_return (sint (w :: uint64)))"

definition is_int32 :: "int \<Rightarrow> bool" where
  "is_int32 x \<longleftrightarrow> - 2147483648 \<le> x \<and> x < 2147483648"

definition is_int64 :: "int \<Rightarrow> bool" where
  "is_int64 x \<longleftrightarrow> - 9223372036854775808 \<le> x \<and> x < 9223372036854775808"

lemma sint_range32: "is_int32 (sint (w :: uint32))"
  using sint_range_size [of w] by (simp add: is_int32_def word_size)

lemma sint_range64: "is_int64 (sint (w :: uint64))"
  using sint_range_size [of w] by (simp add: is_int64_def word_size)

lemma sint_of_int32: "is_int32 x \<Longrightarrow> sint (word_of_int x :: uint32) = x"
  by (simp add: is_int32_def signed_of_int signed_take_bit_int_eq_self)

lemma sint_of_int64: "is_int64 x \<Longrightarrow> sint (word_of_int x :: uint64) = x"
  by (simp add: is_int64_def signed_of_int signed_take_bit_int_eq_self)

interpretation ser_i32: codec ser_int32 unser_int32 is_int32
proof
  fix s x r
  show "unser_int32 s = Inr (x, r) \<longleftrightarrow> is_int32 x \<and> s = ser_int32 x @ r"
    unfolding unser_int32_def ser32.unser_bind
    using sint_range32 sint_of_int32 by (auto simp: ser_int32_def)
qed

interpretation ser_i64: codec ser_int64 unser_int64 is_int64
proof
  fix s x r
  show "unser_int64 s = Inr (x, r) \<longleftrightarrow> is_int64 x \<and> s = ser_int64 x @ r"
    unfolding unser_int64_def ser64.unser_bind
    using sint_range64 sint_of_int64 by (auto simp: ser_int64_def)
qed

section \<open>CompactSize\<close>

definition MAX_SIZE :: uint64 where "MAX_SIZE = 0x02000000"

definition WriteCompactSize :: "uint64 \<Rightarrow> bytes" where
  "WriteCompactSize nSize =
     (if nSize < 253 then ser_word (ucast nSize :: uint8)
      else if nSize \<le> 0xffff then ser_word (253 :: uint8) @ ser_word (ucast nSize :: 16 word)
      else if nSize \<le> 0xffffffff then ser_word (254 :: uint8) @ ser_word (ucast nSize :: uint32)
      else ser_word (255 :: uint8) @ ser_word nSize)"

definition GetSizeOfCompactSize :: "uint64 \<Rightarrow> nat" where
  "GetSizeOfCompactSize nSize =
     (if nSize < 253 then 1 else if nSize \<le> 0xffff then 3 else if nSize \<le> 0xffffffff then 5 else 9)"

text \<open>\<open>ReadCompactSize\<close> up to its range check, and with it.\<close>

definition ReadCompactSize_any :: "uint64 reader" where
  "ReadCompactSize_any =
     rd_bind unser_word (\<lambda>chSize :: uint8.
       if chSize < 253 then rd_return (ucast chSize)
       else if chSize = 253
       then rd_bind unser_word (\<lambda>w :: 16 word.
              if (ucast w :: uint64) < 253 then rd_fail NonCanonicalCompactSize
              else rd_return (ucast w))
       else if chSize = 254
       then rd_bind unser_word (\<lambda>w :: uint32.
              if (ucast w :: uint64) < 0x10000 then rd_fail NonCanonicalCompactSize
              else rd_return (ucast w))
       else rd_bind unser_word (\<lambda>w :: uint64.
              if w < 0x100000000 then rd_fail NonCanonicalCompactSize
              else rd_return w))"

definition ReadCompactSize :: "bool \<Rightarrow> uint64 reader" where
  "ReadCompactSize range_check =
     rd_bind ReadCompactSize_any
       (\<lambda>nSizeRet. if range_check \<and> nSizeRet > MAX_SIZE then rd_fail SizeTooLarge
                   else rd_return nSizeRet)"

lemma length_WriteCompactSize: "length (WriteCompactSize n) = GetSizeOfCompactSize n"
  by (simp add: WriteCompactSize_def GetSizeOfCompactSize_def ser_word_def)

lemma ucast_ucast_small:
  fixes n :: uint64
  shows "n < 253 \<Longrightarrow> ucast (ucast n :: uint8) = n"
    and "n \<le> 0xffff \<Longrightarrow> ucast (ucast n :: 16 word) = n"
    and "n \<le> 0xffffffff \<Longrightarrow> ucast (ucast n :: uint32) = n"
  by (rule word_unat_eq_iff [THEN iffD2];
      simp add: unsigned_ucast_eq unsigned_take_bit_eq take_bit_nat_eq_self word_less_nat_alt word_le_nat_alt)+

lemma unat_ucast_up:
  fixes a :: uint8 and b :: "16 word" and c :: uint32
  shows "unat (ucast a :: uint64) = unat a" "unat (ucast b :: uint64) = unat b"
    "unat (ucast c :: uint64) = unat c"
  by (simp_all add: unsigned_ucast_eq take_bit_nat_eq_self less_trans [OF unsigned_less])

lemma ucast_up_bounds:
  fixes a :: uint8 and b :: "16 word" and c :: uint32
  shows "(ucast a :: uint64) < 253 \<longleftrightarrow> a < 253" "(ucast b :: uint64) \<le> 0xffff" "(ucast c :: uint64) \<le> 0xffffffff"
  using unsigned_less [of b, where ?'a = nat] unsigned_less [of c, where ?'a = nat]
  by (simp_all add: word_less_nat_alt word_le_nat_alt unat_ucast_up)

lemma ucast_down_up:
  fixes a :: uint8 and b :: "16 word" and c :: uint32
  shows "ucast (ucast a :: uint64) = a" "ucast (ucast b :: uint64) = b" "ucast (ucast c :: uint64) = c"
  by (rule bit_word_eqI; simp add: bit_simps)+

lemma uint8_top: "\<not> c < 253 \<Longrightarrow> c \<noteq> 253 \<Longrightarrow> c \<noteq> 254 \<Longrightarrow> c = (255 :: uint8)"
  using unsigned_less [of c, where ?'a = nat]
  by (simp add: word_less_nat_alt word_unat_eq_iff)

lemma word_bounds_16_32:
  fixes x :: uint64
  shows "x < 0x10000 \<longleftrightarrow> x \<le> 0xffff" "x < 0x100000000 \<longleftrightarrow> x \<le> 0xffffffff"
    "x < 253 \<Longrightarrow> x \<le> 0xffff" "x \<le> 0xffff \<Longrightarrow> x \<le> 0xffffffff"
  by (simp_all add: word_less_nat_alt word_le_nat_alt) linarith+

lemma ReadCompactSize_any_iff:
  "ReadCompactSize_any s = Inr (x, r) \<longleftrightarrow> s = WriteCompactSize x @ r"
proof
  assume "ReadCompactSize_any s = Inr (x, r)"
  then obtain ch :: uint8 and t where s: "s = ser_word ch @ t" and
    "(if ch < 253 then rd_return (ucast ch)
      else if ch = 253
      then rd_bind unser_word (\<lambda>w :: 16 word.
             if (ucast w :: uint64) < 253 then rd_fail NonCanonicalCompactSize else rd_return (ucast w))
      else if ch = 254
      then rd_bind unser_word (\<lambda>w :: uint32.
             if (ucast w :: uint64) < 0x10000 then rd_fail NonCanonicalCompactSize else rd_return (ucast w))
      else rd_bind unser_word (\<lambda>w :: uint64.
             if w < 0x100000000 then rd_fail NonCanonicalCompactSize else rd_return w)) t = Inr (x, r)"
    unfolding ReadCompactSize_any_def ser8.unser_bind by blast
  then show "s = WriteCompactSize x @ r"
    using uint8_top [of ch] word_bounds_16_32(3,4) [of x]
    by (auto simp: ser16.unser_bind ser32.unser_bind ser64.unser_bind WriteCompactSize_def ucast_up_bounds
        ucast_down_up word_bounds_16_32(1,2) split: if_splits)
next
  assume s: "s = WriteCompactSize x @ r"
  have mono: "x \<le> 0xffff \<or> \<not> x < 0x10000" "x \<le> 0xffffffff \<or> \<not> x < 0x100000000"
    by (simp_all add: word_bounds_16_32(1,2))
  show "ReadCompactSize_any s = Inr (x, r)"
    using mono unfolding s WriteCompactSize_def ReadCompactSize_any_def
    by (auto simp: ser8.bind_ser ser16.bind_ser ser32.bind_ser ser64.bind_ser ucast_ucast_small
        ucast_up_bounds(1) [symmetric])
qed

lemma ReadCompactSize_iff:
  "ReadCompactSize rc s = Inr (x, r) \<longleftrightarrow> (rc \<longrightarrow> x \<le> MAX_SIZE) \<and> s = WriteCompactSize x @ r"
  by (auto simp: ReadCompactSize_def rd_bind_Inr ReadCompactSize_any_iff not_less split: if_splits)

interpretation compact_size: codec WriteCompactSize "ReadCompactSize True" "\<lambda>x. x \<le> MAX_SIZE"
  by unfold_locales (simp add: ReadCompactSize_iff)

section \<open>VarInt\<close>

text \<open>
  The integer type is represented by its largest value: \<open>n\<close> never exceeds it while reading, and
  writing only decreases it, so that natural numbers do not wrap where the code's type does not.
\<close>

function varint_digits :: "nat \<Rightarrow> bool \<Rightarrow> bytes" where
  "varint_digits n more =
     (of_nat (n AND 0x7F) OR (if more then 0x80 else 0)) #
     (if n \<le> 0x7F then [] else varint_digits (drop_bit 7 n - 1) True)"
  by pat_completeness auto
termination
  by (relation "measure fst") (auto simp: drop_bit_eq_div)

declare varint_digits.simps [simp del]

definition WriteVarInt :: "nat \<Rightarrow> bytes" where
  "WriteVarInt n = rev (varint_digits n False)"

fun ReadVarInt_loop :: "nat \<Rightarrow> nat \<Rightarrow> nat reader" where
  "ReadVarInt_loop mx n [] = Inl EndOfData"
| "ReadVarInt_loop mx n (chData # s) =
     (if n > drop_bit 7 mx then Inl VarIntTooLarge
      else let n' = push_bit 7 n OR unat (chData AND 0x7F)
           in if chData AND 0x80 \<noteq> 0
              then if n' = mx then Inl VarIntTooLarge else ReadVarInt_loop mx (n' + 1) s
              else Inr (n', s))"

definition ReadVarInt :: "nat \<Rightarrow> nat reader" where
  "ReadVarInt mx = ReadVarInt_loop mx 0"

lemma unat_low7: "unat (b AND 0x7F :: uint8) = unat b mod 128"
proof -
  have "b AND 0x7F = take_bit 7 b" by (simp add: take_bit_eq_mask mask_eq_exp_minus_1)
  then show ?thesis by (simp only: unsigned_take_bit_eq) (simp add: take_bit_eq_mod)
qed

lemma bit7: "(b AND 0x80 :: uint8) \<noteq> 0 \<longleftrightarrow> bit b 7"
proof -
  have "(0x80 :: uint8) = 2 ^ 7" by simp
  then show ?thesis by (simp only: and_exp_eq_0_iff_not_bit) simp
qed

lemma push_bit_7_or:
  assumes "x < 128"
  shows "push_bit 7 a OR x = 128 * a + (x :: nat)"
proof -
  have "push_bit 7 a AND take_bit 7 x = 0" by (rule bit_eqI) (auto simp: bit_simps)
  then have "push_bit 7 a OR take_bit 7 x = push_bit 7 a + take_bit 7 x"
    by (rule disjunctive_add_eq_or [symmetric])
  moreover have "take_bit 7 x = x" using assms by (simp add: take_bit_nat_eq_self)
  ultimately show ?thesis by (simp add: push_bit_eq_mult)
qed

text \<open>A digit byte: its low seven bits and its continuation bit.\<close>

definition varint_byte :: "nat \<Rightarrow> bool \<Rightarrow> uint8" where
  "varint_byte n more = of_nat (n AND 0x7F) OR (if more then 0x80 else 0)"

lemma varint_byte_take_bit: "varint_byte n more = of_nat (take_bit 7 n) OR (if more then 2 ^ 7 else 0)"
  by (simp add: varint_byte_def take_bit_eq_mask mask_eq_exp_minus_1)

lemma bit_varint_byte:
  "bit (varint_byte n more) k \<longleftrightarrow> k < 7 \<and> bit n k \<or> k = 7 \<and> more"
proof -
  have "bit (2 ^ 7 :: uint8) k \<longleftrightarrow> k = 7" by (simp only: bit_exp_iff) auto
  then have "bit (if more then 2 ^ 7 else 0 :: uint8) k \<longleftrightarrow> k = 7 \<and> more" by (cases more) auto
  then show ?thesis unfolding varint_byte_take_bit bit_or_iff by (auto simp: bit_simps)
qed

lemma varint_byte_parts:
  "unat (varint_byte n more AND 0x7F) = n mod 128" "bit (varint_byte n more) 7 \<longleftrightarrow> more"
proof -
  have "take_bit 7 (varint_byte n more) = of_nat (take_bit 7 n)"
    by (rule bit_word_eqI) (auto simp: bit_varint_byte bit_simps)
  moreover have "varint_byte n more AND 0x7F = take_bit 7 (varint_byte n more)"
    by (simp add: take_bit_eq_mask mask_eq_exp_minus_1)
  ultimately show "unat (varint_byte n more AND 0x7F) = n mod 128"
    by (simp add: unsigned_of_nat take_bit_eq_mod)
qed (simp add: bit_varint_byte)

lemma varint_byte_unique: "varint_byte (unat b mod 128) (bit b 7) = b"
proof (rule bit_word_eqI)
  fix k assume "k < LENGTH(8)"
  then have k: "k < 7 \<or> k = 7" by auto
  have "unat b mod 128 = take_bit 7 (unat b)" by (simp add: take_bit_eq_mod)
  then have "bit (unat b mod 128) k \<longleftrightarrow> k < 7 \<and> bit b k"
    by (simp only: bit_take_bit_iff bit_unsigned_iff) auto
  with k show "bit (varint_byte (unat b mod 128) (bit b 7)) k = bit b k"
    unfolding bit_varint_byte by auto
qed

lemma varint_byte_mod: "varint_byte (n mod 128) more = varint_byte n more"
proof -
  have "n mod 128 = take_bit 7 n" by (simp add: take_bit_eq_mod)
  then show ?thesis by (simp only: varint_byte_take_bit take_bit_take_bit) simp
qed

lemma varint_digits_unfold:
  "varint_digits n more =
     varint_byte n more # (if n \<le> 127 then [] else varint_digits (n div 128 - 1) True)"
  by (subst varint_digits.simps) (simp add: varint_byte_def drop_bit_eq_div)

lemma ReadVarInt_loop_byte:
  assumes "a \<le> mx div 128" "n = 128 * a + unat b mod 128"
  shows "ReadVarInt_loop mx a (b # s) =
     (if bit b 7 then if n = mx then Inl VarIntTooLarge else ReadVarInt_loop mx (n + 1) s else Inr (n, s))"
  using assms push_bit_7_or [of "unat b mod 128" a]
  by (simp add: bit7 [simplified] unat_low7 drop_bit_eq_div Let_def)

declare ReadVarInt_loop.simps(2) [simp del]

lemma ReadVarInt_loop_prefix:
  assumes "n < mx"
  shows "ReadVarInt_loop mx 0 (rev (varint_digits n True) @ t) = ReadVarInt_loop mx (n + 1) t"
  using assms
proof (induction n arbitrary: t rule: less_induct)
  case (less n)
  let ?b = "varint_byte n True"
  have b: "unat ?b mod 128 = n mod 128" "bit ?b 7"
    using varint_byte_parts [of n True] by (simp_all add: unat_low7)
  show ?case
  proof (cases "n \<le> 127")
    case True
    with b less.prems show ?thesis
      by (subst varint_digits_unfold) (simp add: ReadVarInt_loop_byte [of 0 mx n])
  next
    case False
    then have "ReadVarInt_loop mx 0 (rev (varint_digits (n div 128 - 1) True) @ ?b # t) =
        ReadVarInt_loop mx (n div 128) (?b # t)"
      using less.IH [of "n div 128 - 1" "?b # t"] less.prems by simp
    also have "\<dots> = ReadVarInt_loop mx (n + 1) t"
      using b less.prems by (subst ReadVarInt_loop_byte [of _ _ n]) (simp_all add: div_le_mono)
    finally show ?thesis using False by (subst varint_digits_unfold) simp
  qed
qed

lemma WriteVarInt_unfold:
  "WriteVarInt n = (if n \<le> 127 then [] else rev (varint_digits (n div 128 - 1) True)) @ [varint_byte n False]"
  unfolding WriteVarInt_def by (subst varint_digits_unfold) simp

lemma ReadVarInt_WriteVarInt:
  assumes "n \<le> mx"
  shows "ReadVarInt mx (WriteVarInt n @ t) = Inr (n, t)"
proof -
  let ?b = "varint_byte n False"
  have b: "unat ?b mod 128 = n mod 128" "\<not> bit ?b 7"
    using varint_byte_parts [of n False] by (simp_all add: unat_low7)
  have "ReadVarInt_loop mx (n div 128) (?b # t) = Inr (n, t)"
    using b assms by (subst ReadVarInt_loop_byte [of _ _ n]) (simp_all add: div_le_mono)
  then show ?thesis
    using ReadVarInt_loop_prefix [of "n div 128 - 1" mx "?b # t"] assms
    by (auto simp: ReadVarInt_def WriteVarInt_unfold div_le_mono)
qed

lemma ReadVarInt_loop_canonical:
  "mx mod 128 = 127 \<Longrightarrow> ReadVarInt_loop mx a s = Inr (n, t) \<Longrightarrow>
    n \<le> mx \<and> (if a = 0 then [] else rev (varint_digits (a - 1) True)) @ s = WriteVarInt n @ t"
proof (induction mx a s rule: ReadVarInt_loop.induct)
  case (2 mx a b s)
  let ?n = "128 * a + unat b mod 128"
  let ?P = "if a = 0 then [] else rev (varint_digits (a - 1) True)"
  have a: "a \<le> mx div 128"
    using "2.prems"(2) by (auto simp: ReadVarInt_loop.simps(2) drop_bit_eq_div split: if_splits)
  have "128 * a \<le> 128 * (mx div 128)" using a by simp
  also have "128 * (mx div 128) = mx - 127" using mult_div_mod_eq [of 128 mx] "2.prems"(1) by linarith
  finally have le: "?n \<le> mx" using "2.prems"(1) mod_less_eq_dividend [of mx 128] by linarith
  have P: "rev (varint_digits ?n c) = ?P @ [b]" if "bit b 7 = c" for c
    using varint_byte_mod [of ?n c] varint_byte_unique [of b] that
    by (subst varint_digits_unfold) (auto simp: mod_mult_self4)
  note loop = "2.prems"(2) [unfolded ReadVarInt_loop_byte [OF a refl]]
  show ?case
  proof (cases "bit b 7")
    case True
    then have "?n \<noteq> mx" "ReadVarInt_loop mx (?n + 1) s = Inr (n, t)" using loop by (simp_all split: if_splits)
    moreover have "a \<le> drop_bit 7 mx" using a by (simp add: drop_bit_eq_div)
    ultimately have "n \<le> mx \<and> rev (varint_digits ?n True) @ s = WriteVarInt n @ t"
      using "2.IH" [of ?n] True push_bit_7_or [of "unat b mod 128" a] "2.prems"(1)
      by (simp add: bit7 unat_low7)
    then show ?thesis using P [OF True [THEN eqTrueI]] True by simp
  next
    case False
    then have "n = ?n" "t = s" using loop by simp_all
    with P [of False] False le show ?thesis by (simp add: WriteVarInt_def)
  qed
qed simp

lemma ReadVarInt_iff:
  assumes "mx mod 128 = 127"
  shows "ReadVarInt mx s = Inr (n, t) \<longleftrightarrow> n \<le> mx \<and> s = WriteVarInt n @ t"
  using ReadVarInt_loop_canonical [OF assms, of 0 s n t] ReadVarInt_WriteVarInt [of n mx t]
  by (auto simp: ReadVarInt_def)

interpretation varint32: codec WriteVarInt "ReadVarInt 0xffffffff" "\<lambda>n. n \<le> 0xffffffff"
  by unfold_locales (rule ReadVarInt_iff, simp)

interpretation varint64: codec WriteVarInt "ReadVarInt 0xffffffffffffffff" "\<lambda>n. n \<le> 0xffffffffffffffff"
  by unfold_locales (rule ReadVarInt_iff, simp)

section \<open>Vectors\<close>

text \<open>A vector of bytes is read in blocks, so that a bogus size does not allocate memory.\<close>

function read_blocks :: "nat \<Rightarrow> nat \<Rightarrow> bytes \<Rightarrow> bytes reader" where
  "read_blocks nSize i v s =
     (if i < nSize
      then let blk = min (nSize - i) 5000000
           in case read_bytes blk s of
                Inl e \<Rightarrow> Inl e
              | Inr (x, r) \<Rightarrow> read_blocks nSize (i + blk) (v @ x) r
      else Inr (v, s))"
  by pat_completeness auto
termination
  by (relation "measure (\<lambda>(n, i, v, s). n - i)") auto

declare read_blocks.simps [simp del]

definition ser_bytes :: "bytes \<Rightarrow> bytes" where
  "ser_bytes v = WriteCompactSize (of_nat (length v)) @ v"

definition unser_bytes :: "bytes reader" where
  "unser_bytes = rd_bind (ReadCompactSize True) (\<lambda>nSize. read_blocks (unat nSize) 0 [])"

lemma read_blocks_iff:
  "i \<le> nSize \<Longrightarrow> read_blocks nSize i v s = Inr (w, r) \<longleftrightarrow>
     (\<exists>x. length x = nSize - i \<and> w = v @ x \<and> s = x @ r)"
proof (induction nSize i v s rule: read_blocks.induct)
  case (1 nSize i v s)
  show ?case
  proof (cases "i < nSize")
    case False
    with "1.prems" show ?thesis by (subst read_blocks.simps) auto
  next
    case True
    let ?b = "min (nSize - i) 5000000"
    have "read_blocks nSize i v s = Inr (w, r) \<longleftrightarrow>
        (\<exists>x t. read_bytes ?b s = Inr (x, t) \<and> read_blocks nSize (i + ?b) (v @ x) t = Inr (w, r))"
      using True by (subst read_blocks.simps) (auto simp: Let_def split: sum.splits)
    also have "\<dots> \<longleftrightarrow> (\<exists>x t. read_bytes ?b s = Inr (x, t) \<and>
        (\<exists>y. length y = nSize - (i + ?b) \<and> w = (v @ x) @ y \<and> t = y @ r))"
      using "1.IH" [OF True refl] True by auto
    also have "\<dots> \<longleftrightarrow> (\<exists>x. length x = nSize - i \<and> w = v @ x \<and> s = x @ r)"
    proof
      assume "\<exists>x. length x = nSize - i \<and> w = v @ x \<and> s = x @ r"
      then obtain x where x: "length x = nSize - i" "w = v @ x" "s = x @ r" by blast
      then have "read_bytes ?b s = Inr (take ?b x, drop ?b x @ r)" by (simp add: read_bytes_Inr)
      with x show "\<exists>x t. read_bytes ?b s = Inr (x, t) \<and>
          (\<exists>y. length y = nSize - (i + ?b) \<and> w = (v @ x) @ y \<and> t = y @ r)"
        by (intro exI [of _ "take ?b x"] exI [of _ "drop ?b x @ r"] conjI exI [of _ "drop ?b x"]) auto
    qed (auto simp: read_bytes_Inr min_def)
    finally show ?thesis .
  qed
qed

lemma size_word: "length v \<le> unat MAX_SIZE \<Longrightarrow> unat (of_nat (length v) :: uint64) = length v"
  by (simp add: MAX_SIZE_def unsigned_of_nat take_bit_nat_eq_self)

interpretation byte_vector: codec ser_bytes unser_bytes "\<lambda>v. length v \<le> unat MAX_SIZE"
proof
  fix s x r
  have "unser_bytes s = Inr (x, r) \<longleftrightarrow>
      (\<exists>n t. n \<le> MAX_SIZE \<and> s = WriteCompactSize n @ t \<and> length x = unat n \<and> t = x @ r)"
    unfolding unser_bytes_def compact_size.unser_bind by (auto simp: read_blocks_iff)
  also have "\<dots> \<longleftrightarrow> length x \<le> unat MAX_SIZE \<and> s = ser_bytes x @ r"
    using size_word [of x] by (auto simp: ser_bytes_def word_le_nat_alt intro: exI [of _ "of_nat (length x)"])
  finally show "unser_bytes s = Inr (x, r) \<longleftrightarrow> length x \<le> unat MAX_SIZE \<and> s = ser_bytes x @ r" .
qed

text \<open>A vector of other elements: the size, then the elements in order.\<close>

definition ser_vector :: "('a \<Rightarrow> bytes) \<Rightarrow> 'a list \<Rightarrow> bytes" where
  "ser_vector ser xs = WriteCompactSize (of_nat (length xs)) @ concat (map ser xs)"

primrec read_many :: "'a reader \<Rightarrow> nat \<Rightarrow> 'a list reader" where
  "read_many unser 0 = rd_return []"
| "read_many unser (Suc n) =
     rd_bind unser (\<lambda>x. rd_bind (read_many unser n) (\<lambda>xs. rd_return (x # xs)))"

definition unser_vector :: "'a reader \<Rightarrow> 'a list reader" where
  "unser_vector unser = rd_bind (ReadCompactSize True) (\<lambda>nSize. read_many unser (unat nSize))"

context codec
begin

lemma read_many_iff:
  "read_many unser n s = Inr (xs, r) \<longleftrightarrow> length xs = n \<and> (\<forall>x \<in> set xs. valid x) \<and> s = concat (map ser xs) @ r"
proof (induction n arbitrary: s xs)
  case (Suc n)
  have "read_many unser (Suc n) s = Inr (xs, r) \<longleftrightarrow>
      (\<exists>x t ys. valid x \<and> s = ser x @ t \<and> read_many unser n t = Inr (ys, r) \<and> xs = x # ys)"
    by (auto simp: rd_bind_Inr unser_iff)
  then show ?case by (cases xs) (auto simp: Suc.IH)
qed auto

lemma unser_vector_iff:
  "unser_vector unser s = Inr (xs, r) \<longleftrightarrow>
     (length xs \<le> unat MAX_SIZE \<and> (\<forall>x \<in> set xs. valid x)) \<and> s = ser_vector ser xs @ r"
proof -
  have "unser_vector unser s = Inr (xs, r) \<longleftrightarrow>
      (\<exists>n t. n \<le> MAX_SIZE \<and> s = WriteCompactSize n @ t \<and> length xs = unat n \<and>
             (\<forall>x \<in> set xs. valid x) \<and> t = concat (map ser xs) @ r)"
    unfolding unser_vector_def compact_size.unser_bind by (auto simp: read_many_iff)
  also have "\<dots> \<longleftrightarrow> (length xs \<le> unat MAX_SIZE \<and> (\<forall>x \<in> set xs. valid x)) \<and> s = ser_vector ser xs @ r"
    using size_word [of xs] by (auto simp: ser_vector_def word_le_nat_alt intro: exI [of _ "of_nat (length xs)"])
  finally show ?thesis .
qed

lemma codec_vector:
  "codec (ser_vector ser) (unser_vector unser) (\<lambda>xs. length xs \<le> unat MAX_SIZE \<and> (\<forall>x \<in> set xs. valid x))"
  by unfold_locales (rule unser_vector_iff)

end

section \<open>Properties\<close>

text \<open>
  Compact sizes. \<open>ReadCompactSize\<close> accepts exactly the encodings \<open>WriteCompactSize\<close>
  produces, of at most \<open>MAX_SIZE\<close> when the range is checked: every value has one encoding, of
  the length \<open>GetSizeOfCompactSize\<close> announces.
\<close>

theorem compact_size_codec:
  "(ReadCompactSize rc s = Inr (x, r) \<longleftrightarrow> (rc \<longrightarrow> x \<le> MAX_SIZE) \<and> s = WriteCompactSize x @ r) \<and>
   length (WriteCompactSize x) = GetSizeOfCompactSize x"
  by (simp add: ReadCompactSize_iff length_WriteCompactSize)

theorem compact_size_codec_witness:
  "ReadCompactSize True (WriteCompactSize 300 @ [7]) = Inr (300, [7])"
  using compact_size_codec [of True "WriteCompactSize 300 @ [7]" 300 "[7]"] by (simp add: MAX_SIZE_def)

text \<open>
  Variable-length integers. For an unsigned type whose largest value ends in seven one bits,
  \<open>ReadVarInt\<close> accepts exactly the encodings of the type's values, without overflow: the
  encoding is a bijection between the values and the accepted byte strings.
\<close>

theorem varint_codec:
  assumes "mx mod 128 = 127"
  shows "ReadVarInt mx s = Inr (n, t) \<longleftrightarrow> n \<le> mx \<and> s = WriteVarInt n @ t"
  using ReadVarInt_iff [OF assms] .

theorem varint_codec_witness:
  "ReadVarInt 0xffffffff (WriteVarInt 16511 @ [7]) = Inr (16511, [7])"
  using varint_codec [where mx = "0xffffffff" and s = "WriteVarInt 16511 @ [7]" and n = 16511 and t = "[7]"] by simp

end
