(* ===== verification/Transaction.thy ===== *)
theory Transaction
  imports Serialize Uint256
begin

text \<open>
  Transactions (\<open>src/primitives/transaction.h\<close>, \<open>transaction.cpp\<close>): their data, the witness and
  non-witness serialization, hashes, sizes and output sums. \<open>Hash\<close> stands for the double
  SHA-256 of \<open>src/hash.h\<close> and is an argument.
\<close>

section \<open>Data\<close>

type_synonym CScript = bytes

record COutPoint =
  op_hash :: uint256
  op_n :: uint32

definition NULL_INDEX :: uint32 where "NULL_INDEX = 0xffffffff"

definition outpoint_null :: COutPoint where
  "outpoint_null = \<lparr>op_hash = uint256_zero, op_n = NULL_INDEX\<rparr>"

definition outpoint_IsNull :: "COutPoint \<Rightarrow> bool" where
  "outpoint_IsNull p \<longleftrightarrow> IsNull (op_hash p) \<and> op_n p = NULL_INDEX"

record CTxIn =
  prevout :: COutPoint
  scriptSig :: CScript
  nSequence :: uint32
  scriptWitness :: "bytes list"

definition SEQUENCE_FINAL :: uint32 where "SEQUENCE_FINAL = 0xffffffff"
definition SEQUENCE_LOCKTIME_DISABLE_FLAG :: uint32 where "SEQUENCE_LOCKTIME_DISABLE_FLAG = push_bit 31 1"
definition SEQUENCE_LOCKTIME_TYPE_FLAG :: uint32 where "SEQUENCE_LOCKTIME_TYPE_FLAG = push_bit 22 1"
definition SEQUENCE_LOCKTIME_MASK :: uint32 where "SEQUENCE_LOCKTIME_MASK = 0x0000ffff"
definition SEQUENCE_LOCKTIME_GRANULARITY :: nat where "SEQUENCE_LOCKTIME_GRANULARITY = 9"

record CTxOut =
  nValue :: int
  scriptPubKey :: CScript

definition txout_null :: CTxOut where
  "txout_null = \<lparr>nValue = -1, scriptPubKey = []\<rparr>"

definition txout_IsNull :: "CTxOut \<Rightarrow> bool" where
  "txout_IsNull t \<longleftrightarrow> nValue t = -1"

record CTransaction =
  vin :: "CTxIn list"
  vout :: "CTxOut list"
  txVersion :: int
  nLockTime :: uint32

definition HasWitness :: "CTransaction \<Rightarrow> bool" where
  "HasWitness tx \<longleftrightarrow> list_ex (\<lambda>i. scriptWitness i \<noteq> []) (vin tx)"

definition IsCoinBase :: "CTransaction \<Rightarrow> bool" where
  "IsCoinBase tx \<longleftrightarrow> length (vin tx) = 1 \<and> outpoint_IsNull (prevout (vin tx ! 0))"

section \<open>Serialization\<close>

definition unser_uint256 :: "uint256 reader" where
  "unser_uint256 = read_bytes 32"

interpretation ser_u256: codec "\<lambda>h. h" unser_uint256 wf_uint256
  by unfold_locales (simp add: unser_uint256_def read_bytes_Inr wf_uint256_def)

definition ser_outpoint :: "COutPoint \<Rightarrow> bytes" where
  "ser_outpoint p = op_hash p @ ser_word (op_n p)"

definition unser_outpoint :: "COutPoint reader" where
  "unser_outpoint =
     rd_bind unser_uint256 (\<lambda>h. rd_bind unser_word (\<lambda>n. rd_return \<lparr>op_hash = h, op_n = n\<rparr>))"

definition wf_outpoint :: "COutPoint \<Rightarrow> bool" where
  "wf_outpoint p \<longleftrightarrow> wf_uint256 (op_hash p)"

interpretation outpoint: codec ser_outpoint unser_outpoint wf_outpoint
proof
  fix s x r
  show "unser_outpoint s = Inr (x, r) \<longleftrightarrow> wf_outpoint x \<and> s = ser_outpoint x @ r"
    unfolding unser_outpoint_def ser_u256.unser_bind ser32.unser_bind
    by (cases x) (auto simp: wf_outpoint_def ser_outpoint_def)
qed

definition ser_txin :: "CTxIn \<Rightarrow> bytes" where
  "ser_txin i = ser_outpoint (prevout i) @ ser_bytes (scriptSig i) @ ser_word (nSequence i)"

definition unser_txin :: "CTxIn reader" where
  "unser_txin =
     rd_bind unser_outpoint (\<lambda>p. rd_bind unser_bytes (\<lambda>sig. rd_bind unser_word (\<lambda>sq.
       rd_return \<lparr>prevout = p, scriptSig = sig, nSequence = sq, scriptWitness = []\<rparr>)))"

definition wf_txin :: "CTxIn \<Rightarrow> bool" where
  "wf_txin i \<longleftrightarrow> wf_outpoint (prevout i) \<and> length (scriptSig i) \<le> unat MAX_SIZE"

interpretation txin: codec ser_txin unser_txin "\<lambda>i. wf_txin i \<and> scriptWitness i = []"
proof
  fix s x r
  show "unser_txin s = Inr (x, r) \<longleftrightarrow> (wf_txin x \<and> scriptWitness x = []) \<and> s = ser_txin x @ r"
    unfolding unser_txin_def outpoint.unser_bind byte_vector.unser_bind ser32.unser_bind
    by (cases x) (auto simp: wf_txin_def ser_txin_def)
qed

definition ser_txout :: "CTxOut \<Rightarrow> bytes" where
  "ser_txout t = ser_int64 (nValue t) @ ser_bytes (scriptPubKey t)"

definition unser_txout :: "CTxOut reader" where
  "unser_txout =
     rd_bind unser_int64 (\<lambda>v. rd_bind unser_bytes (\<lambda>spk. rd_return \<lparr>nValue = v, scriptPubKey = spk\<rparr>))"

definition wf_txout :: "CTxOut \<Rightarrow> bool" where
  "wf_txout t \<longleftrightarrow> is_int64 (nValue t) \<and> length (scriptPubKey t) \<le> unat MAX_SIZE"

interpretation txout: codec ser_txout unser_txout wf_txout
proof
  fix s x r
  show "unser_txout s = Inr (x, r) \<longleftrightarrow> wf_txout x \<and> s = ser_txout x @ r"
    unfolding unser_txout_def ser_i64.unser_bind byte_vector.unser_bind
    by (cases x) (auto simp: wf_txout_def ser_txout_def)
qed

text \<open>A witness stack is a vector of byte vectors.\<close>

definition ser_stack :: "bytes list \<Rightarrow> bytes" where
  "ser_stack = ser_vector ser_bytes"

definition unser_stack :: "bytes list reader" where
  "unser_stack = unser_vector unser_bytes"

definition wf_stack :: "bytes list \<Rightarrow> bool" where
  "wf_stack st \<longleftrightarrow> length st \<le> unat MAX_SIZE \<and> (\<forall>x \<in> set st. length x \<le> unat MAX_SIZE)"

interpretation stack: codec ser_stack unser_stack wf_stack
  unfolding ser_stack_def unser_stack_def wf_stack_def by (rule byte_vector.codec_vector)

interpretation vin: codec "ser_vector ser_txin" "unser_vector unser_txin"
  "\<lambda>xs. length xs \<le> unat MAX_SIZE \<and> (\<forall>x \<in> set xs. wf_txin x \<and> scriptWitness x = [])"
  by (rule txin.codec_vector)

interpretation vout: codec "ser_vector ser_txout" "unser_vector unser_txout"
  "\<lambda>xs. length xs \<le> unat MAX_SIZE \<and> (\<forall>x \<in> set xs. wf_txout x)"
  by (rule txout.codec_vector)

definition SerializeTransaction :: "bool \<Rightarrow> CTransaction \<Rightarrow> bytes" where
  "SerializeTransaction fAllowWitness tx =
     (let flags = (if fAllowWitness \<and> HasWitness tx then 1 else 0 :: uint8)
      in ser_int32 (txVersion tx) @
         (if flags \<noteq> 0 then ser_vector ser_txin [] @ ser_word flags else []) @
         ser_vector ser_txin (vin tx) @
         ser_vector ser_txout (vout tx) @
         (if flags AND 1 \<noteq> 0 then concat (map (\<lambda>i. ser_stack (scriptWitness i)) (vin tx)) else []) @
         ser_word (nLockTime tx))"

primrec read_witnesses :: "CTxIn list \<Rightarrow> CTxIn list reader" where
  "read_witnesses [] = rd_return []"
| "read_witnesses (i # rest) =
     rd_bind unser_stack (\<lambda>st. rd_bind (read_witnesses rest) (\<lambda>js.
       rd_return (i\<lparr>scriptWitness := st\<rparr> # js)))"

text \<open>The end of \<open>UnserializeTransaction\<close>: no flag may be left over.\<close>

definition unser_tail :: "int \<Rightarrow> uint8 \<Rightarrow> CTxIn list \<Rightarrow> CTxOut list \<Rightarrow> CTransaction reader" where
  "unser_tail ver flags ins outs =
     (if flags \<noteq> 0 then rd_fail UnknownOptionalData
      else rd_bind unser_word (\<lambda>lock.
             rd_return \<lparr>vin = ins, vout = outs, txVersion = ver, nLockTime = lock\<rparr>))"

definition unser_witness_part :: "bool \<Rightarrow> int \<Rightarrow> uint8 \<Rightarrow> CTxIn list \<Rightarrow> CTxOut list \<Rightarrow> CTransaction reader" where
  "unser_witness_part fAllowWitness ver flags ins outs =
     (if flags AND 1 \<noteq> 0 \<and> fAllowWitness
      then rd_bind (read_witnesses ins) (\<lambda>ins'.
             if \<not> list_ex (\<lambda>i. scriptWitness i \<noteq> []) ins' then rd_fail SuperfluousWitness
             else unser_tail ver (flags XOR 1) ins' outs)
      else unser_tail ver flags ins outs)"

definition UnserializeTransaction :: "bool \<Rightarrow> CTransaction reader" where
  "UnserializeTransaction fAllowWitness =
     rd_bind unser_int32 (\<lambda>ver.
     rd_bind (unser_vector unser_txin) (\<lambda>ins.
       if ins = [] \<and> fAllowWitness
       then rd_bind unser_word (\<lambda>flags :: uint8.
              if flags \<noteq> 0
              then rd_bind (unser_vector unser_txin) (\<lambda>ins.
                   rd_bind (unser_vector unser_txout) (\<lambda>outs.
                     unser_witness_part fAllowWitness ver flags ins outs))
              else unser_witness_part fAllowWitness ver flags [] [])
       else rd_bind (unser_vector unser_txout) (\<lambda>outs.
              unser_witness_part fAllowWitness ver 0 ins outs)))"

definition wf_tx :: "bool \<Rightarrow> CTransaction \<Rightarrow> bool" where
  "wf_tx fAllowWitness tx \<longleftrightarrow>
     is_int32 (txVersion tx) \<and>
     length (vin tx) \<le> unat MAX_SIZE \<and> (\<forall>i \<in> set (vin tx). wf_txin i) \<and>
     length (vout tx) \<le> unat MAX_SIZE \<and> (\<forall>t \<in> set (vout tx). wf_txout t) \<and>
     (if fAllowWitness
      then (\<forall>i \<in> set (vin tx). wf_stack (scriptWitness i)) \<and> (vin tx = [] \<longrightarrow> vout tx = [])
      else \<not> HasWitness tx)"

section \<open>The transaction format is a bijection\<close>

abbreviation strip_witness :: "CTxIn \<Rightarrow> CTxIn" where
  "strip_witness i \<equiv> i\<lparr>scriptWitness := []\<rparr>"

lemma ser_txin_strip: "ser_txin (strip_witness i) = ser_txin i" "wf_txin (strip_witness i) = wf_txin i"
  by (simp_all add: ser_txin_def wf_txin_def)

lemma ser_vector_strip: "ser_vector ser_txin (map strip_witness ins) = ser_vector ser_txin ins"
  by (simp add: ser_vector_def comp_def ser_txin_strip)

lemma strip_id: "\<forall>i \<in> set ins. scriptWitness i = [] \<Longrightarrow> map strip_witness ins = ins"
  by (induction ins) auto

lemma strip_no_witness:
  assumes "\<forall>i \<in> set ins. scriptWitness i = []"
  shows "map strip_witness (vin tx) = ins \<and> \<not> HasWitness tx \<longleftrightarrow> vin tx = ins"
proof
  assume a: "map strip_witness (vin tx) = ins \<and> \<not> HasWitness tx"
  then have "\<forall>i \<in> set (vin tx). scriptWitness i = []" by (simp add: HasWitness_def list_ex_iff)
  then have "map strip_witness (vin tx) = vin tx" by (rule strip_id)
  with a show "vin tx = ins" by simp
next
  assume "vin tx = ins"
  with strip_id [OF assms] assms show "map strip_witness (vin tx) = ins \<and> \<not> HasWitness tx"
    by (simp add: HasWitness_def list_ex_iff)
qed

lemma ser_vector_Nil: "ser_vector f [] = ser_word (0 :: uint8)"
  by (simp add: ser_vector_def WriteCompactSize_def)

lemma read_witnesses_iff:
  "read_witnesses ins s = Inr (ins', r) \<longleftrightarrow>
     map strip_witness ins' = map strip_witness ins \<and> (\<forall>i \<in> set ins'. wf_stack (scriptWitness i)) \<and>
     s = concat (map (\<lambda>i. ser_stack (scriptWitness i)) ins') @ r"
proof (induction ins arbitrary: s ins')
  case (Cons i ins)
  have "read_witnesses (i # ins) s = Inr (ins', r) \<longleftrightarrow>
      (\<exists>st t js. wf_stack st \<and> s = ser_stack st @ t \<and> read_witnesses ins t = Inr (js, r) \<and>
                 ins' = i\<lparr>scriptWitness := st\<rparr> # js)"
    by (auto simp: rd_bind_Inr stack.unser_iff)
  also have "\<dots> \<longleftrightarrow> (\<exists>st js. wf_stack st \<and> map strip_witness js = map strip_witness ins \<and>
      (\<forall>i \<in> set js. wf_stack (scriptWitness i)) \<and>
      s = ser_stack st @ concat (map (\<lambda>i. ser_stack (scriptWitness i)) js) @ r \<and>
      ins' = i\<lparr>scriptWitness := st\<rparr> # js)"
    by (auto simp: Cons.IH)
  also have "\<dots> \<longleftrightarrow> map strip_witness ins' = map strip_witness (i # ins) \<and>
      (\<forall>i \<in> set ins'. wf_stack (scriptWitness i)) \<and>
      s = concat (map (\<lambda>i. ser_stack (scriptWitness i)) ins') @ r"
  proof (cases ins')
    case (Cons j js)
    have "(\<exists>st. P st \<and> j = i\<lparr>scriptWitness := st\<rparr>) \<longleftrightarrow> P (scriptWitness j) \<and> strip_witness j = strip_witness i" for P
      by (cases i; cases j) auto
    from this [of "\<lambda>st. wf_stack st \<and> map strip_witness js = map strip_witness ins \<and>
      (\<forall>i \<in> set js. wf_stack (scriptWitness i)) \<and>
      s = ser_stack st @ concat (map (\<lambda>i. ser_stack (scriptWitness i)) js) @ r"]
    show ?thesis unfolding Cons by auto
  qed simp
  finally show ?case .
qed auto

lemma flags_one: "(flags :: uint8) AND 1 \<noteq> 0 \<and> flags XOR 1 = 0 \<longleftrightarrow> flags = 1"
proof
  assume "flags AND 1 \<noteq> 0 \<and> flags XOR 1 = 0"
  then have "(flags XOR 1) XOR 1 = 1" by simp
  then show "flags = 1" by (simp only: xor.assoc xor_self_eq xor.right_neutral)
qed simp

lemma unser_tail_iff:
  "unser_tail ver flags ins outs s = Inr (tx, r) \<longleftrightarrow>
     flags = 0 \<and> vin tx = ins \<and> vout tx = outs \<and> txVersion tx = ver \<and> s = ser_word (nLockTime tx) @ r"
  by (cases tx) (auto simp: unser_tail_def ser32.unser_bind)

lemma unser_witness_part_iff:
  assumes "\<forall>i \<in> set ins. scriptWitness i = []"
  shows "unser_witness_part aw ver flags ins outs s = Inr (tx, r) \<longleftrightarrow>
     vout tx = outs \<and> txVersion tx = ver \<and> map strip_witness (vin tx) = ins \<and>
     (flags = 0 \<and> \<not> HasWitness tx \<and> s = ser_word (nLockTime tx) @ r \<or>
      flags = 1 \<and> aw \<and> HasWitness tx \<and> (\<forall>i \<in> set (vin tx). wf_stack (scriptWitness i)) \<and>
      s = concat (map (\<lambda>i. ser_stack (scriptWitness i)) (vin tx)) @ ser_word (nLockTime tx) @ r)"
proof (cases "flags AND 1 \<noteq> 0 \<and> aw")
  case True
  have one: "flags XOR 1 = 0 \<longleftrightarrow> flags = 1" using flags_one [of flags] True by blast
  have nz: "flags \<noteq> 0" using True by auto
  have "unser_witness_part aw ver flags ins outs s = Inr (tx, r) \<longleftrightarrow>
      flags XOR 1 = 0 \<and> HasWitness tx \<and> vout tx = outs \<and> txVersion tx = ver \<and>
      read_witnesses ins s = Inr (vin tx, ser_word (nLockTime tx) @ r)"
    unfolding unser_witness_part_def if_P [OF True] rd_bind_Inr
    by (auto simp: unser_tail_iff HasWitness_def split: if_splits)
  then show ?thesis
    unfolding read_witnesses_iff strip_id [OF assms] one using True nz by blast
next
  case False
  note nw = strip_no_witness [OF assms, of tx]
  have "unser_witness_part aw ver flags ins outs s = unser_tail ver flags ins outs s"
    unfolding unser_witness_part_def if_not_P [OF False] ..
  then have "unser_witness_part aw ver flags ins outs s = Inr (tx, r) \<longleftrightarrow>
      flags = 0 \<and> (map strip_witness (vin tx) = ins \<and> \<not> HasWitness tx) \<and> vout tx = outs \<and>
      txVersion tx = ver \<and> s = ser_word (nLockTime tx) @ r"
    unfolding nw by (simp only: unser_tail_iff)
  moreover have "\<not> (flags = 1 \<and> aw)" using False by auto
  ultimately show ?thesis by blast
qed

lemma wf_tx_strip:
  "(\<forall>x \<in> set (map strip_witness (vin tx)). wf_txin x \<and> scriptWitness x = []) \<longleftrightarrow> (\<forall>i \<in> set (vin tx). wf_txin i)"
  by (auto simp: ser_txin_strip)

lemma SerializeTransaction_plain:
  "\<not> (aw \<and> HasWitness tx) \<Longrightarrow> SerializeTransaction aw tx =
     ser_int32 (txVersion tx) @ ser_vector ser_txin (vin tx) @ ser_vector ser_txout (vout tx) @ ser_word (nLockTime tx)"
  by (auto simp: SerializeTransaction_def)

lemma SerializeTransaction_witness:
  "HasWitness tx \<Longrightarrow> SerializeTransaction True tx =
     ser_int32 (txVersion tx) @ ser_word (0 :: uint8) @ ser_word (1 :: uint8) @
     ser_vector ser_txin (vin tx) @ ser_vector ser_txout (vout tx) @
     concat (map (\<lambda>i. ser_stack (scriptWitness i)) (vin tx)) @ ser_word (nLockTime tx)"
  by (simp add: SerializeTransaction_def ser_vector_Nil)

text \<open>The part after the version.\<close>

definition unser_inputs :: "bool \<Rightarrow> int \<Rightarrow> CTransaction reader" where
  "unser_inputs aw ver =
     rd_bind (unser_vector unser_txin) (\<lambda>ins.
       if ins = [] \<and> aw
       then rd_bind unser_word (\<lambda>flags :: uint8.
              if flags \<noteq> 0
              then rd_bind (unser_vector unser_txin) (\<lambda>ins.
                   rd_bind (unser_vector unser_txout) (\<lambda>outs. unser_witness_part aw ver flags ins outs))
              else unser_witness_part aw ver flags [] [])
       else rd_bind (unser_vector unser_txout) (\<lambda>outs. unser_witness_part aw ver 0 ins outs))"

definition wf_parts :: "CTransaction \<Rightarrow> bool" where
  "wf_parts tx \<longleftrightarrow>
     length (vin tx) \<le> unat MAX_SIZE \<and> (\<forall>i \<in> set (vin tx). wf_txin i) \<and>
     length (vout tx) \<le> unat MAX_SIZE \<and> (\<forall>t \<in> set (vout tx). wf_txout t)"

lemma unser_plain_iff:
  "rd_bind (unser_vector unser_txin) (\<lambda>ins. if ins = [] \<and> aw then q else
     rd_bind (unser_vector unser_txout) (\<lambda>outs. unser_witness_part aw ver 0 ins outs)) s = Inr (tx, r) \<longleftrightarrow>
   aw \<and> (\<exists>t. s = ser_word (0 :: uint8) @ t \<and> q t = Inr (tx, r)) \<or>
   \<not> (vin tx = [] \<and> aw) \<and> wf_parts tx \<and> txVersion tx = ver \<and> \<not> HasWitness tx \<and>
     s = ser_vector ser_txin (vin tx) @ ser_vector ser_txout (vout tx) @ ser_word (nLockTime tx) @ r"
  (is "?lhs \<longleftrightarrow> ?a \<or> ?b")
proof -
  have tail: "rd_bind (unser_vector unser_txout) (\<lambda>outs. unser_witness_part aw ver 0 ins outs) t = Inr (tx, r) \<longleftrightarrow>
      vin tx = ins \<and> length (vout tx) \<le> unat MAX_SIZE \<and> (\<forall>t \<in> set (vout tx). wf_txout t) \<and>
      txVersion tx = ver \<and> t = ser_vector ser_txout (vout tx) @ ser_word (nLockTime tx) @ r"
    if "\<forall>i \<in> set ins. scriptWitness i = []" for ins t
  proof -
    have "unser_witness_part aw ver 0 ins outs u = Inr (tx, r) \<longleftrightarrow>
        vout tx = outs \<and> txVersion tx = ver \<and> vin tx = ins \<and> u = ser_word (nLockTime tx) @ r" for outs u
      unfolding unser_witness_part_iff [OF that] strip_no_witness [OF that, symmetric] by auto
    then show ?thesis unfolding vout.unser_bind by auto
  qed
  show ?thesis
  proof
    assume ?lhs
    then obtain ins t where ins: "length ins \<le> unat MAX_SIZE" "\<forall>i \<in> set ins. wf_txin i"
      "\<forall>i \<in> set ins. scriptWitness i = []" and s: "s = ser_vector ser_txin ins @ t"
      and rest: "(if ins = [] \<and> aw then q else
        rd_bind (unser_vector unser_txout) (\<lambda>outs. unser_witness_part aw ver 0 ins outs)) t = Inr (tx, r)"
      unfolding vin.unser_bind by blast
    show "?a \<or> ?b"
    proof (cases "ins = [] \<and> aw")
      case True
      with s rest show ?thesis by (simp add: ser_vector_Nil)
    next
      case False
      with rest tail [OF ins(3), of t] ins s show ?thesis
        by (simp add: wf_parts_def HasWitness_def list_ex_iff)
    qed
  next
    have "?lhs" if ?b
      unfolding vin.unser_bind using that tail [of "vin tx"]
      by (intro exI [of _ "vin tx"]) (auto simp: wf_parts_def HasWitness_def list_ex_iff)
    moreover have "?lhs" if ?a
      unfolding vin.unser_bind using that by - (rule exI [of _ "[]"], auto simp: ser_vector_Nil)
    ultimately show "?a \<or> ?b \<Longrightarrow> ?lhs" by blast
  qed
qed

lemma unser_extended_iff:
  "rd_bind (unser_vector unser_txin) (\<lambda>ins. rd_bind (unser_vector unser_txout) (\<lambda>outs.
     unser_witness_part aw ver flags ins outs)) s = Inr (tx, r) \<longleftrightarrow>
   wf_parts tx \<and> txVersion tx = ver \<and>
   (flags = 0 \<and> \<not> HasWitness tx \<and>
      s = ser_vector ser_txin (vin tx) @ ser_vector ser_txout (vout tx) @ ser_word (nLockTime tx) @ r \<or>
    flags = 1 \<and> aw \<and> HasWitness tx \<and> (\<forall>i \<in> set (vin tx). wf_stack (scriptWitness i)) \<and>
      s = ser_vector ser_txin (vin tx) @ ser_vector ser_txout (vout tx) @
          concat (map (\<lambda>i. ser_stack (scriptWitness i)) (vin tx)) @ ser_word (nLockTime tx) @ r)"
  (is "?lhs \<longleftrightarrow> ?rhs")
proof
  assume ?lhs
  then obtain ins outs w where ins: "length ins \<le> unat MAX_SIZE" "\<forall>i \<in> set ins. wf_txin i"
    and nw: "\<forall>i \<in> set ins. scriptWitness i = []"
    and outs: "length outs \<le> unat MAX_SIZE" "\<forall>t \<in> set outs. wf_txout t"
    and s: "s = ser_vector ser_txin ins @ ser_vector ser_txout outs @ w"
    and part: "unser_witness_part aw ver flags ins outs w = Inr (tx, r)"
    unfolding vin.unser_bind vout.unser_bind by blast
  from part have eqs: "vout tx = outs" "txVersion tx = ver" "ins = map strip_witness (vin tx)"
    unfolding unser_witness_part_iff [OF nw] by blast+
  have wf: "wf_parts tx"
    using ins outs unfolding wf_parts_def eqs(1,3) by (simp add: ser_txin_strip)
  have w: "flags = 0 \<and> \<not> HasWitness tx \<and> w = ser_word (nLockTime tx) @ r \<or>
      flags = 1 \<and> aw \<and> HasWitness tx \<and> (\<forall>i \<in> set (vin tx). wf_stack (scriptWitness i)) \<and>
      w = concat (map (\<lambda>i. ser_stack (scriptWitness i)) (vin tx)) @ ser_word (nLockTime tx) @ r"
    using part unfolding unser_witness_part_iff [OF nw] by blast
  have "s = ser_vector ser_txin (vin tx) @ ser_vector ser_txout (vout tx) @ w"
    unfolding s eqs(3) ser_vector_strip eqs(1) ..
  with w show ?rhs using wf eqs(2) by (elim disjE conjE) simp_all
next
  assume rhs: ?rhs
  let ?ins = "map strip_witness (vin tx)"
  have valid: "length ?ins \<le> unat MAX_SIZE \<and> (\<forall>x \<in> set ?ins. wf_txin x \<and> scriptWitness x = [])"
    "length (vout tx) \<le> unat MAX_SIZE \<and> (\<forall>t \<in> set (vout tx). wf_txout t)"
    using rhs by (simp_all add: wf_parts_def ser_txin_strip)
  have nw: "\<forall>x \<in> set ?ins. scriptWitness x = []" by simp
  obtain w where s: "s = ser_vector ser_txin ?ins @ ser_vector ser_txout (vout tx) @ w"
    and w: "flags = 0 \<and> \<not> HasWitness tx \<and> w = ser_word (nLockTime tx) @ r \<or>
      flags = 1 \<and> aw \<and> HasWitness tx \<and> (\<forall>i \<in> set (vin tx). wf_stack (scriptWitness i)) \<and>
      w = concat (map (\<lambda>i. ser_stack (scriptWitness i)) (vin tx)) @ ser_word (nLockTime tx) @ r"
    using rhs unfolding ser_vector_strip by blast
  have "unser_witness_part aw ver flags ?ins (vout tx) w = Inr (tx, r)"
    unfolding unser_witness_part_iff [OF nw] using w rhs by blast
  then show ?lhs
    unfolding vin.unser_bind vout.unser_bind using valid s by blast
qed

lemma unser_inputs_iff:
  "unser_inputs aw ver s = Inr (tx, r) \<longleftrightarrow>
     wf_parts tx \<and> txVersion tx = ver \<and>
     (\<not> HasWitness tx \<and> (aw \<longrightarrow> vin tx = [] \<longrightarrow> vout tx = []) \<and>
        s = ser_vector ser_txin (vin tx) @ ser_vector ser_txout (vout tx) @ ser_word (nLockTime tx) @ r \<or>
      HasWitness tx \<and> aw \<and> (\<forall>i \<in> set (vin tx). wf_stack (scriptWitness i)) \<and>
        s = ser_word (0 :: uint8) @ ser_word (1 :: uint8) @ ser_vector ser_txin (vin tx) @
            ser_vector ser_txout (vout tx) @ concat (map (\<lambda>i. ser_stack (scriptWitness i)) (vin tx)) @
            ser_word (nLockTime tx) @ r)"
proof -
  let ?q = "rd_bind unser_word (\<lambda>flags :: uint8.
      if flags \<noteq> 0
      then rd_bind (unser_vector unser_txin) (\<lambda>ins.
           rd_bind (unser_vector unser_txout) (\<lambda>outs. unser_witness_part aw ver flags ins outs))
      else unser_witness_part aw ver flags [] [])"
  have empty: "unser_witness_part aw ver 0 [] [] u = Inr (tx, r) \<longleftrightarrow>
      vin tx = [] \<and> vout tx = [] \<and> txVersion tx = ver \<and> u = ser_word (nLockTime tx) @ r" for u
    by (auto simp: unser_witness_part_iff HasWitness_def)
  let ?w = "ser_vector ser_txin (vin tx) @ ser_vector ser_txout (vout tx) @
          concat (map (\<lambda>i. ser_stack (scriptWitness i)) (vin tx)) @ ser_word (nLockTime tx) @ r"
  let ?ok = "HasWitness tx \<and> aw \<and> wf_parts tx \<and> txVersion tx = ver \<and> (\<forall>i \<in> set (vin tx). wf_stack (scriptWitness i))"
  define R where "R f u \<longleftrightarrow> rd_bind (unser_vector unser_txin) (\<lambda>ins. rd_bind (unser_vector unser_txout) (\<lambda>outs.
      unser_witness_part aw ver f ins outs)) u = Inr (tx, r)" for f u
  have flagged: "f \<noteq> 0 \<and> R f u \<longleftrightarrow> f = 1 \<and> u = ?w \<and> ?ok" for f u
    unfolding R_def unser_extended_iff by auto
  have "?q t = Inr (tx, r) \<longleftrightarrow>
      (\<exists>u. t = ser_word (0 :: uint8) @ u \<and> unser_witness_part aw ver 0 [] [] u = Inr (tx, r)) \<or>
      (\<exists>f u. t = ser_word f @ u \<and> f \<noteq> 0 \<and> R f u)" for t
    unfolding ser8.unser_bind R_def by (auto split: if_splits)
  also have "\<dots> t \<longleftrightarrow>
      vin tx = [] \<and> vout tx = [] \<and> txVersion tx = ver \<and> t = ser_word (0 :: uint8) @ ser_word (nLockTime tx) @ r \<or>
      ?ok \<and> t = ser_word (1 :: uint8) @ ?w" for t
    unfolding empty flagged by auto
  finally have ext: "?q t = Inr (tx, r) \<longleftrightarrow>
      vin tx = [] \<and> vout tx = [] \<and> txVersion tx = ver \<and> t = ser_word (0 :: uint8) @ ser_word (nLockTime tx) @ r \<or>
      ?ok \<and> t = ser_word (1 :: uint8) @ ?w" for t .
  show ?thesis
    unfolding unser_inputs_def unser_plain_iff ext
    by (auto simp: wf_parts_def HasWitness_def ser_vector_Nil)
qed

lemma UnserializeTransaction_iff:
  "UnserializeTransaction aw s = Inr (tx, r) \<longleftrightarrow> wf_tx aw tx \<and> s = SerializeTransaction aw tx @ r"
proof -
  have "UnserializeTransaction aw s = Inr (tx, r) \<longleftrightarrow>
      (\<exists>ver t. is_int32 ver \<and> s = ser_int32 ver @ t \<and> unser_inputs aw ver t = Inr (tx, r))"
    unfolding UnserializeTransaction_def ser_i32.unser_bind unser_inputs_def by simp
  also have "\<dots> \<longleftrightarrow> wf_tx aw tx \<and> s = SerializeTransaction aw tx @ r"
    by (cases "aw \<and> HasWitness tx")
      (auto simp: unser_inputs_iff wf_tx_def wf_parts_def SerializeTransaction_plain SerializeTransaction_witness
        HasWitness_def list_ex_iff wf_stack_def)
  finally show ?thesis .
qed

interpretation tx_witness: codec "SerializeTransaction True" "UnserializeTransaction True" "wf_tx True"
  by unfold_locales (rule UnserializeTransaction_iff)

interpretation tx_no_witness: codec "SerializeTransaction False" "UnserializeTransaction False" "wf_tx False"
  by unfold_locales (rule UnserializeTransaction_iff)

section \<open>Properties\<close>

text \<open>
  C8: The transaction codec. In both formats, with and without witness data,
  \<open>UnserializeTransaction\<close> accepts exactly the serialisations of well-formed transactions
  followed by any rest, and returns that transaction and that rest: serialising and reading
  back is the identity, and no two byte strings decode to the same transaction.
\<close>

theorem transaction_codec:
  "UnserializeTransaction aw s = Inr (tx, r) \<longleftrightarrow> wf_tx aw tx \<and> s = SerializeTransaction aw tx @ r"
  by (rule UnserializeTransaction_iff)

end
