(* ===== verification/Tx_Check.thy ===== *)
theory Tx_Check
  imports Transaction Consensus_Params
begin

text \<open>
  Context-free transaction checks (\<open>src/consensus/tx_check.cpp\<close>, \<open>amount.h\<close>), output sums and
  weights (\<open>src/primitives/transaction.cpp\<close>, \<open>src/consensus/validation.h\<close>), and the lock-time
  rules of \<open>src/consensus/tx_verify.cpp\<close>. A rejection is a value: the validation result and the
  reject reason the code passes to \<open>state.Invalid\<close>.
\<close>

section \<open>Amounts and constants\<close>

definition COIN :: int where "COIN = 100000000"
definition MAX_MONEY :: int where "MAX_MONEY = 21000000 * COIN"

definition MoneyRange :: "int \<Rightarrow> bool" where
  "MoneyRange v \<longleftrightarrow> v \<ge> 0 \<and> v \<le> MAX_MONEY"

definition MAX_BLOCK_WEIGHT :: nat where "MAX_BLOCK_WEIGHT = 4000000"
definition WITNESS_SCALE_FACTOR :: nat where "WITNESS_SCALE_FACTOR = 4"
definition MAX_BLOCK_SIGOPS_COST :: int where "MAX_BLOCK_SIGOPS_COST = 80000"
definition COINBASE_MATURITY :: int where "COINBASE_MATURITY = 100"
definition LOCKTIME_THRESHOLD :: int where "LOCKTIME_THRESHOLD = 500000000"

datatype TxValidationResult = TX_RESULT_UNSET | TX_CONSENSUS | TX_RECENT_CONSENSUS_CHANGE
  | TX_INPUTS_NOT_STANDARD | TX_NOT_STANDARD | TX_MISSING_INPUTS | TX_PREMATURE_SPEND
  | TX_WITNESS_MUTATED | TX_WITNESS_STRIPPED | TX_CONFLICT | TX_MEMPOOL_POLICY | TX_NO_MEMPOOL
  | TX_RECONSIDERABLE | TX_UNKNOWN

type_synonym 'a tx_check = "TxValidationResult \<times> string + 'a"

section \<open>Hashes, weights and sums\<close>

definition tx_GetHash :: "(bytes \<Rightarrow> uint256) \<Rightarrow> CTransaction \<Rightarrow> uint256" where
  "tx_GetHash Hash tx = Hash (SerializeTransaction False tx)"

definition GetWitnessHash :: "(bytes \<Rightarrow> uint256) \<Rightarrow> CTransaction \<Rightarrow> uint256" where
  "GetWitnessHash Hash tx =
     (if \<not> HasWitness tx then tx_GetHash Hash tx else Hash (SerializeTransaction True tx))"

definition GetTotalSize :: "CTransaction \<Rightarrow> nat" where
  "GetTotalSize tx = length (SerializeTransaction True tx)"

definition GetTransactionWeight :: "CTransaction \<Rightarrow> nat" where
  "GetTransactionWeight tx =
     length (SerializeTransaction False tx) * (WITNESS_SCALE_FACTOR - 1) + length (SerializeTransaction True tx)"

primrec value_out_loop :: "int \<Rightarrow> CTxOut list \<Rightarrow> int option" where
  "value_out_loop nValueOut [] = (if MoneyRange nValueOut then Some nValueOut else None)"
| "value_out_loop nValueOut (t # ts) =
     (if \<not> MoneyRange (nValue t) \<or> \<not> MoneyRange (nValueOut + nValue t) then None
      else value_out_loop (nValueOut + nValue t) ts)"

definition GetValueOut :: "CTransaction \<Rightarrow> int option" where
  "GetValueOut tx = value_out_loop 0 (vout tx)"

section \<open>CheckTransaction\<close>

primrec check_outputs :: "int \<Rightarrow> CTxOut list \<Rightarrow> unit tx_check" where
  "check_outputs nValueOut [] = Inr ()"
| "check_outputs nValueOut (t # ts) =
     (if nValue t < 0 then Inl (TX_CONSENSUS, ''bad-txns-vout-negative'')
      else if nValue t > MAX_MONEY then Inl (TX_CONSENSUS, ''bad-txns-vout-toolarge'')
      else if \<not> MoneyRange (nValueOut + nValue t) then Inl (TX_CONSENSUS, ''bad-txns-txouttotal-toolarge'')
      else check_outputs (nValueOut + nValue t) ts)"

primrec has_duplicate_input :: "COutPoint set \<Rightarrow> CTxIn list \<Rightarrow> bool" where
  "has_duplicate_input vInOutPoints [] = False"
| "has_duplicate_input vInOutPoints (i # ins) =
     (if prevout i \<in> vInOutPoints then True
      else has_duplicate_input (insert (prevout i) vInOutPoints) ins)"

definition CheckTransaction :: "CTransaction \<Rightarrow> unit tx_check" where
  "CheckTransaction tx =
     (if vin tx = [] then Inl (TX_CONSENSUS, ''bad-txns-vin-empty'')
      else if vout tx = [] then Inl (TX_CONSENSUS, ''bad-txns-vout-empty'')
      else if length (SerializeTransaction False tx) * WITNESS_SCALE_FACTOR > MAX_BLOCK_WEIGHT
      then Inl (TX_CONSENSUS, ''bad-txns-oversize'')
      else case check_outputs 0 (vout tx) of
             Inl e \<Rightarrow> Inl e
           | Inr _ \<Rightarrow>
               if has_duplicate_input {} (vin tx) then Inl (TX_CONSENSUS, ''bad-txns-inputs-duplicate'')
               else if IsCoinBase tx
               then if length (scriptSig (vin tx ! 0)) < 2 \<or> length (scriptSig (vin tx ! 0)) > 100
                    then Inl (TX_CONSENSUS, ''bad-cb-length'') else Inr ()
               else if list_ex (\<lambda>i. outpoint_IsNull (prevout i)) (vin tx)
                    then Inl (TX_CONSENSUS, ''bad-txns-prevout-null'') else Inr ())"

lemma value_out_loop_iff:
  assumes "0 \<le> a"
  shows "value_out_loop a ts = Some v \<longleftrightarrow>
    (\<forall>t \<in> set ts. MoneyRange (nValue t)) \<and> v = a + sum_list (map nValue ts) \<and> MoneyRange v"
  using assms
proof (induction ts arbitrary: a)
  case (Cons t ts)
  have nonneg: "0 \<le> sum_list (map nValue ts)" if "\<forall>t \<in> set ts. MoneyRange (nValue t)"
    using that by (intro sum_list_nonneg) (auto simp: MoneyRange_def)
  show ?case
    using Cons.IH [of "a + nValue t"] Cons.prems nonneg by (auto simp: MoneyRange_def)
qed auto

lemma check_outputs_iff:
  assumes "0 \<le> a" "MoneyRange a"
  shows "check_outputs a ts = Inr () \<longleftrightarrow>
    (\<forall>t \<in> set ts. MoneyRange (nValue t)) \<and> MoneyRange (a + sum_list (map nValue ts))"
  using assms
proof (induction ts arbitrary: a)
  case (Cons t ts)
  have nonneg: "0 \<le> sum_list (map nValue ts)" if "\<forall>t \<in> set ts. MoneyRange (nValue t)"
    using that by (intro sum_list_nonneg) (auto simp: MoneyRange_def)
  show ?case
    using Cons.IH [of "a + nValue t"] Cons.prems nonneg by (auto simp: MoneyRange_def algebra_simps)
qed auto

lemma has_duplicate_input_iff:
  "has_duplicate_input S ins \<longleftrightarrow> \<not> (distinct (map prevout ins) \<and> prevout ` set ins \<inter> S = {})"
  by (induction ins arbitrary: S) auto

lemma CheckTransaction_iff:
  "CheckTransaction tx = Inr () \<longleftrightarrow>
     vin tx \<noteq> [] \<and> vout tx \<noteq> [] \<and> length (SerializeTransaction False tx) \<le> 1000000 \<and>
     (\<forall>t \<in> set (vout tx). MoneyRange (nValue t)) \<and> MoneyRange (sum_list (map nValue (vout tx))) \<and>
     distinct (map prevout (vin tx)) \<and>
     (if IsCoinBase tx then length (scriptSig (vin tx ! 0)) \<in> {2..100}
      else \<forall>i \<in> set (vin tx). \<not> outpoint_IsNull (prevout i))"
proof -
  have m0: "MoneyRange 0" by (simp add: MoneyRange_def MAX_MONEY_def COIN_def)
  show ?thesis
  proof (cases "check_outputs 0 (vout tx)")
    case (Inl e)
    with check_outputs_iff [of 0 "vout tx"] m0 show ?thesis
      by (auto simp: CheckTransaction_def)
  next
    case (Inr u)
    with check_outputs_iff [of 0 "vout tx"] m0 show ?thesis
      by (auto simp: CheckTransaction_def has_duplicate_input_iff MAX_BLOCK_WEIGHT_def
          WITNESS_SCALE_FACTOR_def list_ex_iff)
  qed
qed

text \<open>A transaction that passes has an output sum: \<open>GetValueOut\<close> does not throw.\<close>

lemma CheckTransaction_GetValueOut:
  assumes "CheckTransaction tx = Inr ()"
  shows "GetValueOut tx = Some (sum_list (map nValue (vout tx)))"
  using assms by (simp add: CheckTransaction_iff GetValueOut_def value_out_loop_iff)

section \<open>Lock times\<close>

definition IsFinalTx :: "CTransaction \<Rightarrow> int \<Rightarrow> int \<Rightarrow> bool" where
  "IsFinalTx tx nBlockHeight nBlockTime =
     (if nLockTime tx = 0 then True
      else if uint (nLockTime tx) <
              (if uint (nLockTime tx) < LOCKTIME_THRESHOLD then nBlockHeight else nBlockTime)
      then True
      else list_all (\<lambda>i. nSequence i = SEQUENCE_FINAL) (vin tx))"

lemma IsFinalTx_mono:
  "IsFinalTx tx h t \<Longrightarrow> h \<le> h' \<Longrightarrow> t \<le> t' \<Longrightarrow> IsFinalTx tx h' t'"
  by (auto simp: IsFinalTx_def split: if_splits)

definition LOCKTIME_VERIFY_SEQUENCE :: uint32 where "LOCKTIME_VERIFY_SEQUENCE = 1"

text \<open>
  The loop of \<open>CalculateSequenceLocks\<close>: the two running maxima, and \<open>prevHeights\<close>, which the
  code zeroes where the input is exempt.
\<close>

fun sequence_lock_loop ::
  "block_map \<Rightarrow> block_ptr \<Rightarrow> CTxIn list \<Rightarrow> int list \<Rightarrow> int \<times> int \<Rightarrow> ((int \<times> int) \<times> int list) option" where
  "sequence_lock_loop H block [] hs lp = Some (lp, hs)"
| "sequence_lock_loop H block (i # ins) [] lp = None"
| "sequence_lock_loop H block (i # ins) (nCoinHeight # hs) (nMinHeight, nMinTime) =
     (if nSequence i AND SEQUENCE_LOCKTIME_DISABLE_FLAG \<noteq> 0
      then map_option (\<lambda>(lp, hs'). (lp, 0 # hs')) (sequence_lock_loop H block ins hs (nMinHeight, nMinTime))
      else if nSequence i AND SEQUENCE_LOCKTIME_TYPE_FLAG \<noteq> 0
      then do {
        anc \<leftarrow> GetAncestor H block (max (nCoinHeight - 1) 0);
        a \<leftarrow> anc;
        nCoinTime \<leftarrow> GetMedianTimePast H a;
        (lp, hs') \<leftarrow> sequence_lock_loop H block ins hs
          (nMinHeight,
           max nMinTime
             (nCoinTime + uint (push_bit SEQUENCE_LOCKTIME_GRANULARITY (nSequence i AND SEQUENCE_LOCKTIME_MASK)) - 1));
        Some (lp, nCoinHeight # hs')
      }
      else do {
        (lp, hs') \<leftarrow> sequence_lock_loop H block ins hs
          (max nMinHeight (nCoinHeight + uint (nSequence i AND SEQUENCE_LOCKTIME_MASK) - 1), nMinTime);
        Some (lp, nCoinHeight # hs')
      })"

definition CalculateSequenceLocks ::
  "block_map \<Rightarrow> CTransaction \<Rightarrow> uint32 \<Rightarrow> int list \<Rightarrow> block_ptr \<Rightarrow> ((int \<times> int) \<times> int list) option" where
  "CalculateSequenceLocks H tx flags prevHeights block =
     (if length prevHeights \<noteq> length (vin tx) then None
      else if \<not> ((word_of_int (txVersion tx) :: uint32) \<ge> 2 \<and> flags AND LOCKTIME_VERIFY_SEQUENCE \<noteq> 0)
      then Some ((-1, -1), prevHeights)
      else sequence_lock_loop H block (vin tx) prevHeights (-1, -1))"

definition EvaluateSequenceLocks :: "block_map \<Rightarrow> block_ptr \<Rightarrow> int \<times> int \<Rightarrow> bool option" where
  "EvaluateSequenceLocks H block lockPair = do {
     b \<leftarrow> H block;
     q \<leftarrow> pprev b;
     nBlockTime \<leftarrow> GetMedianTimePast H q;
     Some (\<not> (fst lockPair \<ge> nHeight b \<or> snd lockPair \<ge> nBlockTime))
   }"

definition SequenceLocks :: "block_map \<Rightarrow> CTransaction \<Rightarrow> uint32 \<Rightarrow> int list \<Rightarrow> block_ptr \<Rightarrow> bool option" where
  "SequenceLocks H tx flags prevHeights block = do {
     (lp, hs) \<leftarrow> CalculateSequenceLocks H tx flags prevHeights block;
     EvaluateSequenceLocks H block lp
   }"

text \<open>BIP 68, input by input: what one relative lock demands of height and time.\<close>

definition input_unlocked :: "block_map \<Rightarrow> block_ptr \<Rightarrow> int \<Rightarrow> int \<Rightarrow> CTxIn \<Rightarrow> int \<Rightarrow> bool" where
  "input_unlocked H block height mtp i coinHeight \<longleftrightarrow>
     nSequence i AND SEQUENCE_LOCKTIME_DISABLE_FLAG \<noteq> 0 \<or>
     (if nSequence i AND SEQUENCE_LOCKTIME_TYPE_FLAG \<noteq> 0
      then \<exists>a t. GetAncestor H block (max (coinHeight - 1) 0) = Some (Some a) \<and> GetMedianTimePast H a = Some t \<and>
             t + 512 * uint (nSequence i AND SEQUENCE_LOCKTIME_MASK) \<le> mtp
      else coinHeight + uint (nSequence i AND SEQUENCE_LOCKTIME_MASK) \<le> height)"

lemma push_bit_granularity:
  "uint (push_bit SEQUENCE_LOCKTIME_GRANULARITY (s AND SEQUENCE_LOCKTIME_MASK)) = 512 * uint (s AND SEQUENCE_LOCKTIME_MASK)"
proof -
  have "s AND SEQUENCE_LOCKTIME_MASK = take_bit 16 s"
    by (simp add: SEQUENCE_LOCKTIME_MASK_def take_bit_eq_mask mask_eq_exp_minus_1)
  moreover have "uint (take_bit 16 s) < 65536"
    using take_bit_int_less_exp [of 16 "uint s"] by (simp only: unsigned_take_bit_eq) simp
  ultimately show ?thesis
    by (simp only: SEQUENCE_LOCKTIME_GRANULARITY_def unsigned_push_bit_eq)
       (simp add: push_bit_eq_mult take_bit_int_eq_self)
qed

lemma sequence_lock_loop_ok:
  assumes wf: "wf_index H" and b: "H block = Some b"
  shows "length hs = length ins \<Longrightarrow> \<forall>h \<in> set hs. h \<le> nHeight b + 1 \<Longrightarrow>
    \<exists>mh' mt' hs'. sequence_lock_loop H block ins hs (mh, mt) = Some ((mh', mt'), hs') \<and>
      (mh' < height \<and> mt' < mtp \<longleftrightarrow>
       mh < height \<and> mt < mtp \<and> (\<forall>(i, h) \<in> set (zip ins hs). input_unlocked H block height mtp i h))"
proof (induction ins hs arbitrary: mh mt rule: list_induct2')
  case (4 i ins h hs)
  have len: "length hs = length ins" and hs: "\<forall>h \<in> set hs. h \<le> nHeight b + 1" and h: "h \<le> nHeight b + 1"
    using "4.prems" by auto
  note IH = "4.IH" [OF len hs]
  consider (off) "nSequence i AND SEQUENCE_LOCKTIME_DISABLE_FLAG \<noteq> 0"
    | (time) "nSequence i AND SEQUENCE_LOCKTIME_DISABLE_FLAG = 0" "nSequence i AND SEQUENCE_LOCKTIME_TYPE_FLAG \<noteq> 0"
    | (height) "nSequence i AND SEQUENCE_LOCKTIME_DISABLE_FLAG = 0" "nSequence i AND SEQUENCE_LOCKTIME_TYPE_FLAG = 0"
    by blast
  then show ?case
  proof cases
    case off
    with IH [of mh mt] show ?thesis by (fastforce simp: input_unlocked_def [of _ _ _ _ i])
  next
    case time
    let ?h = "max (h - 1) 0" and ?v = "512 * uint (nSequence i AND SEQUENCE_LOCKTIME_MASK)"
    have "0 \<le> ?h" "?h \<le> nHeight b" using h wf_height_nonneg [OF wf b] by auto
    from GetAncestor_prev_n [OF wf b this] obtain a c where a: "GetAncestor H block ?h = Some (Some a)" "H a = Some c" .
    obtain t where t: "GetMedianTimePast H a = Some t"
      using median_times_total [OF wf a(2), of nMedianTimeSpan "[]"] by (auto simp: GetMedianTimePast_def)
    have iu: "input_unlocked H block height mtp i h \<longleftrightarrow> t + ?v \<le> mtp"
      using time a t by (simp add: input_unlocked_def)
    from IH [of mh "max mt (t + ?v - 1)"] obtain mh' mt' hs' where r:
      "sequence_lock_loop H block ins hs (mh, max mt (t + ?v - 1)) = Some ((mh', mt'), hs')"
      "mh' < height \<and> mt' < mtp \<longleftrightarrow> mh < height \<and> max mt (t + ?v - 1) < mtp \<and>
         (\<forall>(i, h) \<in> set (zip ins hs). input_unlocked H block height mtp i h)" by blast
    have "sequence_lock_loop H block (i # ins) (h # hs) (mh, mt) = Some ((mh', mt'), h # hs')"
      using time a(1) t r(1) by (simp add: push_bit_granularity del: push_bit_and)
    with r(2) iu show ?thesis by auto
  next
    case height
    let ?v = "uint (nSequence i AND SEQUENCE_LOCKTIME_MASK)"
    have iu: "input_unlocked H block height mtp i h \<longleftrightarrow> h + ?v \<le> height"
      using height by (simp add: input_unlocked_def)
    from IH [of "max mh (h + ?v - 1)" mt] obtain mh' mt' hs' where r:
      "sequence_lock_loop H block ins hs (max mh (h + ?v - 1), mt) = Some ((mh', mt'), hs')"
      "mh' < height \<and> mt' < mtp \<longleftrightarrow> max mh (h + ?v - 1) < height \<and> mt < mtp \<and>
         (\<forall>(i, h) \<in> set (zip ins hs). input_unlocked H block height mtp i h)" by blast
    have "sequence_lock_loop H block (i # ins) (h # hs) (mh, mt) = Some ((mh', mt'), h # hs')"
      using height r(1) by simp
    with r(2) iu show ?thesis by auto
  qed
qed simp_all

lemma SequenceLocks_iff:
  assumes wf: "wf_index H" and b: "H block = Some b" "pprev b = Some q" and mtp: "GetMedianTimePast H q = Some mtp"
    and nonneg: "0 \<le> mtp" and hs: "length hs = length (vin tx)" "\<forall>h \<in> set hs. h \<le> nHeight b + 1"
    and enforce: "(word_of_int (txVersion tx) :: uint32) \<ge> 2" "flags AND LOCKTIME_VERIFY_SEQUENCE \<noteq> 0"
  shows "SequenceLocks H tx flags hs block =
    Some (\<forall>(i, h) \<in> set (zip (vin tx) hs). input_unlocked H block (nHeight b) mtp i h)"
proof -
  have h0: "0 \<le> nHeight b" by (rule wf_height_nonneg [OF wf b(1)])
  from sequence_lock_loop_ok [OF wf b(1) hs, of "-1" "-1" "nHeight b" mtp]
  obtain mh' mt' hs' where r: "sequence_lock_loop H block (vin tx) hs (-1, -1) = Some ((mh', mt'), hs')"
    "mh' < nHeight b \<and> mt' < mtp \<longleftrightarrow>
       - 1 < nHeight b \<and> - 1 < mtp \<and>
       (\<forall>(i, h) \<in> set (zip (vin tx) hs). input_unlocked H block (nHeight b) mtp i h)" by blast
  have "CalculateSequenceLocks H tx flags hs block = Some ((mh', mt'), hs')"
    using hs(1) enforce r(1) by (simp add: CalculateSequenceLocks_def)
  then show ?thesis
    using b mtp r(2) h0 nonneg by (simp add: SequenceLocks_def EvaluateSequenceLocks_def not_le)
qed

section \<open>Properties\<close>

text \<open>
  C26: \<open>CheckTransaction\<close>. A transaction passes exactly when it has inputs and outputs, its
  serialisation without witness has at most 1,000,000 bytes, each output and their sum are in
  the money range, no outpoint is spent twice, and, for a coinbase, the script has 2 to 100
  bytes, for any other transaction no input is null. In that case \<open>GetValueOut\<close> does not throw.
\<close>

theorem CheckTransaction_correct:
  "(CheckTransaction tx = Inr () \<longleftrightarrow>
     vin tx \<noteq> [] \<and> vout tx \<noteq> [] \<and> length (SerializeTransaction False tx) \<le> 1000000 \<and>
     (\<forall>t \<in> set (vout tx). MoneyRange (nValue t)) \<and> MoneyRange (sum_list (map nValue (vout tx))) \<and>
     distinct (map prevout (vin tx)) \<and>
     (if IsCoinBase tx then length (scriptSig (vin tx ! 0)) \<in> {2..100}
      else \<forall>i \<in> set (vin tx). \<not> outpoint_IsNull (prevout i))) \<and>
   (CheckTransaction tx = Inr () \<longrightarrow> GetValueOut tx = Some (sum_list (map nValue (vout tx))))"
  using CheckTransaction_iff CheckTransaction_GetValueOut by blast

definition example_coinbase :: CTransaction where
  "example_coinbase =
     \<lparr>vin = [\<lparr>prevout = \<lparr>op_hash = uint256_zero, op_n = NULL_INDEX\<rparr>, scriptSig = [1, 2], nSequence = 0, scriptWitness = []\<rparr>],
      vout = [\<lparr>nValue = 5000000000, scriptPubKey = []\<rparr>], txVersion = 1, nLockTime = 0\<rparr>"

lemma length_example_coinbase: "length (SerializeTransaction False example_coinbase) = 62"
  by (simp add: example_coinbase_def SerializeTransaction_def ser_vector_def ser_txin_def ser_txout_def ser_outpoint_def
      ser_bytes_def length_WriteCompactSize GetSizeOfCompactSize_def ser_word_def ser_int32_def ser_int64_def uint256_zero_def)

theorem CheckTransaction_correct_witness:
  "CheckTransaction example_coinbase = Inr () \<and> GetValueOut example_coinbase = Some 5000000000"
proof -
  have "IsCoinBase example_coinbase"
    by (simp add: IsCoinBase_def example_coinbase_def outpoint_IsNull_def IsNull_def uint256_zero_def list_all_iff)
  with CheckTransaction_correct [of example_coinbase] length_example_coinbase show ?thesis
    by (simp add: example_coinbase_def MoneyRange_def MAX_MONEY_def COIN_def)
qed

text \<open>
  C35: \<open>SequenceLocks\<close> (BIP 68). For a version 2 transaction under the sequence flag, on a
  well-formed index and with coins of heights not above the block's, the lock computation does
  not fail an assertion or dereference null, and its answer, computed from two running maxima,
  is that every input's own relative lock is satisfied.
\<close>

theorem SequenceLocks_correct:
  assumes "wf_index H" "H block = Some b" "pprev b = Some q" "GetMedianTimePast H q = Some mtp"
    "0 \<le> mtp" "length hs = length (vin tx)" "\<forall>h \<in> set hs. h \<le> nHeight b + 1"
    "(word_of_int (txVersion tx) :: uint32) \<ge> 2" "flags AND LOCKTIME_VERIFY_SEQUENCE \<noteq> 0"
  shows "SequenceLocks H tx flags hs block =
    Some (\<forall>(i, h) \<in> set (zip (vin tx) hs). input_unlocked H block (nHeight b) mtp i h)"
  using SequenceLocks_iff [OF assms] .

theorem SequenceLocks_correct_witness:
  "SequenceLocks example_index (example_coinbase\<lparr>txVersion := 2\<rparr>) 1 [0] (example_hash 2) = Some True"
proof -
  have "pprev ((CBlockIndex_of_header (example_header (example_hash 1) 1600))
     \<lparr>pprev := Some (example_hash 1), pskip := Some (example_hash 1), nHeight := 1\<rparr>) = Some (example_hash 1)" by simp
  from SequenceLocks_correct [OF wf_index_example example_index_entries(2) this example_median_1,
      of "[0]" "example_coinbase\<lparr>txVersion := 2\<rparr>" 1]
  show ?thesis by (simp add: example_coinbase_def LOCKTIME_VERIFY_SEQUENCE_def input_unlocked_def)
qed

text \<open>
  Finality is monotone. A transaction that is final at a height and time stays final at
  every later height and time.
\<close>

theorem IsFinalTx_monotone:
  assumes "IsFinalTx tx h t" "h \<le> h'" "t \<le> t'"
  shows "IsFinalTx tx h' t'"
  using IsFinalTx_mono [OF assms] .

theorem IsFinalTx_monotone_witness:
  "IsFinalTx (example_coinbase\<lparr>nLockTime := 100\<rparr>) 102 0"
  by (rule IsFinalTx_monotone [of _ 101 0]) (simp_all add: IsFinalTx_def LOCKTIME_THRESHOLD_def)

end
