(* ===== verification/Subsidy.thy ===== *)
theory Subsidy
  imports Tx_Check
begin

text \<open>
  Emission (\<open>GetBlockSubsidy\<close>, \<open>GetFounderRewardForBlock\<close> and the coinbase rules of
  \<open>ConnectBlock\<close> in \<open>src/validation.cpp\<close>) and the coinbase the miner builds
  (\<open>CreateNewBlock\<close> in \<open>src/node/miner.cpp\<close>). \<open>None\<close> is a division by zero or a shift by a
  negative amount.
\<close>

section \<open>Rewards\<close>

definition GetBlockSubsidy :: "int \<Rightarrow> Params \<Rightarrow> int option" where
  "GetBlockSubsidy height params =
     (if height \<le> 1000 then Some (1 * COIN)
      else if height \<le> 2000 then Some (10 * COIN)
      else if nSubsidyHalvingInterval params = 0 then None
      else let halvings = (height - 2001) sdiv nSubsidyHalvingInterval params
           in if halvings \<ge> 64 then Some 0
              else if halvings < 0 then None
              else Some (drop_bit (nat halvings) (50 * COIN)))"

definition FOUNDER_START_HEIGHT :: int where "FOUNDER_START_HEIGHT = 2001"
definition FOUNDER_END_HEIGHT :: int where "FOUNDER_END_HEIGHT = 210000"
definition FOUNDER_PERCENT :: int where "FOUNDER_PERCENT = 5"

definition GetFounderRewardForBlock :: "int \<Rightarrow> Params \<Rightarrow> int option" where
  "GetFounderRewardForBlock height params =
     (if height < FOUNDER_START_HEIGHT then Some 0
      else if height \<ge> FOUNDER_END_HEIGHT then Some 0
      else map_option (\<lambda>blockSubsidy. blockSubsidy * FOUNDER_PERCENT sdiv 100) (GetBlockSubsidy height params))"

text \<open>
  The two coinbase rules of \<open>ConnectBlock\<close>: not more than subsidy and fees, and an output to
  the founder script while the founder reward runs.
\<close>

definition coinbase_amount_ok :: "int \<Rightarrow> int \<Rightarrow> Params \<Rightarrow> CTransaction \<Rightarrow> bool option" where
  "coinbase_amount_ok nFees height params coinbase = do {
     subsidy \<leftarrow> GetBlockSubsidy height params;
     valueOut \<leftarrow> GetValueOut coinbase;
     Some (\<not> valueOut > nFees + subsidy)
   }"

definition founder_output_ok :: "int \<Rightarrow> Params \<Rightarrow> CScript \<Rightarrow> CTransaction \<Rightarrow> bool option" where
  "founder_output_ok height params founderScript coinbase = do {
     expectedFounderReward \<leftarrow> GetFounderRewardForBlock height params;
     Some (if expectedFounderReward > 0
           then list_ex (\<lambda>t. scriptPubKey t = founderScript \<and> nValue t \<ge> expectedFounderReward) (vout coinbase)
           else True)
   }"

text \<open>
  The paying outputs of the coinbase that \<open>CreateNewBlock\<close> builds. \<open>GenerateCoinbaseCommitment\<close> later
  appends an output of value 0 with the witness commitment, which is not part of this definition.
\<close>

definition coinbase_outputs :: "int \<Rightarrow> int \<Rightarrow> Params \<Rightarrow> CScript \<Rightarrow> CScript \<Rightarrow> CTxOut list option" where
  "coinbase_outputs nFees height params scriptPubKeyIn founderScript = do {
     subsidy \<leftarrow> GetBlockSubsidy height params;
     founderReward \<leftarrow> GetFounderRewardForBlock height params;
     let blockReward = nFees + subsidy;
     Some (if founderReward > 0
           then [\<lparr>nValue = blockReward - founderReward, scriptPubKey = scriptPubKeyIn\<rparr>,
                 \<lparr>nValue = founderReward, scriptPubKey = founderScript\<rparr>]
           else [\<lparr>nValue = blockReward, scriptPubKey = scriptPubKeyIn\<rparr>])
   }"

section \<open>Schedule\<close>

definition epoch_subsidy :: "nat \<Rightarrow> int" where
  "epoch_subsidy i = 5000000000 div 2 ^ i"

lemma epoch_subsidy_64: "64 \<le> i \<Longrightarrow> epoch_subsidy i = 0"
proof -
  assume "64 \<le> i"
  then have "(2 :: int) ^ 64 \<le> 2 ^ i" by (intro power_increasing) simp_all
  then have "5000000000 < (2 :: int) ^ i" by simp
  then show ?thesis by (simp add: epoch_subsidy_def)
qed

lemma GetBlockSubsidy_epoch:
  assumes "0 < nSubsidyHalvingInterval params" "2001 \<le> height"
  shows "GetBlockSubsidy height params =
    Some (epoch_subsidy (nat ((height - 2001) div nSubsidyHalvingInterval params)))"
proof -
  let ?k = "(height - 2001) div nSubsidyHalvingInterval params"
  have k: "0 \<le> ?k" "(height - 2001) sdiv nSubsidyHalvingInterval params = ?k"
    using assms by (simp_all add: sdiv_nonneg pos_imp_zdiv_nonneg_iff)
  show ?thesis
  proof (cases "?k \<ge> 64")
    case True
    then have "64 \<le> nat ?k" by simp
    with True k assms show ?thesis
      by (simp add: GetBlockSubsidy_def Let_def epoch_subsidy_64)
  next
    case False
    with k assms show ?thesis
      by (simp add: GetBlockSubsidy_def Let_def epoch_subsidy_def drop_bit_eq_div COIN_def)
  qed
qed

lemma GetBlockSubsidy_bounds:
  assumes "0 < nSubsidyHalvingInterval params"
  shows "\<exists>s. GetBlockSubsidy height params = Some s \<and> 0 \<le> s \<and> s \<le> 50 * COIN"
proof (cases "2001 \<le> height")
  case True
  have "epoch_subsidy i \<le> 5000000000" for i
    unfolding epoch_subsidy_def using zdiv_mono2 [of 5000000000 1 "2 ^ i"] by simp
  moreover have "0 \<le> epoch_subsidy i" for i
    unfolding epoch_subsidy_def by (rule zero_le_numeral [THEN pos_imp_zdiv_nonneg_iff [THEN iffD2, rotated]]) simp
  ultimately show ?thesis using GetBlockSubsidy_epoch [OF assms True] by (simp add: COIN_def)
qed (simp add: GetBlockSubsidy_def COIN_def)

section \<open>Supply\<close>

definition block_subsidy :: "Params \<Rightarrow> int \<Rightarrow> int" where
  "block_subsidy params height = (case GetBlockSubsidy height params of None \<Rightarrow> 0 | Some s \<Rightarrow> s)"

text \<open>What the coinbases of heights 1 to \<open>n\<close> may create.\<close>

definition total_supply :: "Params \<Rightarrow> int \<Rightarrow> int" where
  "total_supply params n = (\<Sum>h \<in> {1..n}. block_subsidy params h)"

lemma sum_const_int: "a \<le> b + 1 \<Longrightarrow> (\<And>h. a \<le> h \<Longrightarrow> h \<le> b \<Longrightarrow> f h = c) \<Longrightarrow> (\<Sum>h \<in> {a..b :: int}. f h) = (b + 1 - a) * (c :: int)"
  by (subst sum.cong [OF refl, of _ _ "\<lambda>_. c"]) auto

lemma sum_int_split: "a \<le> m + 1 \<Longrightarrow> m \<le> b \<Longrightarrow> (\<Sum>h \<in> {a..b :: int}. f h) = (\<Sum>h \<in> {a..m}. f h) + (\<Sum>h \<in> {m + 1..b}. (f h :: int))"
proof -
  assume "a \<le> m + 1" "m \<le> b"
  then have "{a..b} = {a..m} \<union> {m + 1..b}" by auto
  then show ?thesis by (simp add: sum.union_disjoint)
qed

lemma supply_slow_start: "total_supply params 2000 = 11000 * COIN"
proof -
  have "(\<Sum>h \<in> {1..1000}. block_subsidy params h) = (1000 + 1 - 1) * COIN"
    by (rule sum_const_int) (simp_all add: block_subsidy_def GetBlockSubsidy_def)
  moreover have "(\<Sum>h \<in> {1000 + 1..2000}. block_subsidy params h) = (2000 + 1 - (1000 + 1)) * (10 * COIN)"
    by (rule sum_const_int) (simp_all add: block_subsidy_def GetBlockSubsidy_def)
  ultimately show ?thesis
    using sum_int_split [of 1 1000 2000 "block_subsidy params"] by (simp add: total_supply_def)
qed

lemma supply_epochs:
  assumes "0 < nSubsidyHalvingInterval params"
  shows "total_supply params (2000 + nSubsidyHalvingInterval params * int k) =
    11000 * COIN + nSubsidyHalvingInterval params * (\<Sum>i < k. epoch_subsidy i)"
proof (induction k)
  case 0
  then show ?case by (simp add: supply_slow_start)
next
  case (Suc k)
  let ?n = "nSubsidyHalvingInterval params"
  let ?a = "2000 + ?n * int k" and ?b = "2000 + ?n * int (Suc k)"
  have n: "0 < ?n" by (rule assms)
  have le: "1 \<le> ?a + 1" "?a \<le> ?b" using n by (simp_all add: algebra_simps)
  have "block_subsidy params h = epoch_subsidy k" if "?a + 1 \<le> h" "h \<le> ?b" for h
  proof -
    have "(h - 2001) div ?n = int k"
      using that n by (intro int_div_pos_eq [of _ _ _ "h - 2001 - ?n * int k"]) (simp_all add: algebra_simps)
    moreover have "0 \<le> ?n * int k" using n by simp
    ultimately show ?thesis
      using that GetBlockSubsidy_epoch [OF assms, of h] by (simp add: block_subsidy_def)
  qed
  then have "(\<Sum>h \<in> {?a + 1..?b}. block_subsidy params h) = (?b + 1 - (?a + 1)) * epoch_subsidy k"
    using le(2) by (intro sum_const_int) simp_all
  then have "total_supply params ?b = total_supply params ?a + (?b - ?a) * epoch_subsidy k"
    using sum_int_split [OF le, of "block_subsidy params"] by (simp add: total_supply_def)
  then show ?case using Suc.IH by (simp add: algebra_simps)
qed

lemma block_subsidy_nonneg: "0 < nSubsidyHalvingInterval params \<Longrightarrow> 0 \<le> block_subsidy params h"
  using GetBlockSubsidy_bounds [of params h] by (auto simp: block_subsidy_def)

lemma supply_mono: "0 < nSubsidyHalvingInterval params \<Longrightarrow> m \<le> n \<Longrightarrow> total_supply params m \<le> total_supply params n"
  unfolding total_supply_def by (rule sum_mono2) (auto intro: block_subsidy_nonneg)

text \<open>The main network, whose halving interval is 210000 blocks: 33 epochs have a subsidy.\<close>

lemma main_halving [simp]: "nSubsidyHalvingInterval (CMainParams g) = 210000"
  by (simp add: CMainParams_def)

lemma epoch_sum_33: "(\<Sum>i < 33. epoch_subsidy i) = 9999999989"
  by (simp add: epoch_subsidy_def lessThan_nat_numeral lessThan_Suc)

lemma epoch_sum_later: "33 \<le> k \<Longrightarrow> (\<Sum>i < k. epoch_subsidy i) = 9999999989"
proof (induction rule: dec_induct)
  case base
  then show ?case by (rule epoch_sum_33)
next
  case (step n)
  have "(2 :: int) ^ 33 \<le> 2 ^ n" using step.hyps by (intro power_increasing) simp_all
  then have "epoch_subsidy n = 0" unfolding epoch_subsidy_def by (intro div_pos_pos_trivial) simp_all
  with step show ?case by simp
qed

lemma main_supply_epochs:
  "33 \<le> k \<Longrightarrow> total_supply (CMainParams g) (2000 + 210000 * int k) = 2101099997690000"
  using supply_epochs [of "CMainParams g" k] by (simp add: epoch_sum_later COIN_def)

lemma main_supply_final:
  assumes "6932000 \<le> n"
  shows "total_supply (CMainParams g) n = 2101099997690000"
proof -
  obtain k :: nat where k: "33 \<le> k" "n \<le> 2000 + 210000 * int k"
    using assms by (intro that [of "nat n"]) simp_all
  have "total_supply (CMainParams g) (2000 + 210000 * int 33) \<le> total_supply (CMainParams g) n"
    using assms by (intro supply_mono) simp_all
  moreover have "total_supply (CMainParams g) n \<le> total_supply (CMainParams g) (2000 + 210000 * int k)"
    using k by (intro supply_mono) simp_all
  ultimately show ?thesis using main_supply_epochs [of 33 g] main_supply_epochs [OF k(1), of g] by simp
qed

lemma main_supply_bound: "total_supply (CMainParams g) n \<le> 2101099997690000"
proof -
  have "total_supply (CMainParams g) n \<le> total_supply (CMainParams g) (max n 6932000)"
    by (intro supply_mono) simp_all
  with main_supply_final [of "max n 6932000" g] show ?thesis by simp
qed

section \<open>Founder reward and the miner's coinbase\<close>

lemma GetFounderReward_value:
  assumes "0 < nSubsidyHalvingInterval params"
  shows "\<exists>s. GetBlockSubsidy h params = Some s \<and> GetFounderRewardForBlock h params =
    Some (if 2001 \<le> h \<and> h < 210000 then s * 5 div 100 else 0)"
proof -
  obtain s where s: "GetBlockSubsidy h params = Some s" "0 \<le> s"
    using GetBlockSubsidy_bounds [OF assms, of h] by auto
  then show ?thesis
    by (auto simp: GetFounderRewardForBlock_def FOUNDER_START_HEIGHT_def FOUNDER_END_HEIGHT_def
        FOUNDER_PERCENT_def sdiv_nonneg)
qed

text \<open>
  The miner's coinbase pays out exactly subsidy and fees, and satisfies both consensus rules.
\<close>

lemma coinbase_outputs_valid:
  assumes "0 < nSubsidyHalvingInterval params" "0 \<le> nFees" "nFees + 50 * COIN \<le> MAX_MONEY"
  shows "\<exists>outs. coinbase_outputs nFees h params minerScript founderScript = Some outs \<and>
    (\<forall>cb. vout cb = outs \<longrightarrow>
       coinbase_amount_ok nFees h params cb = Some True \<and>
       founder_output_ok h params founderScript cb = Some True \<and>
       GetValueOut cb = map_option (\<lambda>s. nFees + s) (GetBlockSubsidy h params))"
proof -
  obtain s where s: "GetBlockSubsidy h params = Some s" "0 \<le> s" "s \<le> 50 * COIN"
    using GetBlockSubsidy_bounds [OF assms(1), of h] by auto
  have "s * 5 div 100 \<le> s * 100 div 100" using s(2) by (intro zdiv_mono1) simp_all
  then obtain r where r: "GetFounderRewardForBlock h params = Some r" "0 \<le> r" "r \<le> s"
    using GetFounderReward_value [OF assms(1), of h] s by (auto split: if_splits)
  let ?outs = "if r > 0 then [\<lparr>nValue = nFees + s - r, scriptPubKey = minerScript\<rparr>,
                 \<lparr>nValue = r, scriptPubKey = founderScript\<rparr>]
           else [\<lparr>nValue = nFees + s, scriptPubKey = minerScript\<rparr>]"
  have "coinbase_outputs nFees h params minerScript founderScript = Some ?outs"
    using s(1) r(1) by (simp add: coinbase_outputs_def)
  moreover have "GetValueOut cb = Some (nFees + s)" if "vout cb = ?outs" for cb
    using that s r assms(2,3) unfolding GetValueOut_def
    by (subst value_out_loop_iff) (auto simp: MoneyRange_def)
  ultimately show ?thesis
    using s(1) r(1) by (auto simp: coinbase_amount_ok_def founder_output_ok_def)
qed

section \<open>Properties\<close>

text \<open>
  C27: Supply of the main network. The subsidies of heights 1 to \<open>n\<close> never sum to more than
  21,010,999.9769 coins, and from height 6,932,000 on the sum is exactly that: it exceeds
  \<open>MAX_MONEY\<close>, the largest amount a single output or sum of outputs may have.
\<close>

theorem main_supply:
  "total_supply (CMainParams g) n \<le> 2101099997690000 \<and>
   (6932000 \<le> n \<longrightarrow> total_supply (CMainParams g) n = 2101099997690000 \<and> MAX_MONEY < total_supply (CMainParams g) n)"
  using main_supply_bound [of g n] main_supply_final [of n g] by (simp add: MAX_MONEY_def COIN_def)

theorem main_supply_witness:
  "total_supply (CMainParams uint256_zero) 7000000 = 2101099997690000 \<and>
   MAX_MONEY < total_supply (CMainParams uint256_zero) 7000000"
  using main_supply [of uint256_zero 7000000] by simp

text \<open>
  C36: The miner's coinbase is valid. For non-negative fees within the money range, the paying
  outputs \<open>CreateNewBlock\<close> gives the coinbase amount to exactly subsidy and fees, and a coinbase with
  just these passes both rules of \<open>ConnectBlock\<close>: the amount and the founder output.
\<close>

theorem miner_coinbase_valid:
  assumes "0 < nSubsidyHalvingInterval params" "0 \<le> nFees" "nFees + 50 * COIN \<le> MAX_MONEY"
  shows "\<exists>outs. coinbase_outputs nFees h params minerScript founderScript = Some outs \<and>
    (\<forall>cb. vout cb = outs \<longrightarrow>
       coinbase_amount_ok nFees h params cb = Some True \<and>
       founder_output_ok h params founderScript cb = Some True \<and>
       GetValueOut cb = map_option (\<lambda>s. nFees + s) (GetBlockSubsidy h params))"
  using coinbase_outputs_valid [OF assms] .

theorem miner_coinbase_valid_witness:
  "\<exists>outs. coinbase_outputs 1000 2001 (CMainParams uint256_zero) [1] [2] = Some outs \<and>
    (\<forall>cb. vout cb = outs \<longrightarrow> founder_output_ok 2001 (CMainParams uint256_zero) [2] cb = Some True)"
  using miner_coinbase_valid [of "CMainParams uint256_zero" 1000 2001 "[1]" "[2]"]
  by (fastforce simp: MAX_MONEY_def COIN_def)

end
