(* ===== verification/Script.thy ===== *)
theory Script
  imports Transaction
begin

text \<open>
  Scripts (\<open>src/script/script.h\<close>, \<open>src/script/script.cpp\<close>): opcodes, script numbers, pushes, the
  decoder \<open>GetScriptOp\<close>, and the loops over a script: signature operation counts, push-only and
  template tests. A script position is the list of the bytes that remain. An opcode is a byte.
\<close>

section \<open>Opcodes\<close>

type_synonym opcodetype = uint8

abbreviation (input) OP_0 :: uint8 where "OP_0 \<equiv> 0x00"
abbreviation (input) OP_FALSE :: uint8 where "OP_FALSE \<equiv> OP_0"
abbreviation (input) OP_PUSHDATA1 :: uint8 where "OP_PUSHDATA1 \<equiv> 0x4c"
abbreviation (input) OP_PUSHDATA2 :: uint8 where "OP_PUSHDATA2 \<equiv> 0x4d"
abbreviation (input) OP_PUSHDATA4 :: uint8 where "OP_PUSHDATA4 \<equiv> 0x4e"
abbreviation (input) OP_1NEGATE :: uint8 where "OP_1NEGATE \<equiv> 0x4f"
abbreviation (input) OP_RESERVED :: uint8 where "OP_RESERVED \<equiv> 0x50"
abbreviation (input) OP_1 :: uint8 where "OP_1 \<equiv> 0x51"
abbreviation (input) OP_TRUE :: uint8 where "OP_TRUE \<equiv> OP_1"
abbreviation (input) OP_2 :: uint8 where "OP_2 \<equiv> 0x52"
abbreviation (input) OP_3 :: uint8 where "OP_3 \<equiv> 0x53"
abbreviation (input) OP_4 :: uint8 where "OP_4 \<equiv> 0x54"
abbreviation (input) OP_5 :: uint8 where "OP_5 \<equiv> 0x55"
abbreviation (input) OP_6 :: uint8 where "OP_6 \<equiv> 0x56"
abbreviation (input) OP_7 :: uint8 where "OP_7 \<equiv> 0x57"
abbreviation (input) OP_8 :: uint8 where "OP_8 \<equiv> 0x58"
abbreviation (input) OP_9 :: uint8 where "OP_9 \<equiv> 0x59"
abbreviation (input) OP_10 :: uint8 where "OP_10 \<equiv> 0x5a"
abbreviation (input) OP_11 :: uint8 where "OP_11 \<equiv> 0x5b"
abbreviation (input) OP_12 :: uint8 where "OP_12 \<equiv> 0x5c"
abbreviation (input) OP_13 :: uint8 where "OP_13 \<equiv> 0x5d"
abbreviation (input) OP_14 :: uint8 where "OP_14 \<equiv> 0x5e"
abbreviation (input) OP_15 :: uint8 where "OP_15 \<equiv> 0x5f"
abbreviation (input) OP_16 :: uint8 where "OP_16 \<equiv> 0x60"
abbreviation (input) OP_NOP :: uint8 where "OP_NOP \<equiv> 0x61"
abbreviation (input) OP_VER :: uint8 where "OP_VER \<equiv> 0x62"
abbreviation (input) OP_IF :: uint8 where "OP_IF \<equiv> 0x63"
abbreviation (input) OP_NOTIF :: uint8 where "OP_NOTIF \<equiv> 0x64"
abbreviation (input) OP_VERIF :: uint8 where "OP_VERIF \<equiv> 0x65"
abbreviation (input) OP_VERNOTIF :: uint8 where "OP_VERNOTIF \<equiv> 0x66"
abbreviation (input) OP_ELSE :: uint8 where "OP_ELSE \<equiv> 0x67"
abbreviation (input) OP_ENDIF :: uint8 where "OP_ENDIF \<equiv> 0x68"
abbreviation (input) OP_VERIFY :: uint8 where "OP_VERIFY \<equiv> 0x69"
abbreviation (input) OP_RETURN :: uint8 where "OP_RETURN \<equiv> 0x6a"
abbreviation (input) OP_TOALTSTACK :: uint8 where "OP_TOALTSTACK \<equiv> 0x6b"
abbreviation (input) OP_FROMALTSTACK :: uint8 where "OP_FROMALTSTACK \<equiv> 0x6c"
abbreviation (input) OP_2DROP :: uint8 where "OP_2DROP \<equiv> 0x6d"
abbreviation (input) OP_2DUP :: uint8 where "OP_2DUP \<equiv> 0x6e"
abbreviation (input) OP_3DUP :: uint8 where "OP_3DUP \<equiv> 0x6f"
abbreviation (input) OP_2OVER :: uint8 where "OP_2OVER \<equiv> 0x70"
abbreviation (input) OP_2ROT :: uint8 where "OP_2ROT \<equiv> 0x71"
abbreviation (input) OP_2SWAP :: uint8 where "OP_2SWAP \<equiv> 0x72"
abbreviation (input) OP_IFDUP :: uint8 where "OP_IFDUP \<equiv> 0x73"
abbreviation (input) OP_DEPTH :: uint8 where "OP_DEPTH \<equiv> 0x74"
abbreviation (input) OP_DROP :: uint8 where "OP_DROP \<equiv> 0x75"
abbreviation (input) OP_DUP :: uint8 where "OP_DUP \<equiv> 0x76"
abbreviation (input) OP_NIP :: uint8 where "OP_NIP \<equiv> 0x77"
abbreviation (input) OP_OVER :: uint8 where "OP_OVER \<equiv> 0x78"
abbreviation (input) OP_PICK :: uint8 where "OP_PICK \<equiv> 0x79"
abbreviation (input) OP_ROLL :: uint8 where "OP_ROLL \<equiv> 0x7a"
abbreviation (input) OP_ROT :: uint8 where "OP_ROT \<equiv> 0x7b"
abbreviation (input) OP_SWAP :: uint8 where "OP_SWAP \<equiv> 0x7c"
abbreviation (input) OP_TUCK :: uint8 where "OP_TUCK \<equiv> 0x7d"
abbreviation (input) OP_CAT :: uint8 where "OP_CAT \<equiv> 0x7e"
abbreviation (input) OP_SUBSTR :: uint8 where "OP_SUBSTR \<equiv> 0x7f"
abbreviation (input) OP_LEFT :: uint8 where "OP_LEFT \<equiv> 0x80"
abbreviation (input) OP_RIGHT :: uint8 where "OP_RIGHT \<equiv> 0x81"
abbreviation (input) OP_SIZE :: uint8 where "OP_SIZE \<equiv> 0x82"
abbreviation (input) OP_INVERT :: uint8 where "OP_INVERT \<equiv> 0x83"
abbreviation (input) OP_AND :: uint8 where "OP_AND \<equiv> 0x84"
abbreviation (input) OP_OR :: uint8 where "OP_OR \<equiv> 0x85"
abbreviation (input) OP_XOR :: uint8 where "OP_XOR \<equiv> 0x86"
abbreviation (input) OP_EQUAL :: uint8 where "OP_EQUAL \<equiv> 0x87"
abbreviation (input) OP_EQUALVERIFY :: uint8 where "OP_EQUALVERIFY \<equiv> 0x88"
abbreviation (input) OP_RESERVED1 :: uint8 where "OP_RESERVED1 \<equiv> 0x89"
abbreviation (input) OP_RESERVED2 :: uint8 where "OP_RESERVED2 \<equiv> 0x8a"
abbreviation (input) OP_1ADD :: uint8 where "OP_1ADD \<equiv> 0x8b"
abbreviation (input) OP_1SUB :: uint8 where "OP_1SUB \<equiv> 0x8c"
abbreviation (input) OP_2MUL :: uint8 where "OP_2MUL \<equiv> 0x8d"
abbreviation (input) OP_2DIV :: uint8 where "OP_2DIV \<equiv> 0x8e"
abbreviation (input) OP_NEGATE :: uint8 where "OP_NEGATE \<equiv> 0x8f"
abbreviation (input) OP_ABS :: uint8 where "OP_ABS \<equiv> 0x90"
abbreviation (input) OP_NOT :: uint8 where "OP_NOT \<equiv> 0x91"
abbreviation (input) OP_0NOTEQUAL :: uint8 where "OP_0NOTEQUAL \<equiv> 0x92"
abbreviation (input) OP_ADD :: uint8 where "OP_ADD \<equiv> 0x93"
abbreviation (input) OP_SUB :: uint8 where "OP_SUB \<equiv> 0x94"
abbreviation (input) OP_MUL :: uint8 where "OP_MUL \<equiv> 0x95"
abbreviation (input) OP_DIV :: uint8 where "OP_DIV \<equiv> 0x96"
abbreviation (input) OP_MOD :: uint8 where "OP_MOD \<equiv> 0x97"
abbreviation (input) OP_LSHIFT :: uint8 where "OP_LSHIFT \<equiv> 0x98"
abbreviation (input) OP_RSHIFT :: uint8 where "OP_RSHIFT \<equiv> 0x99"
abbreviation (input) OP_BOOLAND :: uint8 where "OP_BOOLAND \<equiv> 0x9a"
abbreviation (input) OP_BOOLOR :: uint8 where "OP_BOOLOR \<equiv> 0x9b"
abbreviation (input) OP_NUMEQUAL :: uint8 where "OP_NUMEQUAL \<equiv> 0x9c"
abbreviation (input) OP_NUMEQUALVERIFY :: uint8 where "OP_NUMEQUALVERIFY \<equiv> 0x9d"
abbreviation (input) OP_NUMNOTEQUAL :: uint8 where "OP_NUMNOTEQUAL \<equiv> 0x9e"
abbreviation (input) OP_LESSTHAN :: uint8 where "OP_LESSTHAN \<equiv> 0x9f"
abbreviation (input) OP_GREATERTHAN :: uint8 where "OP_GREATERTHAN \<equiv> 0xa0"
abbreviation (input) OP_LESSTHANOREQUAL :: uint8 where "OP_LESSTHANOREQUAL \<equiv> 0xa1"
abbreviation (input) OP_GREATERTHANOREQUAL :: uint8 where "OP_GREATERTHANOREQUAL \<equiv> 0xa2"
abbreviation (input) OP_MIN :: uint8 where "OP_MIN \<equiv> 0xa3"
abbreviation (input) OP_MAX :: uint8 where "OP_MAX \<equiv> 0xa4"
abbreviation (input) OP_WITHIN :: uint8 where "OP_WITHIN \<equiv> 0xa5"
abbreviation (input) OP_RIPEMD160 :: uint8 where "OP_RIPEMD160 \<equiv> 0xa6"
abbreviation (input) OP_SHA1 :: uint8 where "OP_SHA1 \<equiv> 0xa7"
abbreviation (input) OP_SHA256 :: uint8 where "OP_SHA256 \<equiv> 0xa8"
abbreviation (input) OP_HASH160 :: uint8 where "OP_HASH160 \<equiv> 0xa9"
abbreviation (input) OP_HASH256 :: uint8 where "OP_HASH256 \<equiv> 0xaa"
abbreviation (input) OP_CODESEPARATOR :: uint8 where "OP_CODESEPARATOR \<equiv> 0xab"
abbreviation (input) OP_CHECKSIG :: uint8 where "OP_CHECKSIG \<equiv> 0xac"
abbreviation (input) OP_CHECKSIGVERIFY :: uint8 where "OP_CHECKSIGVERIFY \<equiv> 0xad"
abbreviation (input) OP_CHECKMULTISIG :: uint8 where "OP_CHECKMULTISIG \<equiv> 0xae"
abbreviation (input) OP_CHECKMULTISIGVERIFY :: uint8 where "OP_CHECKMULTISIGVERIFY \<equiv> 0xaf"
abbreviation (input) OP_NOP1 :: uint8 where "OP_NOP1 \<equiv> 0xb0"
abbreviation (input) OP_CHECKLOCKTIMEVERIFY :: uint8 where "OP_CHECKLOCKTIMEVERIFY \<equiv> 0xb1"
abbreviation (input) OP_NOP2 :: uint8 where "OP_NOP2 \<equiv> OP_CHECKLOCKTIMEVERIFY"
abbreviation (input) OP_CHECKSEQUENCEVERIFY :: uint8 where "OP_CHECKSEQUENCEVERIFY \<equiv> 0xb2"
abbreviation (input) OP_NOP3 :: uint8 where "OP_NOP3 \<equiv> OP_CHECKSEQUENCEVERIFY"
abbreviation (input) OP_NOP4 :: uint8 where "OP_NOP4 \<equiv> 0xb3"
abbreviation (input) OP_NOP5 :: uint8 where "OP_NOP5 \<equiv> 0xb4"
abbreviation (input) OP_NOP6 :: uint8 where "OP_NOP6 \<equiv> 0xb5"
abbreviation (input) OP_NOP7 :: uint8 where "OP_NOP7 \<equiv> 0xb6"
abbreviation (input) OP_NOP8 :: uint8 where "OP_NOP8 \<equiv> 0xb7"
abbreviation (input) OP_NOP9 :: uint8 where "OP_NOP9 \<equiv> 0xb8"
abbreviation (input) OP_NOP10 :: uint8 where "OP_NOP10 \<equiv> 0xb9"
abbreviation (input) OP_CHECKSIGADD :: uint8 where "OP_CHECKSIGADD \<equiv> 0xba"
abbreviation (input) OP_INVALIDOPCODE :: uint8 where "OP_INVALIDOPCODE \<equiv> 0xff"

definition MAX_OPCODE :: uint8 where "MAX_OPCODE = OP_NOP10"
definition MAX_SCRIPT_ELEMENT_SIZE :: nat where "MAX_SCRIPT_ELEMENT_SIZE = 520"
definition MAX_OPS_PER_SCRIPT :: int where "MAX_OPS_PER_SCRIPT = 201"
definition MAX_PUBKEYS_PER_MULTISIG :: nat where "MAX_PUBKEYS_PER_MULTISIG = 20"
definition MAX_SCRIPT_SIZE :: nat where "MAX_SCRIPT_SIZE = 10000"
definition MAX_STACK_SIZE :: nat where "MAX_STACK_SIZE = 1000"

definition op_names :: "(opcodetype \<times> string) list" where
  "op_names =
     [(OP_0, ''0''), (OP_PUSHDATA1, ''OP_PUSHDATA1''), (OP_PUSHDATA2, ''OP_PUSHDATA2''),
      (OP_PUSHDATA4, ''OP_PUSHDATA4''), (OP_1NEGATE, ''-1''), (OP_RESERVED, ''OP_RESERVED''),
      (OP_1, ''1''), (OP_2, ''2''), (OP_3, ''3''), (OP_4, ''4''), (OP_5, ''5''), (OP_6, ''6''),
      (OP_7, ''7''), (OP_8, ''8''), (OP_9, ''9''), (OP_10, ''10''), (OP_11, ''11''), (OP_12, ''12''),
      (OP_13, ''13''), (OP_14, ''14''), (OP_15, ''15''), (OP_16, ''16''), (OP_NOP, ''OP_NOP''),
      (OP_VER, ''OP_VER''), (OP_IF, ''OP_IF''), (OP_NOTIF, ''OP_NOTIF''), (OP_VERIF, ''OP_VERIF''),
      (OP_VERNOTIF, ''OP_VERNOTIF''), (OP_ELSE, ''OP_ELSE''), (OP_ENDIF, ''OP_ENDIF''),
      (OP_VERIFY, ''OP_VERIFY''), (OP_RETURN, ''OP_RETURN''), (OP_TOALTSTACK, ''OP_TOALTSTACK''),
      (OP_FROMALTSTACK, ''OP_FROMALTSTACK''), (OP_2DROP, ''OP_2DROP''), (OP_2DUP, ''OP_2DUP''),
      (OP_3DUP, ''OP_3DUP''), (OP_2OVER, ''OP_2OVER''), (OP_2ROT, ''OP_2ROT''), (OP_2SWAP, ''OP_2SWAP''),
      (OP_IFDUP, ''OP_IFDUP''), (OP_DEPTH, ''OP_DEPTH''), (OP_DROP, ''OP_DROP''), (OP_DUP, ''OP_DUP''),
      (OP_NIP, ''OP_NIP''), (OP_OVER, ''OP_OVER''), (OP_PICK, ''OP_PICK''), (OP_ROLL, ''OP_ROLL''),
      (OP_ROT, ''OP_ROT''), (OP_SWAP, ''OP_SWAP''), (OP_TUCK, ''OP_TUCK''), (OP_CAT, ''OP_CAT''),
      (OP_SUBSTR, ''OP_SUBSTR''), (OP_LEFT, ''OP_LEFT''), (OP_RIGHT, ''OP_RIGHT''), (OP_SIZE, ''OP_SIZE''),
      (OP_INVERT, ''OP_INVERT''), (OP_AND, ''OP_AND''), (OP_OR, ''OP_OR''), (OP_XOR, ''OP_XOR''),
      (OP_EQUAL, ''OP_EQUAL''), (OP_EQUALVERIFY, ''OP_EQUALVERIFY''), (OP_RESERVED1, ''OP_RESERVED1''),
      (OP_RESERVED2, ''OP_RESERVED2''), (OP_1ADD, ''OP_1ADD''), (OP_1SUB, ''OP_1SUB''),
      (OP_2MUL, ''OP_2MUL''), (OP_2DIV, ''OP_2DIV''), (OP_NEGATE, ''OP_NEGATE''), (OP_ABS, ''OP_ABS''),
      (OP_NOT, ''OP_NOT''), (OP_0NOTEQUAL, ''OP_0NOTEQUAL''), (OP_ADD, ''OP_ADD''), (OP_SUB, ''OP_SUB''),
      (OP_MUL, ''OP_MUL''), (OP_DIV, ''OP_DIV''), (OP_MOD, ''OP_MOD''), (OP_LSHIFT, ''OP_LSHIFT''),
      (OP_RSHIFT, ''OP_RSHIFT''), (OP_BOOLAND, ''OP_BOOLAND''), (OP_BOOLOR, ''OP_BOOLOR''),
      (OP_NUMEQUAL, ''OP_NUMEQUAL''), (OP_NUMEQUALVERIFY, ''OP_NUMEQUALVERIFY''), (OP_NUMNOTEQUAL, ''OP_NUMNOTEQUAL''),
      (OP_LESSTHAN, ''OP_LESSTHAN''), (OP_GREATERTHAN, ''OP_GREATERTHAN''), (OP_LESSTHANOREQUAL, ''OP_LESSTHANOREQUAL''),
      (OP_GREATERTHANOREQUAL, ''OP_GREATERTHANOREQUAL''), (OP_MIN, ''OP_MIN''), (OP_MAX, ''OP_MAX''),
      (OP_WITHIN, ''OP_WITHIN''), (OP_RIPEMD160, ''OP_RIPEMD160''), (OP_SHA1, ''OP_SHA1''),
      (OP_SHA256, ''OP_SHA256''), (OP_HASH160, ''OP_HASH160''), (OP_HASH256, ''OP_HASH256''),
      (OP_CODESEPARATOR, ''OP_CODESEPARATOR''), (OP_CHECKSIG, ''OP_CHECKSIG''), (OP_CHECKSIGVERIFY, ''OP_CHECKSIGVERIFY''),
      (OP_CHECKMULTISIG, ''OP_CHECKMULTISIG''), (OP_CHECKMULTISIGVERIFY, ''OP_CHECKMULTISIGVERIFY''),
      (OP_NOP1, ''OP_NOP1''), (OP_CHECKLOCKTIMEVERIFY, ''OP_CHECKLOCKTIMEVERIFY''), (OP_CHECKSEQUENCEVERIFY, ''OP_CHECKSEQUENCEVERIFY''),
      (OP_NOP4, ''OP_NOP4''), (OP_NOP5, ''OP_NOP5''), (OP_NOP6, ''OP_NOP6''), (OP_NOP7, ''OP_NOP7''),
      (OP_NOP8, ''OP_NOP8''), (OP_NOP9, ''OP_NOP9''), (OP_NOP10, ''OP_NOP10''), (OP_CHECKSIGADD, ''OP_CHECKSIGADD''),
      (OP_INVALIDOPCODE, ''OP_INVALIDOPCODE'')]"

definition GetOpName :: "opcodetype \<Rightarrow> string" where
  "GetOpName opcode = (case map_of op_names opcode of Some n \<Rightarrow> n | None \<Rightarrow> ''OP_UNKNOWN'')"

section \<open>Script numbers\<close>

datatype scriptnum_error = ScriptNumOverflow | ScriptNumNotMinimal

function serialize_loop :: "uint64 \<Rightarrow> bytes" where
  "serialize_loop absvalue =
     (if absvalue = 0 then [] else ucast (absvalue AND 0xff) # serialize_loop (drop_bit 8 absvalue))"
  by pat_completeness auto
termination
  by (relation "measure unat") (auto simp: unat_div_distrib unat_gt_0 drop_bit_eq_div)

definition scriptnum_serialize :: "int \<Rightarrow> bytes" where
  "scriptnum_serialize value =
     (if value = 0 then []
      else let neg = value < 0;
               absvalue = (if neg then NOT (word_of_int value) + 1 else word_of_int value) :: uint64;
               result = serialize_loop absvalue
           in if last result AND 0x80 \<noteq> 0 then result @ [if neg then 0x80 else 0]
              else if neg then butlast result @ [last result OR 0x80]
              else result)"

primrec set_vch_loop :: "nat \<Rightarrow> uint64 \<Rightarrow> bytes \<Rightarrow> uint64" where
  "set_vch_loop i result [] = result"
| "set_vch_loop i result (b # bs) = set_vch_loop (i + 1) (result OR push_bit (8 * i) (ucast b)) bs"

definition set_vch :: "bytes \<Rightarrow> int" where
  "set_vch vch =
     (if vch = [] then 0
      else let result = set_vch_loop 0 0 vch
           in if last vch AND 0x80 \<noteq> 0
              then - sint (result AND NOT (push_bit (8 * (length vch - 1)) 0x80))
              else sint result)"

definition CScriptNum :: "bytes \<Rightarrow> bool \<Rightarrow> nat \<Rightarrow> scriptnum_error + int" where
  "CScriptNum vch fRequireMinimal nMaxNumSize =
     (if length vch > nMaxNumSize then Inl ScriptNumOverflow
      else if fRequireMinimal \<and> length vch > 0 \<and> last vch AND 0x7f = 0 \<and>
              (length vch \<le> 1 \<or> vch ! (length vch - 2) AND 0x80 = 0)
      then Inl ScriptNumNotMinimal
      else Inr (set_vch vch))"

definition getint :: "int \<Rightarrow> int" where
  "getint m_value =
     (if m_value > 2147483647 then 2147483647 else if m_value < -2147483648 then -2147483648 else m_value)"

section \<open>Building scripts\<close>

definition push_data :: "bytes \<Rightarrow> CScript" where
  "push_data b =
     (if length b < unat OP_PUSHDATA1 then [of_nat (length b)]
      else if length b \<le> 0xff then [OP_PUSHDATA1, of_nat (length b)]
      else if length b \<le> 0xffff then OP_PUSHDATA2 # le_bytes 2 (of_nat (length b) :: 16 word)
      else OP_PUSHDATA4 # le_bytes 4 (of_nat (length b) :: uint32)) @ b"

definition push_int64 :: "int \<Rightarrow> CScript" where
  "push_int64 n =
     (if n = -1 \<or> (n \<ge> 1 \<and> n \<le> 16) then [word_of_int (n + (uint OP_1 - 1))]
      else if n = 0 then [OP_0]
      else push_data (scriptnum_serialize n))"

definition DecodeOP_N :: "opcodetype \<Rightarrow> int option" where
  "DecodeOP_N opcode =
     (if opcode = OP_0 then Some 0
      else if OP_1 \<le> opcode \<and> opcode \<le> OP_16 then Some (uint opcode - (uint OP_1 - 1))
      else None)"

definition EncodeOP_N :: "int \<Rightarrow> opcodetype option" where
  "EncodeOP_N n =
     (if n < 0 \<or> n > 16 then None else if n = 0 then Some OP_0 else Some (word_of_int (uint OP_1 + n - 1)))"

section \<open>Reading scripts\<close>

text \<open>
  One instruction: its opcode, the data it pushes and the rest of the script. \<open>None\<close> is the
  result \<open>false\<close>. Scripts are shorter than \<open>2 ^ 32\<close> bytes, so the cast of the remaining length to
  \<open>unsigned int\<close> keeps it.
\<close>

definition GetScriptOp :: "bytes \<Rightarrow> ((opcodetype \<times> bytes) \<times> bytes) option" where
  "GetScriptOp script =
     (case script of
        [] \<Rightarrow> None
      | opcode # pc \<Rightarrow>
          if opcode \<le> OP_PUSHDATA4
          then do {
            (nSize, pc') \<leftarrow>
              (if opcode < OP_PUSHDATA1 then Some (unat opcode, pc)
               else if opcode = OP_PUSHDATA1
               then if length pc < 1 then None else Some (unat (hd pc), tl pc)
               else if opcode = OP_PUSHDATA2
               then if length pc < 2 then None else Some (unat (le_word (take 2 pc) :: 16 word), drop 2 pc)
               else if length pc < 4 then None else Some (unat (le_word (take 4 pc) :: uint32), drop 4 pc));
            (if length pc' < nSize then None else Some ((opcode, take nSize pc'), drop nSize pc'))
          }
          else Some ((opcode, []), pc))"

lemma GetScriptOp_shorter: "GetScriptOp s = Some (op, r) \<Longrightarrow> length r < length s"
  by (auto simp: GetScriptOp_def split: list.splits if_splits)

function sigop_loop :: "bool \<Rightarrow> uint32 \<Rightarrow> opcodetype \<Rightarrow> bytes \<Rightarrow> uint32" where
  "sigop_loop fAccurate n lastOpcode pc =
     (case GetScriptOp pc of
        None \<Rightarrow> n
      | Some ((opcode, _), pc') \<Rightarrow>
          sigop_loop fAccurate
            (if opcode = OP_CHECKSIG \<or> opcode = OP_CHECKSIGVERIFY then n + 1
             else if opcode = OP_CHECKMULTISIG \<or> opcode = OP_CHECKMULTISIGVERIFY
             then if fAccurate \<and> OP_1 \<le> lastOpcode \<and> lastOpcode \<le> OP_16
                  then n + word_of_int (the (DecodeOP_N lastOpcode))
                  else n + of_nat MAX_PUBKEYS_PER_MULTISIG
             else n)
            opcode pc')"
  by pat_completeness auto
termination
  by (relation "measure (\<lambda>(_, _, _, pc). length pc)") (auto dest: GetScriptOp_shorter)

definition GetSigOpCount :: "bool \<Rightarrow> CScript \<Rightarrow> uint32" where
  "GetSigOpCount fAccurate script = sigop_loop fAccurate 0 OP_INVALIDOPCODE script"

definition IsPayToScriptHash :: "CScript \<Rightarrow> bool" where
  "IsPayToScriptHash script \<longleftrightarrow>
     length script = 23 \<and> script ! 0 = OP_HASH160 \<and> script ! 1 = 0x14 \<and> script ! 22 = OP_EQUAL"

definition IsPayToWitnessScriptHash :: "CScript \<Rightarrow> bool" where
  "IsPayToWitnessScriptHash script \<longleftrightarrow> length script = 34 \<and> script ! 0 = OP_0 \<and> script ! 1 = 0x20"

definition IsWitnessProgram :: "CScript \<Rightarrow> (int \<times> bytes) option" where
  "IsWitnessProgram script =
     (if length script < 4 \<or> length script > 42 then None
      else if script ! 0 \<noteq> OP_0 \<and> (script ! 0 < OP_1 \<or> script ! 0 > OP_16) then None
      else if unat (script ! 1) + 2 = length script
      then map_option (\<lambda>v. (v, drop 2 script)) (DecodeOP_N (script ! 0))
      else None)"

text \<open>The last item a script of pushes leaves; \<open>None\<close> when an instruction is not a push.\<close>

function last_push :: "bytes \<Rightarrow> bytes \<Rightarrow> bytes option" where
  "last_push vData pc =
     (if pc = [] then Some vData
      else case GetScriptOp pc of
             None \<Rightarrow> None
           | Some ((opcode, d), pc') \<Rightarrow> if opcode > OP_16 then None else last_push d pc')"
  by pat_completeness auto
termination
  by (relation "measure (\<lambda>(_, pc). length pc)") (auto dest: GetScriptOp_shorter)

definition GetSigOpCount_script :: "CScript \<Rightarrow> CScript \<Rightarrow> uint32" where
  "GetSigOpCount_script script sig =
     (if \<not> IsPayToScriptHash script then GetSigOpCount True script
      else case last_push [] sig of None \<Rightarrow> 0 | Some subscript \<Rightarrow> GetSigOpCount True subscript)"

function IsPushOnly :: "bytes \<Rightarrow> bool" where
  "IsPushOnly pc =
     (if pc = [] then True
      else case GetScriptOp pc of
             None \<Rightarrow> False
           | Some ((opcode, _), pc') \<Rightarrow> if opcode > OP_16 then False else IsPushOnly pc')"
  by pat_completeness auto
termination
  by (relation "measure length") (auto dest: GetScriptOp_shorter)

function HasValidOps :: "bytes \<Rightarrow> bool" where
  "HasValidOps pc =
     (if pc = [] then True
      else case GetScriptOp pc of
             None \<Rightarrow> False
           | Some ((opcode, item), pc') \<Rightarrow>
               if opcode > MAX_OPCODE \<or> length item > MAX_SCRIPT_ELEMENT_SIZE then False else HasValidOps pc')"
  by pat_completeness auto
termination
  by (relation "measure length") (auto dest: GetScriptOp_shorter)

declare sigop_loop.simps [simp del] last_push.simps [simp del] IsPushOnly.simps [simp del] HasValidOps.simps [simp del]
  serialize_loop.simps [simp del]

definition IsOpSuccess :: "opcodetype \<Rightarrow> bool" where
  "IsOpSuccess opcode \<longleftrightarrow>
     opcode = 80 \<or> opcode = 98 \<or> (opcode \<ge> 126 \<and> opcode \<le> 129) \<or> (opcode \<ge> 131 \<and> opcode \<le> 134) \<or>
     (opcode \<ge> 137 \<and> opcode \<le> 138) \<or> (opcode \<ge> 141 \<and> opcode \<le> 142) \<or> (opcode \<ge> 149 \<and> opcode \<le> 153) \<or>
     (opcode \<ge> 187 \<and> opcode \<le> 254)"

definition CheckMinimalPush :: "bytes \<Rightarrow> opcodetype \<Rightarrow> bool option" where
  "CheckMinimalPush data opcode =
     (if opcode > OP_PUSHDATA4 then None
      else Some (if length data = 0 then opcode = OP_0
                 else if length data = 1 \<and> data ! 0 \<ge> 1 \<and> data ! 0 \<le> 16 then False
                 else if length data = 1 \<and> data ! 0 = 0x81 then False
                 else if length data \<le> 75 then unat opcode = length data
                 else if length data \<le> 255 then opcode = OP_PUSHDATA1
                 else if length data \<le> 65535 then opcode = OP_PUSHDATA2
                 else True))"

definition IsUnspendable :: "CScript \<Rightarrow> bool" where
  "IsUnspendable script \<longleftrightarrow> (length script > 0 \<and> hd script = OP_RETURN) \<or> length script > MAX_SCRIPT_SIZE"

section \<open>Script numbers as integers\<close>

text \<open>The natural number of a little-endian byte string.\<close>

primrec le_nat :: "bytes \<Rightarrow> nat" where
  "le_nat [] = 0"
| "le_nat (b # bs) = unat b + 256 * le_nat bs"

lemma unat8_less: "unat (b :: uint8) < 256"
  using unsigned_less [of b] by simp

lemma le_nat_less: "le_nat bs < 256 ^ length bs"
proof (induction bs)
  case (Cons b bs)
  have "unat b + 256 * le_nat bs < 256 * (le_nat bs + 1)" using unat8_less [of b] by simp
  also have "\<dots> \<le> 256 * 256 ^ length bs" using Cons by (intro mult_le_mono2) simp
  finally show ?case by simp
qed simp

lemma le_nat_append: "le_nat (xs @ ys) = le_nat xs + 256 ^ length xs * le_nat ys"
  by (induction xs) (simp_all add: algebra_simps)

lemma le_nat_le_last: "bs \<noteq> [] \<Longrightarrow> unat (last bs) * 256 ^ (length bs - 1) \<le> le_nat bs"
  by (cases bs rule: rev_cases) (simp_all add: le_nat_append)

lemma pow256: "(256 :: nat) ^ n = 2 ^ (8 * n)"
  by (simp add: power_mult)

lemma unat_le_word:
  assumes "length bs \<le> 8"
  shows "unat (le_word bs :: uint64) = le_nat bs"
  using assms
proof (induction bs)
  case (Cons b bs)
  have bs: "le_nat bs < 256 ^ 7"
    using le_nat_less [of bs] Cons.prems power_increasing [of "length bs" 7 "256 :: nat"]
    by (simp add: le_less_trans less_le_trans)
  have b: "unat (ucast b :: uint64) = unat b"
    using unat8_less [of b] by (simp add: unsigned_ucast_eq take_bit_nat_eq_self_iff)
  have disj: "ucast b AND push_bit 8 (le_word bs :: uint64) = 0"
    by (rule small_and_push_bit [of _ 8]) (use unat8_less [of b] b in simp_all)
  have "unat (push_bit 8 (le_word bs :: uint64)) = 256 * le_nat bs"
    using Cons bs by (simp only: unsigned_push_bit_eq) (simp add: push_bit_eq_mult take_bit_nat_eq_self_iff mult.commute)
  with unat_or_disjoint [OF disj] b show ?case by simp
qed simp

lemma set_vch_loop_eq: "set_vch_loop i r vch = r OR push_bit (8 * i) (le_word vch)"
proof (induction vch arbitrary: i r)
  case (Cons b vch)
  show ?case
    by (simp only: set_vch_loop.simps le_word.simps Cons.IH)
      (simp add: or.assoc add.commute)
qed simp

text \<open>The magnitude of a script number, without the sign bit of its last byte.\<close>

definition vch_magnitude :: "bytes \<Rightarrow> nat" where
  "vch_magnitude vch = le_nat (butlast vch) + 256 ^ (length vch - 1) * (unat (last vch) mod 128)"

lemma and_7f: "unat (b AND 0x7f :: uint8) = unat b mod 128"
  using unat_low7 by simp

lemma byte_parts: "unat (b :: uint8) = (if bit b 7 then 128 else 0) + unat b mod 128"
proof -
  have "unat b div 128 < 2" using unat8_less [of b] by (simp add: less_mult_imp_div_less)
  moreover have "bit b 7 \<longleftrightarrow> odd (unat b div 128)" using bit_unat_odd [of b 7] by simp
  ultimately have "unat b div 128 = (if bit b 7 then 1 else 0)" by (cases "unat b div 128") (auto simp: less_Suc_eq)
  then show ?thesis using div_mult_mod_eq [of "unat b" 128] by (simp split: if_splits)
qed

lemma byte_eqI: "unat (b :: uint8) mod 128 = unat c mod 128 \<Longrightarrow> bit b 7 = bit c 7 \<Longrightarrow> b = c"
  using byte_parts [of b] byte_parts [of c] by (simp add: word_unat_eq_iff)

lemma vch_magnitude_less: "vch \<noteq> [] \<Longrightarrow> vch_magnitude vch < 2 ^ (8 * length vch - 1)"
proof -
  assume "vch \<noteq> []"
  then obtain xs y where v: "vch = xs @ [y]" by (cases vch rule: rev_cases) auto
  have "vch_magnitude vch < 256 ^ length xs * (unat y mod 128 + 1)"
    using le_nat_less [of xs] by (simp add: vch_magnitude_def v)
  also have "\<dots> \<le> 256 ^ length xs * 128"
    by (intro mult_le_mono2) (simp add: Suc_leI)
  also have "\<dots> = 2 ^ (8 * length vch - 1)" by (simp add: v pow256 power_add)
  finally show ?thesis .
qed

lemma sint_small: "unat (w :: uint64) < 2 ^ 63 \<Longrightarrow> sint w = int (unat w)"
proof -
  assume "unat w < 2 ^ 63"
  then have "uint w < 2 ^ 63" by (metis of_nat_less_iff of_nat_unat of_nat_numeral of_nat_power)
  moreover have "- (2 ^ 63) \<le> uint w" by (rule order.trans [OF _ uint_ge_0]) simp
  ultimately show ?thesis by (simp add: sint_uint signed_take_bit_int_eq_self_iff)
qed

lemma set_vch_value:
  assumes "vch \<noteq> []" "length vch \<le> 8"
  shows "set_vch vch = (if bit (last vch) 7 then - int (vch_magnitude vch) else int (vch_magnitude vch))"
proof -
  obtain xs y where v: "vch = xs @ [y]" using assms(1) by (cases vch rule: rev_cases) auto
  let ?r = "le_word vch :: uint64" and ?k = "8 * (length vch - 1) + 7"
  have r: "set_vch_loop 0 0 vch = ?r" by (simp add: set_vch_loop_eq)
  have u: "unat ?r = le_nat xs + 256 ^ length xs * unat y"
    using unat_le_word [OF assms(2)] by (simp add: v le_nat_append)
  have small: "vch_magnitude vch < 2 ^ 63"
    by (rule less_le_trans [OF vch_magnitude_less [OF assms(1)] power_increasing]) (use assms(2) in simp_all)
  have k: "?k < 64" using assms v by simp
  show ?thesis
  proof (cases "bit y 7")
    case False
    then have "unat ?r = vch_magnitude vch"
      using u byte_parts [of y] by (simp add: vch_magnitude_def v)
    then have "sint ?r = int (vch_magnitude vch)"
      using small by (simp add: sint_small)
    then show ?thesis using False r assms(1) v by (simp add: set_vch_def bit7)
  next
    case True
    let ?m = "2 ^ ?k :: uint64"
    have "bit ?r ?k" using True k by (simp add: bit_le_word v)
    then have rm: "?r AND ?m = ?m" by (intro bit_eqI) (auto simp: bit_and_iff bit_exp_iff)
    have m: "unat ?m = 2 ^ ?k" 
    proof -
      have "(2 :: nat) ^ ?k < 2 ^ 64" using k by (intro power_strict_increasing) simp_all
      then have "unat (of_nat (2 ^ ?k) :: uint64) = 2 ^ ?k"
        using k by (simp only: unsigned_of_nat) (simp add: take_bit_nat_eq_self_iff)
      then show ?thesis by simp
    qed
    have "unat ((?r AND NOT ?m) OR (?r AND ?m)) = unat (?r AND NOT ?m) + unat (?r AND ?m)"
      by (rule unat_or_disjoint) (rule bit_eqI, auto simp: bit_and_iff bit_not_iff)
    moreover have "(?r AND NOT ?m) OR (?r AND ?m) = ?r" by (rule bit_eqI) (auto simp: bit_and_iff bit_or_iff bit_not_iff)
    ultimately have "unat (?r AND NOT ?m) = unat ?r - 2 ^ ?k" using rm m by simp
    also have "\<dots> = vch_magnitude vch"
    proof -
      obtain z where z: "unat y mod 128 = z" "unat y = 128 + z" using byte_parts [of y] True by presburger
      then have "256 ^ length xs * unat y = 128 * 256 ^ length xs + 256 ^ length xs * z"
        by (simp only: z(2)) (simp add: add_mult_distrib2)
      moreover have "2 ^ ?k = (128 :: nat) * 256 ^ length xs" by (simp add: v pow256 power_add)
      ultimately show ?thesis using u by (simp add: vch_magnitude_def v z(1))
    qed
    finally have "unat (?r AND NOT ?m) = vch_magnitude vch" .
    then have "sint (?r AND NOT ?m) = int (vch_magnitude vch)"
      using small by (simp add: sint_small)
    moreover have "push_bit (8 * (length vch - 1)) 0x80 = ?m"
      by (simp add: push_bit_eq_mult power_add)
    ultimately show ?thesis using True r assms(1) v by (simp add: set_vch_def bit7)
  qed
qed

section \<open>Serialising script numbers\<close>

lemma serialize_loop_le_nat:
  "length bs \<le> 8 \<Longrightarrow> bs = [] \<or> last bs \<noteq> 0 \<Longrightarrow> serialize_loop (le_word bs) = bs"
proof (induction bs)
  case Nil
  then show ?case by (simp add: serialize_loop.simps)
next
  case (Cons b bs)
  let ?w = "le_word (b # bs) :: uint64"
  have "le_nat (b # bs) \<noteq> 0"
  proof -
    have "0 < unat (last (b # bs)) * 256 ^ (length (b # bs) - 1)"
      using Cons.prems(2) by (simp add: unat_gt_0)
    also have "\<dots> \<le> le_nat (b # bs)" by (rule le_nat_le_last) simp
    finally show ?thesis by simp
  qed
  then have nz: "?w \<noteq> 0" using unat_le_word [of "b # bs"] Cons.prems(1) by (metis unsigned_0)
  have low: "ucast (?w AND 0xff) = b"
  proof (rule bit_word_eqI)
    fix n assume "n < LENGTH(8)"
    then have n: "n < 8" by simp
    have ff: "(0xff :: uint64) = mask 8" by (simp add: mask_eq_exp_minus_1)
    show "bit (ucast (?w AND 0xff) :: uint8) n = bit b n"
      unfolding ff using n by (simp add: bit_ucast_iff bit_and_iff bit_mask_iff bit_le_word del: le_word.simps)
  qed
  have high: "drop_bit 8 ?w = le_word bs"
  proof (rule bit_word_eqI)
    fix n assume n: "n < LENGTH(64)"
    have "bit (le_word bs :: uint64) n \<Longrightarrow> n + 8 < 64"
      using Cons.prems(1) by (auto simp: bit_le_word)
    moreover have "(n + 8) div 8 = Suc (n div 8)" by simp
    ultimately show "bit (drop_bit 8 ?w) n = bit (le_word bs :: uint64) n"
      using n by (auto simp: bit_drop_bit_eq bit_le_word add.commute simp del: le_word.simps)
  qed
  have "serialize_loop ?w = b # serialize_loop (le_word bs)"
    by (subst serialize_loop.simps) (use nz low high in simp)
  with Cons show ?case by (simp split: if_splits)
qed

lemma le_word_digits: "\<exists>bs. length bs \<le> 8 \<and> (bs = [] \<or> last bs \<noteq> 0) \<and> le_word bs = (w :: uint64)"
proof -
  have "\<exists>bs. length bs \<le> n \<and> (bs = [] \<or> last bs \<noteq> 0) \<and> le_nat bs = m" if "m < 256 ^ n" for m n
    using that
  proof (induction n arbitrary: m)
    case (Suc n)
    then have "m div 256 < 256 ^ n" by (simp add: less_mult_imp_div_less mult.commute)
    with Suc.IH obtain bs where bs: "length bs \<le> n" "bs = [] \<or> last bs \<noteq> 0" "le_nat bs = m div 256" by blast
    show ?case
    proof (cases "m = 0")
      case True
      then show ?thesis by (intro exI [of _ "[]"]) simp
    next
      case False
      have b: "unat (of_nat (m mod 256) :: uint8) = m mod 256" by (simp add: unsigned_of_nat take_bit_nat_eq_self_iff)
      then have "bs = [] \<Longrightarrow> (of_nat (m mod 256) :: uint8) \<noteq> 0"
        using False bs(3) by (metis le_nat.simps(1)  div_mult_mod_eq mult_0 add_0 unsigned_0)
      with bs b show ?thesis by (intro exI [of _ "of_nat (m mod 256) # bs"]) auto
    qed
  qed (auto intro: exI [of _ "[]"])
  from this [of "unat w" 8] obtain bs where bs: "length bs \<le> 8" "bs = [] \<or> last bs \<noteq> 0" "le_nat bs = unat w"
    using unat64_less [of w] by auto
  with unat_le_word [OF bs(1)] show ?thesis by (metis word_unat_eq_iff)
qed

text \<open>The bytes of a number other than 0, from the digits of its magnitude.\<close>

lemma serialize_digits:
  assumes "length bs \<le> 8" "bs \<noteq> []" "last bs \<noteq> 0" "le_nat bs < 2 ^ 63" "n = (if neg then - int (le_nat bs) else int (le_nat bs))"
  shows "scriptnum_serialize n =
    (if bit (last bs) 7 then bs @ [if neg then 0x80 else 0]
     else if neg then butlast bs @ [last bs OR 0x80] else bs)"
proof -
  have "0 < unat (last bs) * 256 ^ (length bs - 1)" using assms(3) by (simp add: unat_gt_0)
  also have "\<dots> \<le> le_nat bs" by (rule le_nat_le_last) (rule assms(2))
  finally have pos: "0 < le_nat bs" .
  have w: "le_word bs = (of_nat (le_nat bs) :: uint64)"
    using unat_le_word [OF assms(1)] assms(4)
    by (simp add: word_unat_eq_iff unsigned_of_nat take_bit_nat_eq_self)
  have n0: "n \<noteq> 0" "n < 0 \<longleftrightarrow> neg" using pos assms(5) by auto
  have "(if n < 0 then NOT (word_of_int n) + 1 else word_of_int n :: uint64) = le_word bs"
    using w n0(2) assms(5) by (simp add: not_eq_complement)
  then show ?thesis
    using n0 serialize_loop_le_nat [of bs] assms(1,3)
    by (cases neg) (simp_all add: scriptnum_serialize_def Let_def bit7)
qed

text \<open>A minimal encoding is the serialisation of its value, and serialisations are minimal.\<close>

definition minimal_vch :: "bytes \<Rightarrow> bool" where
  "minimal_vch vch \<longleftrightarrow>
     vch = [] \<or> last vch AND 0x7f \<noteq> 0 \<or> (length vch > 1 \<and> vch ! (length vch - 2) AND 0x80 \<noteq> 0)"

lemma bit_or_80: "bit (b OR 0x80 :: uint8) 7" "unat (b OR 0x80 :: uint8) mod 128 = unat b mod 128"
proof -
  have e: "(0x80 :: uint8) = 2 ^ 7" by simp
  show "bit (b OR 0x80) 7" unfolding e by (simp only: bit_or_iff bit_exp_iff) simp
  have "(b OR 0x80) AND 0x7f = b AND 0x7f"
    by (simp add: bit.conj_disj_distrib2)
  then show "unat (b OR 0x80 :: uint8) mod 128 = unat b mod 128" by (metis and_7f)
qed

lemma serialize_minimal_vch:
  assumes "minimal_vch vch" "length vch \<le> 8"
  shows "scriptnum_serialize (set_vch vch) = vch"
proof (cases "vch = []")
  case True
  then show ?thesis by (simp add: set_vch_def scriptnum_serialize_def)
next
  case False
  then obtain xs y where v: "vch = xs @ [y]" by (cases vch rule: rev_cases) auto
  have val: "set_vch vch = (if bit y 7 then - int (vch_magnitude vch) else int (vch_magnitude vch))"
    using set_vch_value [OF False assms(2)] v by simp
  have small: "vch_magnitude vch < 2 ^ 63"
    by (rule less_le_trans [OF vch_magnitude_less [OF False] power_increasing]) (use assms(2) in simp_all)
  show ?thesis
  proof (cases "y AND 0x7f = 0")
    case zero: True
    then have y0: "unat y mod 128 = 0" using and_7f [of y] by simp
    then have "xs \<noteq> []" and b7: "bit (last xs) 7"
      using assms(1) zero by (auto simp: minimal_vch_def v nth_append last_conv_nth bit7 split: if_splits)
    have "last xs \<noteq> 0" using b7 by auto
    moreover have "vch_magnitude vch = le_nat xs" using y0 by (simp add: vch_magnitude_def v)
    moreover have "y = (if bit y 7 then 0x80 else 0)" using y0 by (intro byte_eqI) (auto simp: bit_or_80(1) [of 0, simplified])
    ultimately show ?thesis
      using serialize_digits [of xs "set_vch vch" "bit y 7"] val small b7 \<open>xs \<noteq> []\<close> assms(2) v by auto
  next
    case nz: False
    let ?bs = "xs @ [y AND 0x7f]"
    have nb: "\<not> bit (y AND 0x7f) 7" by (simp only: bit_and_iff bit_numeral_simps) simp
    have "vch_magnitude vch = le_nat ?bs" by (simp add: vch_magnitude_def v le_nat_append and_7f)
    moreover have "bit y 7 \<Longrightarrow> (y AND 0x7f) OR 0x80 = y"
      by (rule byte_eqI) (simp_all add: bit_or_80 and_7f)
    moreover have "\<not> bit y 7 \<Longrightarrow> y AND 0x7f = y" using nb by (intro byte_eqI) (simp_all add: and_7f)
    ultimately show ?thesis
      using serialize_digits [of ?bs "set_vch vch" "bit y 7"] val small nb nz assms(2) v by auto
  qed
qed

lemma le_nat_ge_last: "bs \<noteq> [] \<Longrightarrow> bit (last bs) 7 \<Longrightarrow> 128 * 256 ^ (length bs - 1) \<le> le_nat bs"
  using byte_parts [of "last bs"] by (intro order_trans [OF mult_le_mono1 le_nat_le_last]) simp_all

lemma minimal_vch_magnitude:
  assumes "minimal_vch vch" "vch \<noteq> []"
  shows "256 ^ (length vch - 1) \<le> 2 * vch_magnitude vch"
proof -
  obtain xs y where v: "vch = xs @ [y]" using assms(2) by (cases vch rule: rev_cases) auto
  show ?thesis
  proof (cases "y AND 0x7f = 0")
    case True
    then have xs: "xs \<noteq> []" "bit (last xs) 7"
      using assms(1) by (auto simp: minimal_vch_def v nth_append last_conv_nth bit7 split: if_splits)
    then obtain k where k: "length xs = Suc k" by (cases xs) auto
    have "256 ^ length xs = 2 * (128 * (256 :: nat) ^ k)" by (simp add: k)
    also have "\<dots> \<le> 2 * le_nat xs" using le_nat_ge_last [OF xs] k by simp
    also have "\<dots> \<le> 2 * vch_magnitude vch" by (simp add: vch_magnitude_def v)
    finally show ?thesis by (simp add: v)
  next
    case False
    then have "0 < unat y mod 128" by (metis and_7f unat_gt_0 gr0I)
    then have "256 ^ length xs * 1 \<le> 256 ^ length xs * (unat y mod 128)" by (intro mult_le_mono2) simp
    moreover have "a * 1 \<le> b \<Longrightarrow> a \<le> 2 * (c + b)" for a b c :: nat by simp
    ultimately show ?thesis
      unfolding vch_magnitude_def v by (simp only: butlast_snoc last_snoc length_append_singleton diff_Suc_1)
  qed
qed

lemma digits_length:
  assumes "bs \<noteq> []" "bit (last bs) 7" "le_nat bs < 2 ^ 63" "length bs \<le> 8"
  shows "length bs \<le> 7"
proof (rule ccontr)
  assume "\<not> length bs \<le> 7"
  with assms(4) have "length bs = 8" by simp
  with le_nat_ge_last [OF assms(1,2)] have "128 * 256 ^ 7 \<le> le_nat bs" by simp
  with assms(3) show False by simp
qed

lemma serialize_value:
  assumes "\<bar>n\<bar> < 2 ^ 63"
  shows "minimal_vch (scriptnum_serialize n) \<and> set_vch (scriptnum_serialize n) = n \<and>
    length (scriptnum_serialize n) \<le> 8"
proof (cases "n = 0")
  case True
  then show ?thesis by (simp add: scriptnum_serialize_def minimal_vch_def set_vch_def)
next
  case False
  obtain bs where bs: "length bs \<le> 8" "bs = [] \<or> last bs \<noteq> 0" "le_word bs = (of_nat (nat \<bar>n\<bar>) :: uint64)"
    using le_word_digits by blast
  have m2: "nat \<bar>n\<bar> < 2 ^ 63" using assms by (simp add: nat_less_iff)
  then have "unat (of_nat (nat \<bar>n\<bar>) :: uint64) = nat \<bar>n\<bar>"
    by (simp only: unsigned_of_nat) (simp add: take_bit_nat_eq_self)
  with m2 have m: "le_nat bs = nat \<bar>n\<bar>" "nat \<bar>n\<bar> < 2 ^ 63"
    using unat_le_word [OF bs(1)] bs(3) by simp_all
  have ne: "bs \<noteq> []" "last bs \<noteq> 0" using m(1) False bs(2) by auto
  have n: "n = (if n < 0 then - int (le_nat bs) else int (le_nat bs))" using m by auto
  note ser = serialize_digits [OF bs(1) ne _ n]
  have lt: "le_nat bs < 2 ^ 63" using m by simp
  obtain xs y where v: "bs = xs @ [y]" using ne by (cases bs rule: rev_cases) auto
  show ?thesis
  proof (cases "bit y 7")
    case True
    have len: "length bs \<le> 7" by (rule digits_length [OF ne(1) _ lt bs(1)]) (simp add: True v)
    let ?v = "bs @ [if n < 0 then 0x80 else 0]"
    have "minimal_vch ?v" using True by (simp add: minimal_vch_def v nth_append bit7)
    moreover have "set_vch ?v = n"
      using len m(1) True by (subst set_vch_value) (simp_all add: vch_magnitude_def bit_or_80(1) [of 0, simplified])
    ultimately show ?thesis using ser lt True v len by simp
  next
    case False
    have y7: "unat y mod 128 = unat y" using byte_parts [of y] False by simp
    have y0: "y AND 0x7f \<noteq> 0" using ne(2) v y7 and_7f [of y] by (metis unat_eq_zero last_snoc unsigned_0)
    let ?v = "if n < 0 then xs @ [y OR 0x80] else bs"
    have "minimal_vch ?v"
      using y0 by (simp add: minimal_vch_def v) (metis and_7f bit_or_80(2) unsigned_0 unat_eq_zero)
    moreover have "vch_magnitude ?v = nat \<bar>n\<bar>"
      using m(1) y7 bit_or_80(2) [of y] by (simp add: vch_magnitude_def le_nat_append v)
    then have "set_vch ?v = n"
      using bs(1) False bit_or_80(1) [of y] by (subst set_vch_value) (auto simp: v)
    ultimately show ?thesis using ser lt False v bs(1) by (cases "n < 0") simp_all
  qed
qed

lemma CScriptNum_iff:
  assumes "0 < k" "k \<le> 8"
  shows "CScriptNum vch True k = Inr n \<longleftrightarrow> \<bar>n\<bar> < 2 ^ (8 * k - 1) \<and> vch = scriptnum_serialize n"
proof
  assume "CScriptNum vch True k = Inr n"
  then have len: "length vch \<le> k" and n: "n = set_vch vch" and min: "minimal_vch vch"
    by (auto simp: CScriptNum_def minimal_vch_def split: if_splits)
  have "\<bar>n\<bar> < 2 ^ (8 * k - 1)"
  proof (cases "vch = []")
    case True
    then show ?thesis by (simp add: n set_vch_def)
  next
    case False
    have "vch_magnitude vch < 2 ^ (8 * k - 1)"
      by (rule less_le_trans [OF vch_magnitude_less [OF False] power_increasing]) (use len in simp_all)
    then have "int (vch_magnitude vch) < 2 ^ (8 * k - 1)" by (metis of_nat_less_iff of_nat_numeral of_nat_power)
    then show ?thesis using set_vch_value [OF False] len assms(2) n by simp
  qed
  with serialize_minimal_vch [OF min] len assms(2) n
  show "\<bar>n\<bar> < 2 ^ (8 * k - 1) \<and> vch = scriptnum_serialize n" by simp
next
  assume n: "\<bar>n\<bar> < 2 ^ (8 * k - 1) \<and> vch = scriptnum_serialize n"
  have "\<bar>n\<bar> < 2 ^ 63" by (rule less_le_trans [OF conjunct1 [OF n] power_increasing]) (use assms in simp_all)
  from serialize_value [OF this] n have s: "minimal_vch vch" "set_vch vch = n" "length vch \<le> 8" by simp_all
  have "length vch \<le> k"
  proof (rule ccontr)
    assume long: "\<not> length vch \<le> k"
    then have ne: "vch \<noteq> []" by auto
    have "int (vch_magnitude vch) = \<bar>n\<bar>" using set_vch_value [OF ne s(3)] s(2) by (auto split: if_splits)
    then have "int (vch_magnitude vch) < 2 ^ (8 * k - 1)" using n by simp
    then have "vch_magnitude vch < 2 ^ (8 * k - 1)" by (metis of_nat_less_iff of_nat_numeral of_nat_power)
    then have "2 * vch_magnitude vch < 2 * 2 ^ (8 * k - 1)" by simp
    also have "\<dots> = 256 ^ k" using assms(1) by (simp add: pow256 flip: power_Suc)
    also have "\<dots> \<le> 256 ^ (length vch - 1)" using long by (intro power_increasing) simp_all
    finally show False using minimal_vch_magnitude [OF s(1) ne] by simp
  qed
  then show "CScriptNum vch True k = Inr n"
    using s by (auto simp: CScriptNum_def minimal_vch_def)
qed

section \<open>Pushes\<close>

lemma GetScriptOp_push_data:
  assumes "length b < 2 ^ 32"
  shows "\<exists>op. op \<le> OP_PUSHDATA4 \<and> GetScriptOp (push_data b @ r) = Some ((op, b), r)"
proof -
  have sz: "unat (of_nat (length b) :: uint8) = length b" if "length b < 256"
    using that by (simp add: unsigned_of_nat take_bit_nat_eq_self)
  have sz16: "unat (le_word (le_bytes 2 (of_nat (length b) :: 16 word)) :: 16 word) = length b" if "length b < 65536"
    using that by (simp add: le_word_le_bytes unsigned_of_nat take_bit_nat_eq_self)
  have sz32: "unat (le_word (le_bytes 4 (of_nat (length b) :: uint32)) :: uint32) = length b"
    using assms by (simp add: le_word_le_bytes unsigned_of_nat take_bit_nat_eq_self)
  consider "length b < 76" | "76 \<le> length b" "length b \<le> 255" | "255 < length b" "length b \<le> 65535" | "65535 < length b"
    by linarith
  then show ?thesis
  proof cases
    case 1
    then have "(of_nat (length b) :: uint8) < 76" using sz by (simp add: word_less_nat_alt)
    moreover then have "(of_nat (length b) :: uint8) \<le> 78" by (simp add: word_less_nat_alt word_le_nat_alt)
    ultimately show ?thesis using 1 sz by (simp add: push_data_def GetScriptOp_def)
  next
    case 2
    then show ?thesis using sz by (simp add: push_data_def GetScriptOp_def)
  next
    case 3
    then show ?thesis using sz16 by (simp add: push_data_def GetScriptOp_def)
  next
    case 4
    then show ?thesis using sz32 by (simp add: push_data_def GetScriptOp_def)
  qed
qed

text \<open>Each instruction counts at most \<open>MAX_PUBKEYS_PER_MULTISIG\<close> signature operations.\<close>

lemma sigop_loop_bound:
  "unat n + 20 * length pc < 2 ^ 32 \<Longrightarrow> unat (sigop_loop fAccurate n lastOpcode pc) \<le> unat n + 20 * length pc"
proof (induction fAccurate n lastOpcode pc rule: sigop_loop.induct)
  case (1 fAccurate n lastOpcode pc)
  show ?case
  proof (cases "GetScriptOp pc")
    case None
    then show ?thesis by (simp add: sigop_loop.simps [of _ _ _ pc])
  next
    case (Some x)
    obtain opcode d pc' where x: "x = ((opcode, d), pc')" by (metis surj_pair)
    let ?n = "if opcode = OP_CHECKSIG \<or> opcode = OP_CHECKSIGVERIFY then n + 1
             else if opcode = OP_CHECKMULTISIG \<or> opcode = OP_CHECKMULTISIGVERIFY
             then if fAccurate \<and> OP_1 \<le> lastOpcode \<and> lastOpcode \<le> OP_16
                  then n + word_of_int (the (DecodeOP_N lastOpcode))
                  else n + of_nat MAX_PUBKEYS_PER_MULTISIG
             else n"
    have len: "length pc' < length pc" using GetScriptOp_shorter Some x by blast
    have inc: "unat (n + w) \<le> unat n + 20" if "unat w \<le> 20" for w
      using that by (simp add: unat_word_ariths mod_less_eq_dividend [THEN order_trans])
    have dec: "unat (word_of_int (the (DecodeOP_N lastOpcode)) :: uint32) \<le> 20"
      if "OP_1 \<le> lastOpcode" "lastOpcode \<le> OP_16"
    proof -
      have "81 \<le> uint lastOpcode" "uint lastOpcode \<le> 96" using that by (simp_all add: word_le_def)
      moreover then have "take_bit 32 (uint lastOpcode - 80) = uint lastOpcode - 80" by (intro take_bit_int_eq_self) simp_all
      ultimately show ?thesis using that by (auto simp: DecodeOP_N_def unsigned_of_int nat_le_iff)
    qed
    have "unat ?n \<le> unat n + 20" using inc [of 1] inc [of 20] inc [OF dec] by (auto simp: MAX_PUBKEYS_PER_MULTISIG_def)
    with len "1.prems" have "unat ?n + 20 * length pc' \<le> unat n + 20 * length pc" by linarith
    with "1.IH" [OF Some x [symmetric] refl] "1.prems" show ?thesis
      by (subst sigop_loop.simps) (simp add: Some x)
  qed
qed

section \<open>Properties\<close>

text \<open>
  C39: Script numbers. With the minimal-encoding check and a limit of \<open>k\<close> bytes, \<open>CScriptNum\<close>
  accepts exactly the serialisations of the integers of magnitude below \<open>2 ^ (8 * k - 1)\<close>, and
  returns that integer: minimal encodings and integers correspond one to one.
\<close>

theorem scriptnum_codec:
  assumes "0 < k" "k \<le> 8"
  shows "CScriptNum vch True k = Inr n \<longleftrightarrow> \<bar>n\<bar> < 2 ^ (8 * k - 1) \<and> vch = scriptnum_serialize n"
  using CScriptNum_iff [OF assms] .

theorem scriptnum_codec_witness:
  "CScriptNum (scriptnum_serialize (-255)) True 4 = Inr (-255)"
  using scriptnum_codec [of 4 "scriptnum_serialize (-255)" "-255"] by simp

text \<open>
  Signature operation counts do not wrap. For a script whose length times 20 fits into 32
  bits, the count \<open>GetSigOpCount\<close> accumulates in an unsigned 32-bit variable is at most 20 per
  byte of script.
\<close>

theorem sigop_count_bound:
  assumes "20 * length script < 2 ^ 32"
  shows "unat (GetSigOpCount fAccurate script) \<le> 20 * length script"
  using sigop_loop_bound [of 0 script fAccurate OP_INVALIDOPCODE] assms by (simp add: GetSigOpCount_def)

theorem sigop_count_bound_witness:
  "unat (GetSigOpCount True [OP_CHECKSIG, OP_CHECKSIGVERIFY]) \<le> 40"
  using sigop_count_bound [of "[OP_CHECKSIG, OP_CHECKSIGVERIFY]" True] by simp

end
