(* ===== verification/Coins.thy ===== *)
theory Coins
  imports Script Tx_Check "HOL-Library.AList"
begin

text \<open>
  The set of unspent outputs (\<open>src/coins.h\<close>, \<open>src/coins.cpp\<close>, \<open>CCoinsViewDB\<close> in \<open>src/txdb.cpp\<close>).
  A view is a stack of caches over a database. A cache is its list of entries in iteration
  order, the best block and the memory account; the database is a map. \<open>None\<close> is a failed
  assertion or a thrown \<open>std::logic_error\<close>.

  The refinement: \<open>view_coins\<close> is the map from outpoints to unspent coins a view stands for, and
  \<open>wf_view\<close> says what the \<open>DIRTY\<close> and \<open>FRESH\<close> flags promise about the view below.
  \<open>DynamicMemoryUsage\<close> depends on the capacity of a script's buffer and is an argument, \<open>usage\<close>.
\<close>

section \<open>Coins and entries\<close>

record Coin =
  coin_out :: CTxOut
  fCoinBase :: bool
  coin_height :: int

text \<open>\<open>nHeight\<close> is a bit field of 31 bits.\<close>

definition mk_Coin :: "CTxOut \<Rightarrow> int \<Rightarrow> bool \<Rightarrow> Coin" where
  "mk_Coin outIn nHeightIn fCoinBaseIn =
     \<lparr>coin_out = outIn, fCoinBase = fCoinBaseIn, coin_height = take_bit 31 nHeightIn\<rparr>"

definition coinEmpty :: Coin where
  "coinEmpty = \<lparr>coin_out = txout_null, fCoinBase = False, coin_height = 0\<rparr>"

definition IsSpent :: "Coin \<Rightarrow> bool" where
  "IsSpent coin \<longleftrightarrow> txout_IsNull (coin_out coin)"

record CCoinsCacheEntry =
  entry_coin :: Coin
  entry_flags :: uint8

definition DIRTY :: uint8 where "DIRTY = 1"
definition FRESH :: uint8 where "FRESH = 2"

record CCoinsViewCache =
  hashBlock :: uint256
  cacheCoins :: "(COutPoint \<times> CCoinsCacheEntry) list"
  cachedCoinsUsage :: uint64

record CCoinsViewDB =
  db_coins :: "COutPoint \<rightharpoonup> Coin"
  db_best_block :: "uint256 option"
  db_head_blocks :: "uint256 list option"

datatype CCoinsView = ViewDB CCoinsViewDB | ViewCache CCoinsViewCache CCoinsView

section \<open>Reading\<close>

function FetchCoin ::
    "(Coin \<Rightarrow> uint64) \<Rightarrow> CCoinsViewCache \<Rightarrow> CCoinsView \<Rightarrow> COutPoint \<Rightarrow>
     CCoinsCacheEntry option \<times> CCoinsViewCache \<times> CCoinsView"
  and GetCoin :: "(Coin \<Rightarrow> uint64) \<Rightarrow> CCoinsView \<Rightarrow> COutPoint \<Rightarrow> Coin option \<times> CCoinsView" where
  "FetchCoin usage cache base outpoint =
     (case map_of (cacheCoins cache) outpoint of
        Some e \<Rightarrow> (Some e, cache, base)
      | None \<Rightarrow>
          (case GetCoin usage base outpoint of
             (None, base') \<Rightarrow> (None, cache, base')
           | (Some tmp, base') \<Rightarrow>
               let e = \<lparr>entry_coin = tmp, entry_flags = (if IsSpent tmp then FRESH else 0)\<rparr>
               in (Some e,
                   cache\<lparr>cacheCoins := (outpoint, e) # cacheCoins cache,
                         cachedCoinsUsage := cachedCoinsUsage cache + usage tmp\<rparr>,
                   base')))"
| "GetCoin usage (ViewDB db) outpoint = (db_coins db outpoint, ViewDB db)"
| "GetCoin usage (ViewCache cache base) outpoint =
     (case FetchCoin usage cache base outpoint of
        (Some e, cache', base') \<Rightarrow>
          (if IsSpent (entry_coin e) then None else Some (entry_coin e), ViewCache cache' base')
      | (None, cache', base') \<Rightarrow> (None, ViewCache cache' base'))"
  by pat_completeness auto
termination
  by (relation "measure (case_sum (\<lambda>(_, _, base, _). 2 * size base + 1) (\<lambda>(_, view, _). 2 * size view))") auto

definition AccessCoin ::
  "(Coin \<Rightarrow> uint64) \<Rightarrow> CCoinsViewCache \<Rightarrow> CCoinsView \<Rightarrow> COutPoint \<Rightarrow> Coin \<times> CCoinsViewCache \<times> CCoinsView" where
  "AccessCoin usage cache base outpoint =
     (case FetchCoin usage cache base outpoint of
        (None, cache', base') \<Rightarrow> (coinEmpty, cache', base')
      | (Some e, cache', base') \<Rightarrow> (entry_coin e, cache', base'))"

definition HaveCoin ::
  "(Coin \<Rightarrow> uint64) \<Rightarrow> CCoinsViewCache \<Rightarrow> CCoinsView \<Rightarrow> COutPoint \<Rightarrow> bool \<times> CCoinsViewCache \<times> CCoinsView" where
  "HaveCoin usage cache base outpoint =
     (case FetchCoin usage cache base outpoint of
        (None, cache', base') \<Rightarrow> (False, cache', base')
      | (Some e, cache', base') \<Rightarrow> (\<not> IsSpent (entry_coin e), cache', base'))"

definition HaveCoinInCache :: "CCoinsViewCache \<Rightarrow> COutPoint \<Rightarrow> bool" where
  "HaveCoinInCache cache outpoint =
     (case map_of (cacheCoins cache) outpoint of None \<Rightarrow> False | Some e \<Rightarrow> \<not> IsSpent (entry_coin e))"

primrec have_inputs_loop ::
  "(Coin \<Rightarrow> uint64) \<Rightarrow> CCoinsViewCache \<Rightarrow> CCoinsView \<Rightarrow> CTxIn list \<Rightarrow> bool \<times> CCoinsViewCache \<times> CCoinsView" where
  "have_inputs_loop usage cache base [] = (True, cache, base)"
| "have_inputs_loop usage cache base (i # ins) =
     (case HaveCoin usage cache base (prevout i) of
        (False, cache', base') \<Rightarrow> (False, cache', base')
      | (True, cache', base') \<Rightarrow> have_inputs_loop usage cache' base' ins)"

definition HaveInputs ::
  "(Coin \<Rightarrow> uint64) \<Rightarrow> CCoinsViewCache \<Rightarrow> CCoinsView \<Rightarrow> CTransaction \<Rightarrow> bool \<times> CCoinsViewCache \<times> CCoinsView" where
  "HaveInputs usage cache base tx =
     (if \<not> IsCoinBase tx then have_inputs_loop usage cache base (vin tx) else (True, cache, base))"

fun GetBestBlock :: "CCoinsView \<Rightarrow> uint256 \<times> CCoinsView" where
  "GetBestBlock (ViewDB db) = (case db_best_block db of None \<Rightarrow> uint256_zero | Some h \<Rightarrow> h, ViewDB db)"
| "GetBestBlock (ViewCache cache base) =
     (if IsNull (hashBlock cache)
      then let (h, base') = GetBestBlock base in (h, ViewCache (cache\<lparr>hashBlock := h\<rparr>) base')
      else (hashBlock cache, ViewCache cache base))"

section \<open>Changing\<close>

definition AddCoin ::
  "(Coin \<Rightarrow> uint64) \<Rightarrow> CCoinsViewCache \<Rightarrow> COutPoint \<Rightarrow> Coin \<Rightarrow> bool \<Rightarrow> CCoinsViewCache option" where
  "AddCoin usage cache outpoint coin possible_overwrite =
     (if IsSpent coin then None
      else if IsUnspendable (scriptPubKey (coin_out coin)) then Some cache
      else
        let it = map_of (cacheCoins cache) outpoint;
            e = (case it of None \<Rightarrow> \<lparr>entry_coin = coinEmpty, entry_flags = 0\<rparr> | Some e \<Rightarrow> e);
            used = (case it of None \<Rightarrow> cachedCoinsUsage cache | Some e \<Rightarrow> cachedCoinsUsage cache - usage (entry_coin e))
        in if \<not> possible_overwrite \<and> \<not> IsSpent (entry_coin e) then None
           else let fresh = (\<not> possible_overwrite \<and> entry_flags e AND DIRTY = 0)
                in Some (cache\<lparr>cacheCoins :=
                       AList.update outpoint
                         \<lparr>entry_coin = coin,
                          entry_flags = entry_flags e OR (DIRTY OR (if fresh then FRESH else 0))\<rparr>
                         (cacheCoins cache),
                     cachedCoinsUsage := used + usage coin\<rparr>))"

primrec add_coins_loop ::
  "(Coin \<Rightarrow> uint64) \<Rightarrow> uint256 \<Rightarrow> int \<Rightarrow> bool \<Rightarrow> bool \<Rightarrow> nat \<Rightarrow> CTxOut list \<Rightarrow> CCoinsViewCache \<Rightarrow> CCoinsView \<Rightarrow>
   (CCoinsViewCache \<times> CCoinsView) option" where
  "add_coins_loop usage txid height fCoinbase check_for_overwrite i [] cache base = Some (cache, base)"
| "add_coins_loop usage txid height fCoinbase check_for_overwrite i (t # ts) cache base =
     (let op = \<lparr>op_hash = txid, op_n = of_nat i\<rparr>;
          (overwrite, cache1, base1) =
            (if check_for_overwrite then HaveCoin usage cache base op else (fCoinbase, cache, base))
      in do {
        cache2 \<leftarrow> AddCoin usage cache1 op (mk_Coin t height fCoinbase) overwrite;
        add_coins_loop usage txid height fCoinbase check_for_overwrite (Suc i) ts cache2 base1
      })"

definition AddCoins ::
  "(Coin \<Rightarrow> uint64) \<Rightarrow> (bytes \<Rightarrow> uint256) \<Rightarrow> CCoinsViewCache \<Rightarrow> CCoinsView \<Rightarrow> CTransaction \<Rightarrow> int \<Rightarrow> bool \<Rightarrow>
   (CCoinsViewCache \<times> CCoinsView) option" where
  "AddCoins usage Hash cache base tx height check_for_overwrite =
     add_coins_loop usage (tx_GetHash Hash tx) height (IsCoinBase tx) check_for_overwrite 0 (vout tx) cache base"

text \<open>The result \<open>None\<close> of the first component is \<open>false\<close>; otherwise it is the coin moved out.\<close>

definition SpendCoin ::
  "(Coin \<Rightarrow> uint64) \<Rightarrow> CCoinsViewCache \<Rightarrow> CCoinsView \<Rightarrow> COutPoint \<Rightarrow> Coin option \<times> CCoinsViewCache \<times> CCoinsView" where
  "SpendCoin usage cache base outpoint =
     (case FetchCoin usage cache base outpoint of
        (None, cache', base') \<Rightarrow> (None, cache', base')
      | (Some e, cache', base') \<Rightarrow>
          (Some (entry_coin e),
           cache'\<lparr>cacheCoins :=
               (if entry_flags e AND FRESH \<noteq> 0 then AList.delete outpoint (cacheCoins cache')
                else AList.update outpoint \<lparr>entry_coin = coinEmpty, entry_flags = entry_flags e OR DIRTY\<rparr>
                       (cacheCoins cache')),
             cachedCoinsUsage := cachedCoinsUsage cache' - usage (entry_coin e)\<rparr>,
           base'))"

definition SetBestBlock :: "CCoinsViewCache \<Rightarrow> uint256 \<Rightarrow> CCoinsViewCache" where
  "SetBestBlock cache h = cache\<lparr>hashBlock := h\<rparr>"

definition Uncache :: "(Coin \<Rightarrow> uint64) \<Rightarrow> CCoinsViewCache \<Rightarrow> COutPoint \<Rightarrow> CCoinsViewCache" where
  "Uncache usage cache outpoint =
     (case map_of (cacheCoins cache) outpoint of
        None \<Rightarrow> cache
      | Some e \<Rightarrow>
          if entry_flags e = 0
          then cache\<lparr>cacheCoins := AList.delete outpoint (cacheCoins cache),
                     cachedCoinsUsage := cachedCoinsUsage cache - usage (entry_coin e)\<rparr>
          else cache)"

section \<open>Writing back\<close>

text \<open>One entry of the child written into a cache.\<close>

definition batch_entry ::
  "(Coin \<Rightarrow> uint64) \<Rightarrow> CCoinsViewCache \<Rightarrow> COutPoint \<Rightarrow> CCoinsCacheEntry \<Rightarrow> CCoinsViewCache option" where
  "batch_entry usage cache outpoint e =
     (if entry_flags e AND DIRTY = 0 then Some cache
      else case map_of (cacheCoins cache) outpoint of
             None \<Rightarrow>
               Some (if entry_flags e AND FRESH \<noteq> 0 \<and> IsSpent (entry_coin e) then cache
                     else cache\<lparr>cacheCoins :=
                              AList.update outpoint
                                \<lparr>entry_coin = entry_coin e,
                                 entry_flags = (if entry_flags e AND FRESH \<noteq> 0 then DIRTY OR FRESH else DIRTY)\<rparr>
                                (cacheCoins cache),
                            cachedCoinsUsage := cachedCoinsUsage cache + usage (entry_coin e)\<rparr>)
           | Some us \<Rightarrow>
               if entry_flags e AND FRESH \<noteq> 0 \<and> \<not> IsSpent (entry_coin us) then None
               else if entry_flags us AND FRESH \<noteq> 0 \<and> IsSpent (entry_coin e)
               then Some (cache\<lparr>cacheCoins := AList.delete outpoint (cacheCoins cache),
                                cachedCoinsUsage := cachedCoinsUsage cache - usage (entry_coin us)\<rparr>)
               else Some (cache\<lparr>cacheCoins :=
                              AList.update outpoint
                                \<lparr>entry_coin = entry_coin e, entry_flags = entry_flags us OR DIRTY\<rparr> (cacheCoins cache),
                            cachedCoinsUsage := cachedCoinsUsage cache - usage (entry_coin us) + usage (entry_coin e)\<rparr>))"

primrec batch_loop ::
  "(Coin \<Rightarrow> uint64) \<Rightarrow> CCoinsViewCache \<Rightarrow> (COutPoint \<times> CCoinsCacheEntry) list \<Rightarrow> CCoinsViewCache option" where
  "batch_loop usage cache [] = Some cache"
| "batch_loop usage cache (pe # mapCoins) =
     do { cache' \<leftarrow> batch_entry usage cache (fst pe) (snd pe); batch_loop usage cache' mapCoins }"

text \<open>The batch of the database: what the partial batches write, in order.\<close>

primrec db_batch_loop :: "(COutPoint \<rightharpoonup> Coin) \<Rightarrow> (COutPoint \<times> CCoinsCacheEntry) list \<Rightarrow> (COutPoint \<rightharpoonup> Coin)" where
  "db_batch_loop coins [] = coins"
| "db_batch_loop coins (pe # mapCoins) =
     db_batch_loop
       (if entry_flags (snd pe) AND DIRTY \<noteq> 0
        then if IsSpent (entry_coin (snd pe)) then coins(fst pe := None)
             else coins(fst pe \<mapsto> entry_coin (snd pe))
        else coins) mapCoins"

definition db_BatchWrite ::
  "CCoinsViewDB \<Rightarrow> (COutPoint \<times> CCoinsCacheEntry) list \<Rightarrow> uint256 \<Rightarrow> CCoinsViewDB option" where
  "db_BatchWrite db mapCoins h =
     (if IsNull h then None
      else
        let old_tip = (case db_best_block db of None \<Rightarrow> uint256_zero | Some t \<Rightarrow> t);
            old_heads = (case db_head_blocks db of None \<Rightarrow> [] | Some hs \<Rightarrow> hs)
        in if IsNull old_tip \<and> length old_heads = 2 \<and> old_heads ! 0 \<noteq> h then None
           else Some (db\<lparr>db_coins := db_batch_loop (db_coins db) mapCoins,
                         db_best_block := Some h, db_head_blocks := None\<rparr>))"

text \<open>\<open>BatchWrite\<close> returns the view and what is left of the child's entries.\<close>

fun BatchWrite ::
  "(Coin \<Rightarrow> uint64) \<Rightarrow> CCoinsView \<Rightarrow> (COutPoint \<times> CCoinsCacheEntry) list \<Rightarrow> uint256 \<Rightarrow> bool \<Rightarrow>
   (CCoinsView \<times> (COutPoint \<times> CCoinsCacheEntry) list) option" where
  "BatchWrite usage (ViewDB db) mapCoins h erase =
     map_option (\<lambda>db'. (ViewDB db', if erase then [] else mapCoins)) (db_BatchWrite db mapCoins h)"
| "BatchWrite usage (ViewCache cache base) mapCoins h erase =
     map_option (\<lambda>cache'. (ViewCache (cache'\<lparr>hashBlock := h\<rparr>) base, if erase then [] else mapCoins))
       (batch_loop usage cache mapCoins)"

definition Flush ::
  "(Coin \<Rightarrow> uint64) \<Rightarrow> CCoinsViewCache \<Rightarrow> CCoinsView \<Rightarrow> (CCoinsViewCache \<times> CCoinsView) option" where
  "Flush usage cache base = do {
     (base', rest) \<leftarrow> BatchWrite usage base (cacheCoins cache) (hashBlock cache) True;
     (if rest \<noteq> [] then None
      else Some (cache\<lparr>cacheCoins := rest, cachedCoinsUsage := 0\<rparr>, base'))
   }"

text \<open>The clean-up of \<open>Sync\<close>: spent coins are erased, the others lose their flags.\<close>

primrec sync_loop ::
  "(Coin \<Rightarrow> uint64) \<Rightarrow> uint64 \<Rightarrow> (COutPoint \<times> CCoinsCacheEntry) list \<Rightarrow> (COutPoint \<times> CCoinsCacheEntry) list \<times> uint64" where
  "sync_loop usage used [] = ([], used)"
| "sync_loop usage used (pe # es) =
     (if IsSpent (entry_coin (snd pe)) then sync_loop usage (used - usage (entry_coin (snd pe))) es
      else let (es', used') = sync_loop usage used es in ((fst pe, (snd pe)\<lparr>entry_flags := 0\<rparr>) # es', used'))"

definition Sync ::
  "(Coin \<Rightarrow> uint64) \<Rightarrow> CCoinsViewCache \<Rightarrow> CCoinsView \<Rightarrow> (CCoinsViewCache \<times> CCoinsView) option" where
  "Sync usage cache base = do {
     (base', es) \<leftarrow> BatchWrite usage base (cacheCoins cache) (hashBlock cache) False;
     let (es', used) = sync_loop usage (cachedCoinsUsage cache) es;
     Some (cache\<lparr>cacheCoins := es', cachedCoinsUsage := used\<rparr>, base')
   }"

text \<open>\<open>SanityCheck\<close>: whether its assertions hold.\<close>

definition entry_sane :: "CCoinsCacheEntry \<Rightarrow> bool" where
  "entry_sane e =
     (let attr = (if entry_flags e AND DIRTY \<noteq> 0 then 1 else 0 :: nat) +
                 (if entry_flags e AND FRESH \<noteq> 0 then 2 else 0) + (if IsSpent (entry_coin e) then 4 else 0)
      in attr \<noteq> 2 \<and> attr \<noteq> 4 \<and> attr \<noteq> 7)"

definition SanityCheck :: "(Coin \<Rightarrow> uint64) \<Rightarrow> CCoinsViewCache \<Rightarrow> bool" where
  "SanityCheck usage cache \<longleftrightarrow>
     list_all (\<lambda>(p, e). entry_sane e) (cacheCoins cache) \<and>
     sum_list (map (\<lambda>(p, e). usage (entry_coin e)) (cacheCoins cache)) = cachedCoinsUsage cache"

text \<open>\<open>AccessByTxid\<close>: the first unspent output of a transaction, by index.\<close>

definition MAX_OUTPUTS_PER_BLOCK :: nat where
  "MAX_OUTPUTS_PER_BLOCK = MAX_BLOCK_WEIGHT div (WITNESS_SCALE_FACTOR * length (ser_txout txout_null))"

primrec access_by_txid_loop ::
  "(Coin \<Rightarrow> uint64) \<Rightarrow> uint256 \<Rightarrow> nat \<Rightarrow> uint32 \<Rightarrow> CCoinsViewCache \<Rightarrow> CCoinsView \<Rightarrow> Coin \<times> CCoinsViewCache \<times> CCoinsView" where
  "access_by_txid_loop usage txid 0 n cache base = (coinEmpty, cache, base)"
| "access_by_txid_loop usage txid (Suc k) n cache base =
     (let (alternate, cache', base') = AccessCoin usage cache base \<lparr>op_hash = txid, op_n = n\<rparr>
      in if \<not> IsSpent alternate then (alternate, cache', base')
         else access_by_txid_loop usage txid k (n + 1) cache' base')"

definition AccessByTxid ::
  "(Coin \<Rightarrow> uint64) \<Rightarrow> CCoinsViewCache \<Rightarrow> CCoinsView \<Rightarrow> uint256 \<Rightarrow> Coin \<times> CCoinsViewCache \<times> CCoinsView" where
  "AccessByTxid usage cache base txid = access_by_txid_loop usage txid MAX_OUTPUTS_PER_BLOCK 0 cache base"

section \<open>What a view stands for\<close>

definition coin_opt :: "CCoinsCacheEntry \<Rightarrow> Coin option" where
  "coin_opt e = (if IsSpent (entry_coin e) then None else Some (entry_coin e))"

primrec view_coins :: "CCoinsView \<Rightarrow> COutPoint \<rightharpoonup> Coin" where
  "view_coins (ViewDB db) = db_coins db"
| "view_coins (ViewCache cache base) =
     (\<lambda>p. case map_of (cacheCoins cache) p of Some e \<Rightarrow> coin_opt e | None \<Rightarrow> view_coins base p)"

text \<open>
  The promise of the flags of an entry, given the unspent coin of the view below: a \<open>FRESH\<close> entry
  has none below, an entry that is not \<open>DIRTY\<close> agrees with it, and a spent entry is kept only
  to be written back.
\<close>

definition entry_ok :: "Coin option \<Rightarrow> CCoinsCacheEntry \<Rightarrow> bool" where
  "entry_ok below e \<longleftrightarrow>
     entry_flags e \<in> {0, 1, 2, 3} \<and>
     (entry_flags e AND FRESH \<noteq> 0 \<longrightarrow> below = None) \<and>
     (entry_flags e AND DIRTY = 0 \<longrightarrow> coin_opt e = below) \<and>
     entry_sane e"

definition total_usage :: "(Coin \<Rightarrow> uint64) \<Rightarrow> (COutPoint \<times> CCoinsCacheEntry) list \<Rightarrow> uint64" where
  "total_usage usage es = sum_list (map (\<lambda>(p, e). usage (entry_coin e)) es)"

definition cache_ok :: "(Coin \<Rightarrow> uint64) \<Rightarrow> (COutPoint \<rightharpoonup> Coin) \<Rightarrow> CCoinsViewCache \<Rightarrow> bool" where
  "cache_ok usage below cache \<longleftrightarrow>
     distinct (map fst (cacheCoins cache)) \<and>
     (\<forall>p e. map_of (cacheCoins cache) p = Some e \<longrightarrow> entry_ok (below p) e) \<and>
     cachedCoinsUsage cache = total_usage usage (cacheCoins cache)"

primrec wf_view :: "(Coin \<Rightarrow> uint64) \<Rightarrow> CCoinsView \<Rightarrow> bool" where
  "wf_view usage (ViewDB db) \<longleftrightarrow> (\<forall>p coin. db_coins db p = Some coin \<longrightarrow> \<not> IsSpent coin)"
| "wf_view usage (ViewCache cache base) \<longleftrightarrow> cache_ok usage (view_coins base) cache \<and> wf_view usage base"

section \<open>Entries\<close>

lemma IsSpent_coinEmpty [simp]: "IsSpent coinEmpty"
  by (simp add: IsSpent_def coinEmpty_def txout_IsNull_def txout_null_def)

lemmas flag_defs = DIRTY_def FRESH_def

lemma view_coins_unspent: "wf_view usage v \<Longrightarrow> view_coins v p = Some coin \<Longrightarrow> \<not> IsSpent coin"
  by (induction v) (auto simp: coin_opt_def split: option.splits if_splits)

lemma total_usage_Cons [simp]: "total_usage usage (pe # es) = usage (entry_coin (snd pe)) + total_usage usage es"
  by (simp add: total_usage_def case_prod_beta)

lemma total_usage_Nil [simp]: "total_usage usage [] = 0"
  by (simp add: total_usage_def)

lemma total_usage_update:
  "distinct (map fst es) \<Longrightarrow>
   total_usage usage (AList.update p e es) =
     total_usage usage es - (case map_of es p of None \<Rightarrow> 0 | Some d \<Rightarrow> usage (entry_coin d)) + usage (entry_coin e)"
  by (induction es) (auto simp: algebra_simps split: option.splits)

lemma total_usage_delete:
  "distinct (map fst es) \<Longrightarrow>
   total_usage usage (AList.delete p es) =
     total_usage usage es - (case map_of es p of None \<Rightarrow> 0 | Some d \<Rightarrow> usage (entry_coin d))"
proof (induction es)
  case (Cons x es)
  show ?case
  proof (cases "fst x = p")
    case True
    with Cons.prems have "p \<notin> fst ` set es" by auto
    then have "filter (\<lambda>(k', _). p \<noteq> k') es = es" by (force simp: filter_id_conv)
    with True show ?thesis by (cases x) (simp add: AList.delete_eq)
  next
    case False
    with Cons show ?thesis by (auto simp: AList.delete_eq algebra_simps split: option.splits)
  qed
qed (simp add: AList.delete_eq)

text \<open>Replacing or removing one entry of a cache.\<close>

lemma cache_ok_update:
  assumes "cache_ok usage below cache" "entry_ok (below p) e"
    "used = cachedCoinsUsage cache - (case map_of (cacheCoins cache) p of None \<Rightarrow> 0 | Some d \<Rightarrow> usage (entry_coin d)) + usage (entry_coin e)"
  shows "cache_ok usage below (cache\<lparr>cacheCoins := AList.update p e (cacheCoins cache), cachedCoinsUsage := used\<rparr>)"
  using assms by (auto simp: cache_ok_def total_usage_update distinct_update update_conv' split: if_splits)

lemma cache_ok_delete:
  assumes "cache_ok usage below cache"
    "used = cachedCoinsUsage cache - (case map_of (cacheCoins cache) p of None \<Rightarrow> 0 | Some d \<Rightarrow> usage (entry_coin d))"
  shows "cache_ok usage below (cache\<lparr>cacheCoins := AList.delete p (cacheCoins cache), cachedCoinsUsage := used\<rparr>)"
  using assms by (auto simp: cache_ok_def total_usage_delete distinct_delete delete_conv' split: if_splits)

lemma cache_ok_cong: "cache_ok usage below cache \<Longrightarrow> (\<And>p. below p = below' p) \<Longrightarrow> cache_ok usage below' cache"
  by (simp add: cache_ok_def)

section \<open>Reading keeps the coins\<close>

lemma view_coins_at:
  "map_of (cacheCoins cache) p = Some e \<Longrightarrow> view_coins (ViewCache cache base) p = coin_opt e"
  "map_of (cacheCoins cache) p = None \<Longrightarrow> view_coins (ViewCache cache base) p = view_coins base p"
  by simp_all

declare view_coins.simps(2) [simp del] FetchCoin.simps [simp del]

lemma view_coins_cong:
  "view_coins base' = view_coins base \<Longrightarrow> view_coins (ViewCache cache base') = view_coins (ViewCache cache base)"
  by (simp only: view_coins.simps)

lemma fetch_get_ok:
  "wf_view usage (ViewCache cache base) \<Longrightarrow>
     (case FetchCoin usage cache base p of (r, cache', base') \<Rightarrow>
        wf_view usage (ViewCache cache' base') \<and> view_coins (ViewCache cache' base') = view_coins (ViewCache cache base) \<and>
        view_coins base' = view_coins base \<and> map_of (cacheCoins cache') p = r \<and>
        Option.bind r coin_opt = view_coins (ViewCache cache base) p)"
  "wf_view usage view \<Longrightarrow>
     (case GetCoin usage view p of (r, view') \<Rightarrow>
        r = view_coins view p \<and> wf_view usage view' \<and> view_coins view' = view_coins view)"
proof (induction usage cache base p and usage view p rule: FetchCoin_GetCoin.induct)
  case (1 usage cache base p)
  show ?case
  proof (cases "map_of (cacheCoins cache) p")
    case (Some e)
    with "1.prems" show ?thesis by (simp add: view_coins_at FetchCoin.simps)
  next
    case None
    obtain r base' where g: "GetCoin usage base p = (r, base')" by (cases "GetCoin usage base p")
    with "1.IH" [OF None] "1.prems" have b: "r = view_coins base p" "wf_view usage base'" "view_coins base' = view_coins base" by auto
    show ?thesis
    proof (cases r)
      case None
      with g b "1.prems" \<open>map_of (cacheCoins cache) p = None\<close> view_coins_cong [OF b(3), of cache] show ?thesis
        by (simp add: view_coins_at FetchCoin.simps)
    next
      case r: (Some tmp)
      then have uns: "\<not> IsSpent tmp" using b(1) view_coins_unspent "1.prems" by auto
      let ?e = "\<lparr>entry_coin = tmp, entry_flags = 0\<rparr>"
      have "entry_ok (view_coins base p) ?e"
        using uns b(1) r by (simp add: entry_ok_def coin_opt_def entry_sane_def flag_defs)
      then have "cache_ok usage (view_coins base) (cache\<lparr>cacheCoins := (p, ?e) # cacheCoins cache,
           cachedCoinsUsage := cachedCoinsUsage cache + usage tmp\<rparr>)"
        using "1.prems" None by (auto simp: cache_ok_def map_of_eq_None_iff)
      moreover have "view_coins (ViewCache (cache\<lparr>cacheCoins := (p, ?e) # cacheCoins cache,
           cachedCoinsUsage := cachedCoinsUsage cache + usage tmp\<rparr>) base') = view_coins (ViewCache cache base)"
        using r b(1) uns None unfolding view_coins_cong [OF b(3)] by (auto simp: fun_eq_iff coin_opt_def view_coins.simps(2))
      moreover have "FetchCoin usage cache base p = (Some ?e, cache\<lparr>cacheCoins := (p, ?e) # cacheCoins cache,
           cachedCoinsUsage := cachedCoinsUsage cache + usage tmp\<rparr>, base')"
        using g r uns None by (simp add: Let_def FetchCoin.simps)
      ultimately show ?thesis
        using r b uns None by (simp add: coin_opt_def view_coins_at(2))
    qed
  qed
next
  case (2 usage db p)
  then show ?case by simp
next
  case (3 usage cache base p)
  obtain r cache' base' where "FetchCoin usage cache base p = (r, cache', base')" by (metis surj_pair)
  with "3.IH" "3.prems" show ?case by (cases r) (auto simp: coin_opt_def)
qed

lemma FetchCoin_ok:
  assumes "wf_view usage (ViewCache cache base)" "FetchCoin usage cache base p = (r, cache', base')"
  shows "wf_view usage (ViewCache cache' base')" "view_coins (ViewCache cache' base') = view_coins (ViewCache cache base)"
    "view_coins base' = view_coins base" "map_of (cacheCoins cache') p = r"
    "Option.bind r coin_opt = view_coins (ViewCache cache base) p"
  using fetch_get_ok(1) [OF assms(1), of p] assms(2) by auto

lemma AccessCoin_ok:
  assumes "wf_view usage (ViewCache cache base)"
  obtains cache' base' coin where "AccessCoin usage cache base p = (coin, cache', base')"
    "wf_view usage (ViewCache cache' base')" "view_coins (ViewCache cache' base') = view_coins (ViewCache cache base)"
    "view_coins base' = view_coins base"
    "(if IsSpent coin then None else Some coin) = view_coins (ViewCache cache base) p"
proof -
  obtain r cache' base' where f: "FetchCoin usage cache base p = (r, cache', base')" by (metis surj_pair)
  note ok = FetchCoin_ok [OF assms f]
  show ?thesis
    by (rule that [of "case r of None \<Rightarrow> coinEmpty | Some e \<Rightarrow> entry_coin e" cache' base'])
      (use f ok in \<open>auto simp: AccessCoin_def coin_opt_def split: option.splits\<close>)
qed

lemma HaveCoin_ok:
  assumes "wf_view usage (ViewCache cache base)"
  obtains cache' base' where "HaveCoin usage cache base p = (view_coins (ViewCache cache base) p \<noteq> None, cache', base')"
    "wf_view usage (ViewCache cache' base')" "view_coins (ViewCache cache' base') = view_coins (ViewCache cache base)"
    "view_coins base' = view_coins base"
proof -
  obtain r cache' base' where f: "FetchCoin usage cache base p = (r, cache', base')" by (metis surj_pair)
  note ok = FetchCoin_ok [OF assms f]
  show ?thesis
    by (rule that [of cache' base'])
      (use f ok in \<open>auto simp: HaveCoin_def coin_opt_def dest: sym split: option.splits if_splits\<close>)
qed

lemma have_inputs_ok:
  "wf_view usage (ViewCache cache base) \<Longrightarrow>
   \<exists>cache' base'. have_inputs_loop usage cache base ins =
      (\<forall>i \<in> set ins. view_coins (ViewCache cache base) (prevout i) \<noteq> None, cache', base') \<and>
    wf_view usage (ViewCache cache' base') \<and> view_coins (ViewCache cache' base') = view_coins (ViewCache cache base) \<and>
    view_coins base' = view_coins base"
proof (induction ins arbitrary: cache base)
  case (Cons i ins)
  from HaveCoin_ok [OF Cons.prems, of "prevout i"] obtain c1 b1 where h:
    "HaveCoin usage cache base (prevout i) = (view_coins (ViewCache cache base) (prevout i) \<noteq> None, c1, b1)"
    "wf_view usage (ViewCache c1 b1)" "view_coins (ViewCache c1 b1) = view_coins (ViewCache cache base)"
    "view_coins b1 = view_coins base" .
  show ?case
  proof (cases "view_coins (ViewCache cache base) (prevout i)")
    case None
    with h show ?thesis by auto
  next
    case (Some x)
    with h Cons.IH [OF h(2)] show ?thesis by simp
  qed
qed simp

section \<open>Changing the coins\<close>

lemma entry_ok_add:
  assumes "entry_ok below e" "\<not> IsSpent coin" "\<not> overwrite \<Longrightarrow> IsSpent (entry_coin e)"
  shows "entry_ok below \<lparr>entry_coin = coin,
    entry_flags = entry_flags e OR (DIRTY OR (if \<not> overwrite \<and> entry_flags e AND DIRTY = 0 then FRESH else 0))\<rparr>"
  using assms by (auto simp: entry_ok_def entry_sane_def flag_defs coin_opt_def split: if_splits)

lemma AddCoin_ok:
  assumes wf: "wf_view usage (ViewCache cache base)" and coin: "\<not> IsSpent coin" "\<not> IsUnspendable (scriptPubKey (coin_out coin))"
    and ow: "overwrite \<or> view_coins (ViewCache cache base) p = None"
  obtains cache' where "AddCoin usage cache p coin overwrite = Some cache'" "wf_view usage (ViewCache cache' base)"
    "view_coins (ViewCache cache' base) = (view_coins (ViewCache cache base))(p \<mapsto> coin)"
    "hashBlock cache' = hashBlock cache"
proof -
  define e where "e = (case map_of (cacheCoins cache) p of None \<Rightarrow> \<lparr>entry_coin = coinEmpty, entry_flags = 0\<rparr> | Some e \<Rightarrow> e)"
  let ?f = "entry_flags e OR (DIRTY OR (if \<not> overwrite \<and> entry_flags e AND DIRTY = 0 then FRESH else 0))"
  let ?e = "\<lparr>entry_coin = coin, entry_flags = ?f\<rparr>"
  let ?u = "cachedCoinsUsage cache - (case map_of (cacheCoins cache) p of None \<Rightarrow> 0 | Some d \<Rightarrow> usage (entry_coin d)) + usage coin"
  let ?c = "cache\<lparr>cacheCoins := AList.update p ?e (cacheCoins cache), cachedCoinsUsage := ?u\<rparr>"
  have sp: "IsSpent (entry_coin e)" if "\<not> overwrite"
    using that ow by (auto simp: e_def view_coins.simps(2) coin_opt_def split: option.splits if_splits)
  have ok: "entry_ok (view_coins base p) ?e"
  proof (cases "map_of (cacheCoins cache) p")
    case None
    then show ?thesis
      using ow coin(1) by (auto simp: e_def entry_ok_def entry_sane_def flag_defs coin_opt_def view_coins_at split: if_splits)
  next
    case (Some d)
    then have "entry_ok (view_coins base p) e" using wf by (simp add: e_def cache_ok_def)
    from entry_ok_add [OF this coin(1) sp] show ?thesis .
  qed
  have "AddCoin usage cache p coin overwrite = Some ?c"
    using coin sp by (cases overwrite) (auto simp: AddCoin_def e_def Let_def split: option.splits)
  moreover have "wf_view usage (ViewCache ?c base)"
    using wf ok by (auto intro!: cache_ok_update)
  moreover have "view_coins (ViewCache ?c base) = (view_coins (ViewCache cache base))(p \<mapsto> coin)"
    using coin by (auto simp: view_coins.simps(2) update_conv' fun_eq_iff coin_opt_def)
  ultimately show ?thesis using that by simp
qed

lemma SpendCoin_ok:
  assumes wf: "wf_view usage (ViewCache cache base)" and usage0: "usage coinEmpty = 0"
  obtains cache' base' r where "SpendCoin usage cache base p = (r, cache', base')" "wf_view usage (ViewCache cache' base')"
    "view_coins (ViewCache cache' base') = (view_coins (ViewCache cache base))(p := None)"
    "\<forall>coin. view_coins (ViewCache cache base) p = Some coin \<longrightarrow> r = Some coin" "view_coins base' = view_coins base"
proof -
  obtain r c1 b1 where f: "FetchCoin usage cache base p = (r, c1, b1)" by (metis surj_pair)
  note ok = FetchCoin_ok [OF wf f]
  show ?thesis
  proof (cases r)
    case None
    then show ?thesis
      using that [of None c1 b1] f ok by (auto simp: SpendCoin_def fun_eq_iff)
  next
    case (Some e)
    then have eok: "entry_ok (view_coins b1 p) e" using ok(1,4) by (auto simp: cache_ok_def)
    let ?es = "if entry_flags e AND FRESH \<noteq> 0 then AList.delete p (cacheCoins c1)
                else AList.update p \<lparr>entry_coin = coinEmpty, entry_flags = entry_flags e OR DIRTY\<rparr> (cacheCoins c1)"
    let ?c = "c1\<lparr>cacheCoins := ?es, cachedCoinsUsage := cachedCoinsUsage c1 - usage (entry_coin e)\<rparr>"
    have sp: "SpendCoin usage cache base p = (Some (entry_coin e), ?c, b1)" using f Some by (simp add: SpendCoin_def)
    have m: "map_of (cacheCoins c1) p = Some e" using ok(4) Some by simp
    have "cache_ok usage (view_coins b1) ?c"
    proof (cases "entry_flags e AND FRESH = 0")
      case True
      have "entry_ok (view_coins b1 p) \<lparr>entry_coin = coinEmpty, entry_flags = entry_flags e OR DIRTY\<rparr>"
        using eok True by (auto simp: entry_ok_def entry_sane_def flag_defs)
      from cache_ok_update [of usage "view_coins b1" c1 p, OF _ this] show ?thesis using ok(1) True m usage0 by simp
    next
      case False
      from cache_ok_delete [of usage "view_coins b1" c1 _ p] show ?thesis using ok(1) False m by simp
    qed
    moreover have "view_coins (ViewCache ?c b1) = (view_coins (ViewCache c1 b1))(p := None)"
    proof (cases "entry_flags e AND FRESH = 0")
      case True
      then show ?thesis by (auto simp: view_coins.simps(2) update_conv' fun_eq_iff coin_opt_def)
    next
      case False
      then have "view_coins b1 p = None" using eok by (simp add: entry_ok_def)
      with False show ?thesis by (auto simp: view_coins.simps(2) delete_conv' fun_eq_iff)
    qed
    moreover have "\<forall>coin. view_coins (ViewCache cache base) p = Some coin \<longrightarrow> Some (entry_coin e) = Some coin"
      using ok(5) Some by (auto simp: coin_opt_def split: if_splits)
    ultimately show ?thesis
      using that [OF sp] ok by simp
  qed
qed

lemma Uncache_ok:
  assumes wf: "wf_view usage (ViewCache cache base)"
  shows "wf_view usage (ViewCache (Uncache usage cache p) base) \<and>
    view_coins (ViewCache (Uncache usage cache p) base) = view_coins (ViewCache cache base)"
proof (cases "\<exists>e. map_of (cacheCoins cache) p = Some e \<and> entry_flags e = 0")
  case True
  then obtain e where e: "map_of (cacheCoins cache) p = Some e" "entry_flags e = 0" by blast
  then have "coin_opt e = view_coins base p" using wf by (auto simp: cache_ok_def entry_ok_def)
  moreover have "cache_ok usage (view_coins base) (cache\<lparr>cacheCoins := AList.delete p (cacheCoins cache),
      cachedCoinsUsage := cachedCoinsUsage cache - usage (entry_coin e)\<rparr>)"
    using wf e by (intro cache_ok_delete) simp_all
  ultimately show ?thesis
    using wf e by (auto simp: Uncache_def view_coins.simps(2) delete_conv' fun_eq_iff)
next
  case False
  then have "Uncache usage cache p = cache" by (auto simp: Uncache_def split: option.splits)
  with wf show ?thesis by simp
qed

section \<open>Writing back keeps the coins\<close>

lemma batch_entry_ok:
  assumes wf: "wf_view usage (ViewCache cache base)" and e: "entry_ok (view_coins (ViewCache cache base) p) e"
  shows "\<exists>cache'. batch_entry usage cache p e = Some cache' \<and> wf_view usage (ViewCache cache' base) \<and>
    view_coins (ViewCache cache' base) = (view_coins (ViewCache cache base))(p := coin_opt e)"
proof (cases "entry_flags e AND DIRTY = 0")
  case True
  with e wf show ?thesis by (auto simp: batch_entry_def entry_ok_def)
next
  case dirty: False
  show ?thesis
  proof (cases "map_of (cacheCoins cache) p")
    case None
    let ?f = "if entry_flags e AND FRESH \<noteq> 0 then DIRTY OR FRESH else DIRTY"
    let ?e = "\<lparr>entry_coin = entry_coin e, entry_flags = ?f\<rparr>"
    let ?c = "cache\<lparr>cacheCoins := AList.update p ?e (cacheCoins cache), cachedCoinsUsage := cachedCoinsUsage cache + usage (entry_coin e)\<rparr>"
    have ns: "\<not> (entry_flags e AND FRESH \<noteq> 0 \<and> IsSpent (entry_coin e))"
      using e dirty by (auto simp: entry_ok_def entry_sane_def)
    have "entry_ok (view_coins base p) ?e"
      using e ns None by (auto simp: entry_ok_def entry_sane_def flag_defs view_coins_at)
    then have "wf_view usage (ViewCache ?c base)"
      using wf None by (auto intro!: cache_ok_update)
    moreover have "view_coins (ViewCache ?c base) = (view_coins (ViewCache cache base))(p := coin_opt e)"
      by (auto simp: view_coins.simps(2) update_conv' fun_eq_iff coin_opt_def)
    ultimately show ?thesis using dirty None ns by (auto simp: batch_entry_def)
  next
    case (Some us)
    then have us: "entry_ok (view_coins base p) us" "coin_opt us = view_coins (ViewCache cache base) p"
      using wf by (simp_all add: cache_ok_def view_coins_at)
    have nothrow: "\<not> (entry_flags e AND FRESH \<noteq> 0 \<and> \<not> IsSpent (entry_coin us))"
      using e us(2) by (auto simp: entry_ok_def coin_opt_def)
    show ?thesis
    proof (cases "entry_flags us AND FRESH \<noteq> 0 \<and> IsSpent (entry_coin e)")
      case True
      let ?c = "cache\<lparr>cacheCoins := AList.delete p (cacheCoins cache), cachedCoinsUsage := cachedCoinsUsage cache - usage (entry_coin us)\<rparr>"
      have "wf_view usage (ViewCache ?c base)" using wf Some by (auto intro!: cache_ok_delete)
      moreover have "view_coins (ViewCache ?c base) = (view_coins (ViewCache cache base))(p := coin_opt e)"
        using True us(1) by (auto simp: view_coins.simps(2) delete_conv' fun_eq_iff coin_opt_def entry_ok_def)
      ultimately show ?thesis using dirty Some nothrow True by (auto simp: batch_entry_def)
    next
      case False
      let ?e = "\<lparr>entry_coin = entry_coin e, entry_flags = entry_flags us OR DIRTY\<rparr>"
      let ?c = "cache\<lparr>cacheCoins := AList.update p ?e (cacheCoins cache),
                  cachedCoinsUsage := cachedCoinsUsage cache - usage (entry_coin us) + usage (entry_coin e)\<rparr>"
      have "entry_ok (view_coins base p) ?e"
        using us(1) False by (auto simp: entry_ok_def entry_sane_def flag_defs)
      then have "wf_view usage (ViewCache ?c base)" using wf Some by (auto intro!: cache_ok_update)
      moreover have "view_coins (ViewCache ?c base) = (view_coins (ViewCache cache base))(p := coin_opt e)"
        by (auto simp: view_coins.simps(2) update_conv' fun_eq_iff coin_opt_def)
      ultimately show ?thesis using dirty Some nothrow False by (auto simp: batch_entry_def)
    qed
  qed
qed

lemma batch_loop_ok:
  "wf_view usage (ViewCache cache base) \<Longrightarrow> distinct (map fst es) \<Longrightarrow>
   \<forall>p e. map_of es p = Some e \<longrightarrow> entry_ok (view_coins (ViewCache cache base) p) e \<Longrightarrow>
   \<exists>cache'. batch_loop usage cache es = Some cache' \<and> wf_view usage (ViewCache cache' base) \<and>
     view_coins (ViewCache cache' base) = (\<lambda>p. case map_of es p of Some e \<Rightarrow> coin_opt e | None \<Rightarrow> view_coins (ViewCache cache base) p)"
proof (induction es arbitrary: cache)
  case (Cons pe es)
  obtain p e where pe: "pe = (p, e)" by (cases pe)
  have "entry_ok (view_coins (ViewCache cache base) p) e" using Cons.prems(3) pe by simp
  from batch_entry_ok [OF Cons.prems(1) this] obtain c1 where c1: "batch_entry usage cache p e = Some c1"
    "wf_view usage (ViewCache c1 base)" "view_coins (ViewCache c1 base) = (view_coins (ViewCache cache base))(p := coin_opt e)" by blast
  have np: "map_of es p = None" using Cons.prems(2) pe by (auto simp: map_of_eq_None_iff)
  have "\<forall>q d. map_of es q = Some d \<longrightarrow> entry_ok (view_coins (ViewCache c1 base) q) d"
    using Cons.prems(3) c1(3) np pe by (auto split: if_splits)
  from Cons.IH [OF c1(2) _ this] Cons.prems(2) obtain c2 where c2: "batch_loop usage c1 es = Some c2"
    "wf_view usage (ViewCache c2 base)"
    "view_coins (ViewCache c2 base) = (\<lambda>p. case map_of es p of Some e \<Rightarrow> coin_opt e | None \<Rightarrow> view_coins (ViewCache c1 base) p)" by auto
  have "view_coins (ViewCache c2 base) =
      (\<lambda>q. case map_of (pe # es) q of Some e \<Rightarrow> coin_opt e | None \<Rightarrow> view_coins (ViewCache cache base) q)"
    unfolding c2(3) c1(3) using np pe by (auto simp: fun_eq_iff split: option.splits)
  with c1 c2 pe show ?case by auto
qed simp

lemma db_batch_loop_value:
  "distinct (map fst es) \<Longrightarrow> \<forall>p e. map_of es p = Some e \<longrightarrow> entry_ok (coins p) e \<Longrightarrow>
   db_batch_loop coins es = (\<lambda>p. case map_of es p of Some e \<Rightarrow> coin_opt e | None \<Rightarrow> coins p)"
proof (induction es arbitrary: coins)
  case (Cons pe es)
  obtain p e where pe: "pe = (p, e)" by (cases pe)
  have e: "entry_ok (coins p) e" using Cons.prems(2) pe by simp
  have np: "map_of es p = None" using Cons.prems(1) pe by (auto simp: map_of_eq_None_iff)
  let ?c = "coins(p := coin_opt e)"
  have "\<forall>q d. map_of es q = Some d \<longrightarrow> entry_ok (?c q) d" using Cons.prems(2) np pe by (auto split: if_splits)
  with Cons have IH: "db_batch_loop ?c es = (\<lambda>p. case map_of es p of Some e \<Rightarrow> coin_opt e | None \<Rightarrow> ?c p)" by simp
  have "db_batch_loop coins (pe # es) = db_batch_loop ?c es"
    using e pe by (auto simp: entry_ok_def coin_opt_def)
  then show ?case unfolding IH using np pe by (auto simp: fun_eq_iff split: option.splits)
qed simp

text \<open>What the database asserts before a write.\<close>

fun can_write :: "CCoinsView \<Rightarrow> uint256 \<Rightarrow> bool" where
  "can_write (ViewDB db) h \<longleftrightarrow> db_BatchWrite db [] h \<noteq> None"
| "can_write (ViewCache cache base) h \<longleftrightarrow> True"

lemma BatchWrite_ok:
  assumes wf: "wf_view usage base" and es: "distinct (map fst es)" "\<forall>p e. map_of es p = Some e \<longrightarrow> entry_ok (view_coins base p) e"
    and cw: "can_write base h"
  shows "\<exists>base'. BatchWrite usage base es h erase = Some (base', if erase then [] else es) \<and> wf_view usage base' \<and>
    view_coins base' = (\<lambda>p. case map_of es p of Some e \<Rightarrow> coin_opt e | None \<Rightarrow> view_coins base p)"
proof (cases base)
  case (ViewDB db)
  have "db_BatchWrite db es h = Some (db\<lparr>db_coins := db_batch_loop (db_coins db) es, db_best_block := Some h, db_head_blocks := None\<rparr>)"
    using cw ViewDB by (auto simp: db_BatchWrite_def Let_def split: if_splits)
  moreover have "db_batch_loop (db_coins db) es = (\<lambda>p. case map_of es p of Some e \<Rightarrow> coin_opt e | None \<Rightarrow> db_coins db p)"
    using es ViewDB by (intro db_batch_loop_value) simp_all
  ultimately show ?thesis
    using wf ViewDB by (auto simp: coin_opt_def split: option.splits if_splits)
next
  case (ViewCache cache b)
  from batch_loop_ok [of usage cache b es] wf es ViewCache obtain cache' where c:
    "batch_loop usage cache es = Some cache'" "wf_view usage (ViewCache cache' b)"
    "view_coins (ViewCache cache' b) = (\<lambda>p. case map_of es p of Some e \<Rightarrow> coin_opt e | None \<Rightarrow> view_coins base p)" by auto
  then have "wf_view usage (ViewCache (cache'\<lparr>hashBlock := h\<rparr>) b)" by (simp add: cache_ok_def)
  moreover have "view_coins (ViewCache (cache'\<lparr>hashBlock := h\<rparr>) b) = view_coins (ViewCache cache' b)"
    by (simp add: view_coins.simps(2))
  ultimately show ?thesis using c ViewCache by auto
qed

lemma Flush_ok:
  assumes wf: "wf_view usage (ViewCache cache base)" and cw: "can_write base (hashBlock cache)"
  shows "\<exists>cache' base'. Flush usage cache base = Some (cache', base') \<and> cacheCoins cache' = [] \<and>
    wf_view usage (ViewCache cache' base') \<and> view_coins base' = view_coins (ViewCache cache base) \<and>
    view_coins (ViewCache cache' base') = view_coins (ViewCache cache base)"
proof -
  from BatchWrite_ok [of usage base "cacheCoins cache" "hashBlock cache" True] wf cw
  obtain base' where b: "BatchWrite usage base (cacheCoins cache) (hashBlock cache) True = Some (base', [])"
    "wf_view usage base'" "view_coins base' = view_coins (ViewCache cache base)"
    by (auto simp: cache_ok_def view_coins.simps(2))
  let ?c = "cache\<lparr>cacheCoins := [], cachedCoinsUsage := 0\<rparr>"
  have "view_coins (ViewCache ?c base') = view_coins base'" by (simp add: view_coins.simps(2))
  then show ?thesis using b by (auto simp: Flush_def cache_ok_def)
qed

lemma sync_loop_ok:
  "sync_loop usage used es = (es', used') \<Longrightarrow>
   es' = map (\<lambda>(p, e). (p, e\<lparr>entry_flags := 0\<rparr>)) (filter (\<lambda>(p, e). \<not> IsSpent (entry_coin e)) es) \<and>
   used' = used - total_usage usage es + total_usage usage es'"
proof (induction es arbitrary: used es' used')
  case (Cons pe es)
  show ?case
  proof (cases "IsSpent (entry_coin (snd pe))")
    case True
    with Cons.prems have "sync_loop usage (used - usage (entry_coin (snd pe))) es = (es', used')" by simp
    from Cons.IH [OF this] True show ?thesis by (auto simp: case_prod_beta)
  next
    case False
    obtain es1 u1 where s: "sync_loop usage used es = (es1, u1)" by (metis surj_pair)
    with Cons.prems False have "es' = (fst pe, (snd pe)\<lparr>entry_flags := 0\<rparr>) # es1" "used' = u1" by auto
    with Cons.IH [OF s] False show ?thesis by (auto simp: case_prod_beta)
  qed
qed simp

lemma map_of_sync:
  "distinct (map fst es) \<Longrightarrow>
   map_of (map (\<lambda>(p, e). (p, e\<lparr>entry_flags := 0\<rparr>)) (filter (\<lambda>(p, e). \<not> IsSpent (entry_coin e)) es)) p =
     (case map_of es p of None \<Rightarrow> None | Some e \<Rightarrow> if IsSpent (entry_coin e) then None else Some (e\<lparr>entry_flags := 0\<rparr>))"
  by (induction es) (auto simp: map_of_eq_None_iff image_iff split: option.splits)

lemma Sync_ok:
  assumes wf: "wf_view usage (ViewCache cache base)" and cw: "can_write base (hashBlock cache)"
  shows "\<exists>cache' base'. Sync usage cache base = Some (cache', base') \<and>
    wf_view usage (ViewCache cache' base') \<and> view_coins base' = view_coins (ViewCache cache base) \<and>
    view_coins (ViewCache cache' base') = view_coins (ViewCache cache base)"
proof -
  have c: "distinct (map fst (cacheCoins cache))" "cachedCoinsUsage cache = total_usage usage (cacheCoins cache)"
    using wf by (simp_all add: cache_ok_def)
  from BatchWrite_ok [of usage base "cacheCoins cache" "hashBlock cache" False] wf cw
  obtain base' where b: "BatchWrite usage base (cacheCoins cache) (hashBlock cache) False = Some (base', cacheCoins cache)"
    "wf_view usage base'" "view_coins base' = view_coins (ViewCache cache base)"
    by (auto simp: cache_ok_def view_coins.simps(2))
  let ?es = "map (\<lambda>(p, e). (p, e\<lparr>entry_flags := 0\<rparr>)) (filter (\<lambda>(p, e). \<not> IsSpent (entry_coin e)) (cacheCoins cache))"
  let ?c = "cache\<lparr>cacheCoins := ?es, cachedCoinsUsage := total_usage usage ?es\<rparr>"
  obtain es used where s: "sync_loop usage (cachedCoinsUsage cache) (cacheCoins cache) = (es, used)" by (metis surj_pair)
  from sync_loop_ok [OF s] have sy: "Sync usage cache base = Some (?c, base')"
    using b(1) s c(2) by (simp add: Sync_def)
  have v: "(case map_of ?es p of Some e \<Rightarrow> coin_opt e | None \<Rightarrow> view_coins base' p) = view_coins base' p" for p
    unfolding map_of_sync [OF c(1)] b(3) by (simp add: view_coins.simps(2) coin_opt_def split: option.splits)
  have "distinct (map fst ?es)"
    using c(1) by (simp add: comp_def case_prod_beta distinct_map_filter)
  moreover have "entry_ok (view_coins base' p) e" if "map_of ?es p = Some e" for p e
    using that v [of p] by (auto simp: map_of_sync [OF c(1)] entry_ok_def entry_sane_def coin_opt_def flag_defs split: option.splits if_splits)
  ultimately have "wf_view usage (ViewCache ?c base')" using b(2) by (simp add: cache_ok_def)
  moreover have "view_coins (ViewCache ?c base') = view_coins base'" using v by (simp add: view_coins.simps(2))
  ultimately show ?thesis using sy b(3) by auto
qed

lemma SanityCheck_ok: "wf_view usage (ViewCache cache base) \<Longrightarrow> SanityCheck usage cache"
  by (auto simp: SanityCheck_def cache_ok_def total_usage_def list_all_iff entry_ok_def)

section \<open>The store as an interface\<close>

text \<open>
  What block connection relies on: a store of coins with lookup, removal and addition, each
  with its effect on the map of unspent coins. Removal and addition over lists of inputs and
  outputs are proved here once.
\<close>

primrec spend_each :: "('s \<Rightarrow> COutPoint \<Rightarrow> Coin option \<times> 's) \<Rightarrow> 's \<Rightarrow> COutPoint list \<Rightarrow> (Coin list \<times> 's) option" where
  "spend_each spend s [] = Some ([], s)"
| "spend_each spend s (p # ps) =
     (case spend s p of
        (None, s') \<Rightarrow> None
      | (Some coin, s') \<Rightarrow> map_option (\<lambda>(cs, s''). (coin # cs, s'')) (spend_each spend s' ps))"

locale utxo_store =
  fixes coins :: "'s \<Rightarrow> COutPoint \<rightharpoonup> Coin" and inv :: "'s \<Rightarrow> bool"
    and spend :: "'s \<Rightarrow> COutPoint \<Rightarrow> Coin option \<times> 's"
    and add :: "'s \<Rightarrow> COutPoint \<Rightarrow> Coin \<Rightarrow> bool \<Rightarrow> 's option"
  assumes spend_law: "inv s \<Longrightarrow> spend s p = (r, s') \<Longrightarrow>
      inv s' \<and> coins s' = (coins s)(p := None) \<and> (\<forall>coin. coins s p = Some coin \<longrightarrow> r = Some coin)"
    and add_law: "inv s \<Longrightarrow> \<not> IsSpent coin \<Longrightarrow> \<not> IsUnspendable (scriptPubKey (coin_out coin)) \<Longrightarrow>
      overwrite \<or> coins s p = None \<Longrightarrow>
      \<exists>s'. add s p coin overwrite = Some s' \<and> inv s' \<and> coins s' = (coins s)(p \<mapsto> coin)"
    and add_unspendable: "\<not> IsSpent coin \<Longrightarrow> IsUnspendable (scriptPubKey (coin_out coin)) \<Longrightarrow> add s p coin overwrite = Some s"
begin

lemma spend_each_ok:
  "inv s \<Longrightarrow> distinct ps \<Longrightarrow> \<forall>p \<in> set ps. coins s p \<noteq> None \<Longrightarrow>
   \<exists>s'. spend_each spend s ps = Some (map (\<lambda>p. the (coins s p)) ps, s') \<and> inv s' \<and>
     coins s' = (\<lambda>p. if p \<in> set ps then None else coins s p)"
proof (induction ps arbitrary: s)
  case (Cons p ps)
  obtain r s1 where sp: "spend s p = (r, s1)" by (metis surj_pair)
  obtain coin where coin: "coins s p = Some coin" using Cons.prems(3) by auto
  note law = spend_law [OF Cons.prems(1) sp]
  have "\<forall>q \<in> set ps. coins s1 q \<noteq> None" using Cons.prems law by auto
  from Cons.IH [OF _ _ this] law Cons.prems(2) obtain s2 where s2:
    "spend_each spend s1 ps = Some (map (\<lambda>p. the (coins s1 p)) ps, s2)" "inv s2"
    "coins s2 = (\<lambda>p. if p \<in> set ps then None else coins s1 p)" by auto
  have "map (\<lambda>p. the (coins s1 p)) ps = map (\<lambda>p. the (coins s p)) ps"
    using law Cons.prems(2) by auto
  with s2 sp coin law show ?case by (auto simp: fun_eq_iff)
qed simp

end

definition cache_coins :: "CCoinsViewCache \<times> CCoinsView \<Rightarrow> COutPoint \<rightharpoonup> Coin" where
  "cache_coins s = view_coins (ViewCache (fst s) (snd s))"

definition cache_inv :: "(Coin \<Rightarrow> uint64) \<Rightarrow> CCoinsViewCache \<times> CCoinsView \<Rightarrow> bool" where
  "cache_inv usage s \<longleftrightarrow> usage coinEmpty = 0 \<and> wf_view usage (ViewCache (fst s) (snd s))"

definition spend_op :: "(Coin \<Rightarrow> uint64) \<Rightarrow> CCoinsViewCache \<times> CCoinsView \<Rightarrow> COutPoint \<Rightarrow> Coin option \<times> (CCoinsViewCache \<times> CCoinsView)" where
  "spend_op usage s p = SpendCoin usage (fst s) (snd s) p"

definition add_op ::
  "(Coin \<Rightarrow> uint64) \<Rightarrow> CCoinsViewCache \<times> CCoinsView \<Rightarrow> COutPoint \<Rightarrow> Coin \<Rightarrow> bool \<Rightarrow> (CCoinsViewCache \<times> CCoinsView) option" where
  "add_op usage s p coin overwrite = map_option (\<lambda>cache'. (cache', snd s)) (AddCoin usage (fst s) p coin overwrite)"

interpretation coins_cache: utxo_store cache_coins "cache_inv usage" "spend_op usage" "add_op usage"
proof unfold_locales
  fix s p r s' assume "cache_inv usage s" "spend_op usage s p = (r, s')"
  then show "cache_inv usage s' \<and> cache_coins s' = (cache_coins s)(p := None) \<and> (\<forall>coin. cache_coins s p = Some coin \<longrightarrow> r = Some coin)"
  proof -
    have "wf_view usage (ViewCache (fst s) (snd s))" "usage coinEmpty = 0" using \<open>cache_inv usage s\<close> by (simp_all add: cache_inv_def)
    from SpendCoin_ok [OF this, of p] obtain cache' base' r' where sp:
      "SpendCoin usage (fst s) (snd s) p = (r', cache', base')" "wf_view usage (ViewCache cache' base')"
      "view_coins (ViewCache cache' base') = (view_coins (ViewCache (fst s) (snd s)))(p := None)"
      "\<forall>coin. view_coins (ViewCache (fst s) (snd s)) p = Some coin \<longrightarrow> r' = Some coin"
      "view_coins base' = view_coins (snd s)" .
    with \<open>spend_op usage s p = (r, s')\<close> \<open>cache_inv usage s\<close> show ?thesis
      by (auto simp: cache_inv_def cache_coins_def spend_op_def)
  qed
next
  fix s coin overwrite p assume "cache_inv usage s" "\<not> IsSpent coin" "\<not> IsUnspendable (scriptPubKey (coin_out coin))"
    "overwrite \<or> cache_coins s p = None"
  note H = this
  show "\<exists>s'. add_op usage s p coin overwrite = Some s' \<and> cache_inv usage s' \<and> cache_coins s' = (cache_coins s)(p \<mapsto> coin)"
  proof -
    have "wf_view usage (ViewCache (fst s) (snd s))" "overwrite \<or> view_coins (ViewCache (fst s) (snd s)) p = None"
      using H by (simp_all add: cache_inv_def cache_coins_def)
    from AddCoin_ok [OF this(1) H(2,3) this(2)] obtain cache' where ad:
      "AddCoin usage (fst s) p coin overwrite = Some cache'" "wf_view usage (ViewCache cache' (snd s))"
      "view_coins (ViewCache cache' (snd s)) = (view_coins (ViewCache (fst s) (snd s)))(p \<mapsto> coin)"
      "hashBlock cache' = hashBlock (fst s)" .
    with H(1) show ?thesis by (simp add: cache_inv_def cache_coins_def add_op_def)
  qed
next
  fix s coin overwrite p assume "\<not> IsSpent coin" "IsUnspendable (scriptPubKey (coin_out coin))"
  then show "add_op usage s p coin overwrite = Some s" by (simp add: add_op_def AddCoin_def)
qed

section \<open>Reachable caches\<close>

text \<open>
  The life of a cache over a fixed stack: it starts empty and its operations run in any order.
  A caller that adds without the overwrite flag promises that the coin is not there.
\<close>

inductive cache_reachable :: "(Coin \<Rightarrow> uint64) \<Rightarrow> CCoinsViewCache \<times> CCoinsView \<Rightarrow> bool" for usage where
  start: "wf_view usage base \<Longrightarrow>
    cache_reachable usage (\<lparr>hashBlock = uint256_zero, cacheCoins = [], cachedCoinsUsage = 0\<rparr>, base)"
| access: "cache_reachable usage (cache, base) \<Longrightarrow> AccessCoin usage cache base p = (coin, s) \<Longrightarrow> cache_reachable usage s"
| have_coin: "cache_reachable usage (cache, base) \<Longrightarrow> HaveCoin usage cache base p = (b, s) \<Longrightarrow> cache_reachable usage s"
| add: "cache_reachable usage (cache, base) \<Longrightarrow> overwrite \<or> view_coins (ViewCache cache base) p = None \<Longrightarrow>
    AddCoin usage cache p coin overwrite = Some cache' \<Longrightarrow> cache_reachable usage (cache', base)"
| spend: "cache_reachable usage (cache, base) \<Longrightarrow> SpendCoin usage cache base p = (r, s) \<Longrightarrow> cache_reachable usage s"
| uncache: "cache_reachable usage (cache, base) \<Longrightarrow> cache_reachable usage (Uncache usage cache p, base)"
| set_best: "cache_reachable usage (cache, base) \<Longrightarrow> cache_reachable usage (SetBestBlock cache h, base)"
| flush: "cache_reachable usage (cache, base) \<Longrightarrow> can_write base (hashBlock cache) \<Longrightarrow>
    Flush usage cache base = Some s \<Longrightarrow> cache_reachable usage s"
| sync: "cache_reachable usage (cache, base) \<Longrightarrow> can_write base (hashBlock cache) \<Longrightarrow>
    Sync usage cache base = Some s \<Longrightarrow> cache_reachable usage s"

lemma AddCoin_wf:
  assumes "wf_view usage (ViewCache cache base)" "overwrite \<or> view_coins (ViewCache cache base) p = None"
    "AddCoin usage cache p coin overwrite = Some cache'"
  shows "wf_view usage (ViewCache cache' base)"
proof (cases "IsUnspendable (scriptPubKey (coin_out coin))")
  case True
  then show ?thesis using assms by (simp add: AddCoin_def split: if_splits)
next
  case False
  have "\<not> IsSpent coin" using assms(3) by (auto simp: AddCoin_def)
  from AddCoin_ok [OF assms(1) this False assms(2)] assms(3) show ?thesis by (metis option.inject)
qed

lemma reachable_wf:
  assumes "usage coinEmpty = 0"
  shows "cache_reachable usage s \<Longrightarrow> wf_view usage (ViewCache (fst s) (snd s))"
proof (induction rule: cache_reachable.induct)
  case (start base)
  then show ?case by (simp add: cache_ok_def)
next
  case (access cache base p coin s)
  from access.IH have "wf_view usage (ViewCache cache base)" by simp
  from AccessCoin_ok [OF this, of p] access.hyps(2) show ?case by (metis prod.inject prod.collapse)
next
  case (have_coin cache base p b s)
  from have_coin.IH have "wf_view usage (ViewCache cache base)" by simp
  from HaveCoin_ok [OF this, of p] have_coin.hyps(2) show ?case by (metis prod.inject prod.collapse)
next
  case (add cache base overwrite p coin cache')
  from add.IH have "wf_view usage (ViewCache cache base)" by simp
  from AddCoin_wf [OF this add.hyps(2,3)] show ?case by simp
next
  case (spend cache base p r s)
  from spend.IH have "wf_view usage (ViewCache cache base)" by simp
  from SpendCoin_ok [OF this assms, of p] spend.hyps(2) show ?case by (metis prod.inject prod.collapse)
next
  case (uncache cache base p)
  then show ?case using Uncache_ok [of usage cache base p] by simp
next
  case (set_best cache base h)
  then show ?case by (simp add: SetBestBlock_def cache_ok_def)
next
  case (flush cache base s)
  then show ?case using Flush_ok [of usage cache base] by auto
next
  case (sync cache base s)
  then show ?case using Sync_ok [of usage cache base] by auto
qed

section \<open>Properties\<close>

definition example_out :: CTxOut where
  "example_out = \<lparr>nValue = 1000, scriptPubKey = [OP_TRUE]\<rparr>"

definition example_point :: COutPoint where
  "example_point = \<lparr>op_hash = example_hash 7, op_n = 0\<rparr>"

definition example_db :: CCoinsView where
  "example_db = ViewDB \<lparr>db_coins = [example_point \<mapsto> mk_Coin example_out 5 False], db_best_block = Some (example_hash 1), db_head_blocks = None\<rparr>"

definition example_cache :: CCoinsViewCache where
  "example_cache = \<lparr>hashBlock = example_hash 1, cacheCoins = [], cachedCoinsUsage = 0\<rparr>"

lemma example_wf: "wf_view (\<lambda>_. 0) (ViewCache example_cache example_db)"
  by (auto simp: example_cache_def example_db_def cache_ok_def mk_Coin_def IsSpent_def txout_IsNull_def example_out_def split: if_splits)

text \<open>
  C10: A cache implements a map of unspent coins. On a well-formed stack \<open>AccessCoin\<close> reads the map
  and leaves it unchanged; \<open>SpendCoin\<close> removes the coin and returns it, whether or not the
  \<open>FRESH\<close> shortcut erases the entry; \<open>AddCoin\<close> of a spendable coin adds it, and with the caller's
  promise about overwrites it does not throw. Each leaves the stack well-formed.
\<close>

theorem cache_refines_map:
  assumes "usage coinEmpty = 0" "wf_view usage (ViewCache cache base)"
  shows "(\<exists>coin cache' base'. AccessCoin usage cache base p = (coin, cache', base') \<and>
      wf_view usage (ViewCache cache' base') \<and> view_coins (ViewCache cache' base') = view_coins (ViewCache cache base) \<and>
      (if IsSpent coin then None else Some coin) = view_coins (ViewCache cache base) p) \<and>
    (\<exists>r cache' base'. SpendCoin usage cache base p = (r, cache', base') \<and>
      wf_view usage (ViewCache cache' base') \<and>
      view_coins (ViewCache cache' base') = (view_coins (ViewCache cache base))(p := None) \<and>
      (\<forall>coin. view_coins (ViewCache cache base) p = Some coin \<longrightarrow> r = Some coin)) \<and>
    (\<not> IsSpent coin \<and> \<not> IsUnspendable (scriptPubKey (coin_out coin)) \<and>
       (overwrite \<or> view_coins (ViewCache cache base) p = None) \<longrightarrow>
     (\<exists>cache'. AddCoin usage cache p coin overwrite = Some cache' \<and> wf_view usage (ViewCache cache' base) \<and>
        view_coins (ViewCache cache' base) = (view_coins (ViewCache cache base))(p \<mapsto> coin)))"
proof (intro conjI impI, goal_cases)
  case 1
  from AccessCoin_ok [OF assms(2), of p] show ?case by metis
next
  case 2
  from SpendCoin_ok [OF assms(2,1), of p] show ?case by metis
next
  case 3
  with AddCoin_ok [OF assms(2), of coin overwrite p] show ?case by metis
qed

theorem cache_refines_map_witness:
  "\<exists>cache' base'. SpendCoin (\<lambda>_. 0) example_cache example_db example_point = (Some (mk_Coin example_out 5 False), cache', base') \<and>
     view_coins (ViewCache cache' base') example_point = None"
proof -
  have "view_coins (ViewCache example_cache example_db) example_point = Some (mk_Coin example_out 5 False)"
    by (simp add: example_cache_def example_db_def view_coins.simps)
  with cache_refines_map [of "\<lambda>_. 0", OF refl example_wf, of example_point coinEmpty False,
      THEN conjunct2, THEN conjunct1]
  show ?thesis by auto
qed

text \<open>
  C16: Writing a cache back. When the database accepts the write, \<open>Flush\<close> and \<open>Sync\<close> of a
  well-formed stack do not throw (no \<open>FRESH\<close> flag is misapplied), the view below then holds
  exactly the coins the stack held, and so does the stack itself; after \<open>Flush\<close> the cache is empty.
\<close>

theorem flush_preserves_coins:
  assumes "wf_view usage (ViewCache cache base)" "can_write base (hashBlock cache)"
  shows "(\<exists>cache' base'. Flush usage cache base = Some (cache', base') \<and> cacheCoins cache' = [] \<and>
      wf_view usage (ViewCache cache' base') \<and> view_coins base' = view_coins (ViewCache cache base)) \<and>
    (\<exists>cache' base'. Sync usage cache base = Some (cache', base') \<and>
      wf_view usage (ViewCache cache' base') \<and> view_coins base' = view_coins (ViewCache cache base) \<and>
      view_coins (ViewCache cache' base') = view_coins (ViewCache cache base))"
  using Flush_ok [OF assms] Sync_ok [OF assms] by blast

lemma example_hash_not_null: "\<not> IsNull (example_hash 1)"
  by (simp add: IsNull_def example_hash_def)

text \<open>A cache in which the coin of the database is spent.\<close>

definition example_dirty :: CCoinsViewCache where
  "example_dirty = \<lparr>hashBlock = example_hash 1, cacheCoins = [(example_point, \<lparr>entry_coin = coinEmpty, entry_flags = DIRTY\<rparr>)],
     cachedCoinsUsage = 0\<rparr>"

lemma example_dirty_wf: "wf_view (\<lambda>_. 0) (ViewCache example_dirty example_db)"
  using example_wf by (auto simp: example_dirty_def example_cache_def example_db_def cache_ok_def entry_ok_def entry_sane_def total_usage_def DIRTY_def FRESH_def)

theorem flush_preserves_coins_witness:
  "\<exists>cache' base'. Flush (\<lambda>_. 0) example_dirty example_db = Some (cache', base') \<and> cacheCoins cache' = [] \<and>
     view_coins example_db example_point = Some (mk_Coin example_out 5 False) \<and> view_coins base' example_point = None"
proof -
  have "can_write example_db (hashBlock example_dirty)"
    by (simp add: example_db_def example_dirty_def db_BatchWrite_def Let_def example_hash_not_null)
  moreover have "view_coins (ViewCache example_dirty example_db) example_point = None"
    by (simp add: example_dirty_def coin_opt_def view_coins.simps(2))
  moreover have "view_coins example_db example_point = Some (mk_Coin example_out 5 False)"
    by (simp add: example_db_def)
  ultimately show ?thesis using flush_preserves_coins [OF example_dirty_wf] by metis
qed

text \<open>
  C38: \<open>SanityCheck\<close> never fails. In every state a cache reaches by reading, adding, spending,
  uncaching, flushing and syncing, in any order, only the five allowed combinations of flags and
  spentness occur and the memory account equals the recomputed sum.
\<close>

theorem cache_always_sane:
  assumes "usage coinEmpty = 0" "cache_reachable usage (cache, base)"
  shows "SanityCheck usage cache"
  using reachable_wf [OF assms] SanityCheck_ok [of usage cache base] by simp

text \<open>Two coins are added to an empty cache, one over a coin of the database and one at a new place.\<close>

definition example_usage :: "Coin \<Rightarrow> uint64" where
  "example_usage coin = (if IsSpent coin then 0 else 7)"

lemma example_usage_coin: "example_usage coinEmpty = 0" "example_usage (mk_Coin example_out h c) = 7"
  "\<not> IsSpent (mk_Coin example_out h c)" "\<not> IsUnspendable (scriptPubKey (coin_out (mk_Coin example_out h c)))"
  by (simp_all add: example_usage_def coinEmpty_def IsSpent_def txout_IsNull_def mk_Coin_def example_out_def txout_null_def IsUnspendable_def MAX_SCRIPT_SIZE_def)

theorem cache_always_sane_witness:
  "SanityCheck example_usage \<lparr>hashBlock = uint256_zero,
     cacheCoins = [(example_point, \<lparr>entry_coin = mk_Coin example_out 6 False, entry_flags = DIRTY\<rparr>),
       (example_point\<lparr>op_n := 1\<rparr>, \<lparr>entry_coin = mk_Coin example_out 6 False, entry_flags = DIRTY OR FRESH\<rparr>)],
     cachedCoinsUsage = 14\<rparr>"
proof -
  let ?s0 = "\<lparr>hashBlock = uint256_zero, cacheCoins = [], cachedCoinsUsage = 0\<rparr>" and ?c = "mk_Coin example_out 6 False"
  let ?s1 = "\<lparr>hashBlock = uint256_zero, cacheCoins = [(example_point, \<lparr>entry_coin = ?c, entry_flags = DIRTY\<rparr>)], cachedCoinsUsage = 7\<rparr>"
  have "wf_view example_usage example_db" using example_wf by (simp add: example_db_def)
  then have "cache_reachable example_usage (?s0, example_db)" by (rule cache_reachable.start)
  then have "cache_reachable example_usage (?s1, example_db)"
    by (rule cache_reachable.add [where overwrite = True and p = example_point and coin = ?c])
      (simp_all add: AddCoin_def example_usage_coin)
  then have "cache_reachable example_usage (?s1\<lparr>cacheCoins := cacheCoins ?s1 @
      [(example_point\<lparr>op_n := 1\<rparr>, \<lparr>entry_coin = ?c, entry_flags = DIRTY OR FRESH\<rparr>)], cachedCoinsUsage := 14\<rparr>, example_db)"
    by (rule cache_reachable.add [where overwrite = False and p = "example_point\<lparr>op_n := 1\<rparr>" and coin = ?c])
      (simp_all add: AddCoin_def example_usage_coin example_point_def example_db_def view_coins.simps(2))
  from cache_always_sane [OF example_usage_coin(1) this] show ?thesis by simp
qed

end
