(* ===== verification/Tx_Inputs.thy ===== *)
theory Tx_Inputs
  imports Coins
begin

text \<open>
  The checks of a transaction against the coins it spends: \<open>Consensus::CheckTxInputs\<close> and the
  signature operation counts of \<open>src/consensus/tx_verify.cpp\<close>, with \<open>CountWitnessSigOps\<close> of
  \<open>src/script/interpreter.cpp\<close>. The state is the cache and the view below it; reading a coin may
  fill the cache.
\<close>

section \<open>Script verification flags\<close>

abbreviation (input) SCRIPT_VERIFY_P2SH :: uint32 where "SCRIPT_VERIFY_P2SH \<equiv> 0x1"
abbreviation (input) SCRIPT_VERIFY_STRICTENC :: uint32 where "SCRIPT_VERIFY_STRICTENC \<equiv> 0x2"
abbreviation (input) SCRIPT_VERIFY_DERSIG :: uint32 where "SCRIPT_VERIFY_DERSIG \<equiv> 0x4"
abbreviation (input) SCRIPT_VERIFY_LOW_S :: uint32 where "SCRIPT_VERIFY_LOW_S \<equiv> 0x8"
abbreviation (input) SCRIPT_VERIFY_NULLDUMMY :: uint32 where "SCRIPT_VERIFY_NULLDUMMY \<equiv> 0x10"
abbreviation (input) SCRIPT_VERIFY_SIGPUSHONLY :: uint32 where "SCRIPT_VERIFY_SIGPUSHONLY \<equiv> 0x20"
abbreviation (input) SCRIPT_VERIFY_MINIMALDATA :: uint32 where "SCRIPT_VERIFY_MINIMALDATA \<equiv> 0x40"
abbreviation (input) SCRIPT_VERIFY_DISCOURAGE_UPGRADABLE_NOPS :: uint32 where
  "SCRIPT_VERIFY_DISCOURAGE_UPGRADABLE_NOPS \<equiv> 0x80"
abbreviation (input) SCRIPT_VERIFY_CLEANSTACK :: uint32 where "SCRIPT_VERIFY_CLEANSTACK \<equiv> 0x100"
abbreviation (input) SCRIPT_VERIFY_CHECKLOCKTIMEVERIFY :: uint32 where "SCRIPT_VERIFY_CHECKLOCKTIMEVERIFY \<equiv> 0x200"
abbreviation (input) SCRIPT_VERIFY_CHECKSEQUENCEVERIFY :: uint32 where "SCRIPT_VERIFY_CHECKSEQUENCEVERIFY \<equiv> 0x400"
abbreviation (input) SCRIPT_VERIFY_WITNESS :: uint32 where "SCRIPT_VERIFY_WITNESS \<equiv> 0x800"
abbreviation (input) SCRIPT_VERIFY_DISCOURAGE_UPGRADABLE_WITNESS_PROGRAM :: uint32 where
  "SCRIPT_VERIFY_DISCOURAGE_UPGRADABLE_WITNESS_PROGRAM \<equiv> 0x1000"
abbreviation (input) SCRIPT_VERIFY_MINIMALIF :: uint32 where "SCRIPT_VERIFY_MINIMALIF \<equiv> 0x2000"
abbreviation (input) SCRIPT_VERIFY_NULLFAIL :: uint32 where "SCRIPT_VERIFY_NULLFAIL \<equiv> 0x4000"
abbreviation (input) SCRIPT_VERIFY_WITNESS_PUBKEYTYPE :: uint32 where "SCRIPT_VERIFY_WITNESS_PUBKEYTYPE \<equiv> 0x8000"
abbreviation (input) SCRIPT_VERIFY_CONST_SCRIPTCODE :: uint32 where "SCRIPT_VERIFY_CONST_SCRIPTCODE \<equiv> 0x10000"
abbreviation (input) SCRIPT_VERIFY_TAPROOT :: uint32 where "SCRIPT_VERIFY_TAPROOT \<equiv> 0x20000"
abbreviation (input) SCRIPT_VERIFY_DISCOURAGE_UPGRADABLE_TAPROOT_VERSION :: uint32 where
  "SCRIPT_VERIFY_DISCOURAGE_UPGRADABLE_TAPROOT_VERSION \<equiv> 0x40000"
abbreviation (input) SCRIPT_VERIFY_DISCOURAGE_OP_SUCCESS :: uint32 where "SCRIPT_VERIFY_DISCOURAGE_OP_SUCCESS \<equiv> 0x80000"
abbreviation (input) SCRIPT_VERIFY_DISCOURAGE_UPGRADABLE_PUBKEYTYPE :: uint32 where
  "SCRIPT_VERIFY_DISCOURAGE_UPGRADABLE_PUBKEYTYPE \<equiv> 0x100000"

definition WITNESS_V0_SCRIPTHASH_SIZE :: nat where "WITNESS_V0_SCRIPTHASH_SIZE = 32"
definition WITNESS_V0_KEYHASH_SIZE :: nat where "WITNESS_V0_KEYHASH_SIZE = 20"

section \<open>Signature operations\<close>

definition WitnessSigOps :: "int \<Rightarrow> bytes \<Rightarrow> bytes list \<Rightarrow> nat" where
  "WitnessSigOps witversion witprogram witness =
     (if witversion = 0
      then if length witprogram = WITNESS_V0_KEYHASH_SIZE then 1
           else if length witprogram = WITNESS_V0_SCRIPTHASH_SIZE \<and> length witness > 0
           then unat (GetSigOpCount True (last witness))
           else 0
      else 0)"

text \<open>
  After \<open>IsPushOnly\<close> the loop over the script finds the last pushed item: every instruction can be
  read and is a push. A failed assertion is \<open>None\<close>.
\<close>

definition CountWitnessSigOps :: "CScript \<Rightarrow> CScript \<Rightarrow> bytes list \<Rightarrow> uint32 \<Rightarrow> nat option" where
  "CountWitnessSigOps sig pubkey witness flags =
     (if flags AND SCRIPT_VERIFY_WITNESS = 0 then Some 0
      else if flags AND SCRIPT_VERIFY_P2SH = 0 then None
      else case IsWitnessProgram pubkey of
             Some (v, prog) \<Rightarrow> Some (WitnessSigOps v prog witness)
           | None \<Rightarrow>
               if IsPayToScriptHash pubkey \<and> IsPushOnly sig
               then do {
                 data \<leftarrow> last_push [] sig;
                 Some (case IsWitnessProgram data of
                         Some (v, prog) \<Rightarrow> WitnessSigOps v prog witness
                       | None \<Rightarrow> 0)
               }
               else Some 0)"

lemma last_push_total: "IsPushOnly pc \<longleftrightarrow> last_push d pc \<noteq> None"
proof (induction pc arbitrary: d rule: IsPushOnly.induct)
  case (1 pc)
  show ?case
  proof (cases "pc = []")
    case True
    then show ?thesis by (simp add: IsPushOnly.simps last_push.simps)
  next
    case False
    show ?thesis
    proof (cases "GetScriptOp pc")
      case None
      with False show ?thesis by (simp add: IsPushOnly.simps [of pc] last_push.simps [of _ pc])
    next
      case (Some x)
      obtain opcode e pc' where x: "x = ((opcode, e), pc')" by (metis surj_pair)
      show ?thesis
      proof (cases "opcode > OP_16")
        case True
        with False Some x show ?thesis by (simp add: IsPushOnly.simps [of pc] last_push.simps [of _ pc])
      next
        case small: False
        with False Some x "1.IH" [OF False Some x [symmetric] refl small, of e] show ?thesis
          by (simp add: IsPushOnly.simps [of pc] last_push.simps [of _ pc])
      qed
    qed
  qed
qed

definition GetLegacySigOpCount :: "CTransaction \<Rightarrow> uint32" where
  "GetLegacySigOpCount tx =
     sum_list (map (\<lambda>i. GetSigOpCount False (scriptSig i)) (vin tx)) +
     sum_list (map (\<lambda>t. GetSigOpCount False (scriptPubKey t)) (vout tx))"

type_synonym coins_state = "CCoinsViewCache \<times> CCoinsView"

primrec p2sh_sigops_loop ::
  "(Coin \<Rightarrow> uint64) \<Rightarrow> coins_state \<Rightarrow> uint32 \<Rightarrow> CTxIn list \<Rightarrow> (uint32 \<times> coins_state) option" where
  "p2sh_sigops_loop usage s nSigOps [] = Some (nSigOps, s)"
| "p2sh_sigops_loop usage s nSigOps (i # ins) =
     (let (coin, s') = AccessCoin usage (fst s) (snd s) (prevout i)
      in if IsSpent coin then None
         else p2sh_sigops_loop usage s'
                (if IsPayToScriptHash (scriptPubKey (coin_out coin))
                 then nSigOps + GetSigOpCount_script (scriptPubKey (coin_out coin)) (scriptSig i)
                 else nSigOps) ins)"

definition GetP2SHSigOpCount ::
  "(Coin \<Rightarrow> uint64) \<Rightarrow> coins_state \<Rightarrow> CTransaction \<Rightarrow> (uint32 \<times> coins_state) option" where
  "GetP2SHSigOpCount usage s tx = (if IsCoinBase tx then Some (0, s) else p2sh_sigops_loop usage s 0 (vin tx))"

primrec witness_sigops_loop ::
  "(Coin \<Rightarrow> uint64) \<Rightarrow> coins_state \<Rightarrow> uint32 \<Rightarrow> int \<Rightarrow> CTxIn list \<Rightarrow> (int \<times> coins_state) option" where
  "witness_sigops_loop usage s flags nSigOps [] = Some (nSigOps, s)"
| "witness_sigops_loop usage s flags nSigOps (i # ins) =
     (let (coin, s') = AccessCoin usage (fst s) (snd s) (prevout i)
      in if IsSpent coin then None
         else do {
           n \<leftarrow> CountWitnessSigOps (scriptSig i) (scriptPubKey (coin_out coin)) (scriptWitness i) flags;
           witness_sigops_loop usage s' flags (nSigOps + int n) ins
         })"

text \<open>The products with the scale factor are computed in 32 bits before they are widened.\<close>

definition GetTransactionSigOpCost ::
  "(Coin \<Rightarrow> uint64) \<Rightarrow> coins_state \<Rightarrow> CTransaction \<Rightarrow> uint32 \<Rightarrow> (int \<times> coins_state) option" where
  "GetTransactionSigOpCost usage s tx flags =
     (let nSigOps = uint (GetLegacySigOpCount tx * of_nat WITNESS_SCALE_FACTOR)
      in if IsCoinBase tx then Some (nSigOps, s)
         else do {
           (nSigOps', s') \<leftarrow>
             (if flags AND SCRIPT_VERIFY_P2SH \<noteq> 0
              then map_option (\<lambda>(n, s'). (nSigOps + uint (n * of_nat WITNESS_SCALE_FACTOR), s')) (GetP2SHSigOpCount usage s tx)
              else Some (nSigOps, s));
           witness_sigops_loop usage s' flags nSigOps' (vin tx)
         })"

section \<open>Input values\<close>

primrec inputs_loop ::
  "(Coin \<Rightarrow> uint64) \<Rightarrow> coins_state \<Rightarrow> int \<Rightarrow> int \<Rightarrow> CTxIn list \<Rightarrow> (int tx_check \<times> coins_state) option" where
  "inputs_loop usage s nSpendHeight nValueIn [] = Some (Inr nValueIn, s)"
| "inputs_loop usage s nSpendHeight nValueIn (i # ins) =
     (let (coin, s') = AccessCoin usage (fst s) (snd s) (prevout i)
      in if IsSpent coin then None
         else if fCoinBase coin \<and> nSpendHeight - coin_height coin < COINBASE_MATURITY
         then Some (Inl (TX_PREMATURE_SPEND, ''bad-txns-premature-spend-of-coinbase''), s')
         else if \<not> MoneyRange (nValue (coin_out coin)) \<or> \<not> MoneyRange (nValueIn + nValue (coin_out coin))
         then Some (Inl (TX_CONSENSUS, ''bad-txns-inputvalues-outofrange''), s')
         else inputs_loop usage s' nSpendHeight (nValueIn + nValue (coin_out coin)) ins)"

definition CheckTxInputs ::
  "(Coin \<Rightarrow> uint64) \<Rightarrow> coins_state \<Rightarrow> CTransaction \<Rightarrow> int \<Rightarrow> (int tx_check \<times> coins_state) option" where
  "CheckTxInputs usage s tx nSpendHeight =
     (case HaveInputs usage (fst s) (snd s) tx of
        (False, s') \<Rightarrow> Some (Inl (TX_MISSING_INPUTS, ''bad-txns-inputs-missingorspent''), s')
      | (True, s') \<Rightarrow> do {
          (r, s'') \<leftarrow> inputs_loop usage s' nSpendHeight 0 (vin tx);
          (case r of
             Inl e \<Rightarrow> Some (Inl e, s'')
           | Inr nValueIn \<Rightarrow> do {
               value_out \<leftarrow> GetValueOut tx;
               Some (if nValueIn < value_out then Inl (TX_CONSENSUS, ''bad-txns-in-belowout'')
                     else if \<not> MoneyRange (nValueIn - value_out) then Inl (TX_CONSENSUS, ''bad-txns-fee-outofrange'')
                     else Inr (nValueIn - value_out), s'')
             })
        })"

section \<open>Correctness\<close>

text \<open>When an input may be spent at a height, given the coins, and what it is worth.\<close>

definition spendable :: "(COutPoint \<rightharpoonup> Coin) \<Rightarrow> int \<Rightarrow> CTxIn \<Rightarrow> bool" where
  "spendable coins height i \<longleftrightarrow>
     (\<exists>coin. coins (prevout i) = Some coin \<and> (fCoinBase coin \<longrightarrow> coin_height coin + 100 \<le> height) \<and>
             MoneyRange (nValue (coin_out coin)))"

definition input_value :: "(COutPoint \<rightharpoonup> Coin) \<Rightarrow> CTxIn \<Rightarrow> int" where
  "input_value coins i = nValue (coin_out (the (coins (prevout i))))"

lemma access_law:
  assumes "cache_inv usage s"
  obtains coin s' where "AccessCoin usage (fst s) (snd s) p = (coin, s')" "cache_inv usage s'"
    "cache_coins s' = cache_coins s" "(if IsSpent coin then None else Some coin) = cache_coins s p"
proof -
  have "wf_view usage (ViewCache (fst s) (snd s))" using assms by (simp add: cache_inv_def)
  from AccessCoin_ok [OF this, of p] obtain cache' base' coin where
    "AccessCoin usage (fst s) (snd s) p = (coin, cache', base')" "wf_view usage (ViewCache cache' base')"
    "view_coins (ViewCache cache' base') = view_coins (ViewCache (fst s) (snd s))"
    "(if IsSpent coin then None else Some coin) = view_coins (ViewCache (fst s) (snd s)) p" .
  with assms show ?thesis using that [of coin "(cache', base')"] by (simp only: cache_coins_def cache_inv_def fst_conv snd_conv simp_thms)
qed

lemma inputs_loop_ok:
  "cache_inv usage s \<Longrightarrow> \<forall>i \<in> set ins. cache_coins s (prevout i) \<noteq> None \<Longrightarrow> MoneyRange a \<Longrightarrow>
   \<exists>r s'. inputs_loop usage s height a ins = Some (r, s') \<and> cache_inv usage s' \<and>
     cache_coins s' = cache_coins s \<and>
     (\<forall>v. r = Inr v \<longleftrightarrow> (\<forall>i \<in> set ins. spendable (cache_coins s) height i) \<and>
        v = a + sum_list (map (input_value (cache_coins s)) ins) \<and> MoneyRange v)"
proof (induction ins arbitrary: s a)
  case Nil
  then show ?case by auto
next
  case (Cons i ins)
  from access_law [OF Cons.prems(1), of "prevout i"] obtain coin s1 where s1:
    "AccessCoin usage (fst s) (snd s) (prevout i) = (coin, s1)" "cache_inv usage s1"
    "cache_coins s1 = cache_coins s" "(if IsSpent coin then None else Some coin) = cache_coins s (prevout i)" .
  then have coin: "cache_coins s (prevout i) = Some coin" "\<not> IsSpent coin"
    using Cons.prems(2) by (auto split: if_splits)
  then have iv: "input_value (cache_coins s) i = nValue (coin_out coin)" by (simp add: input_value_def)
  consider (immature) "fCoinBase coin \<and> height - coin_height coin < COINBASE_MATURITY"
    | (range) "\<not> (fCoinBase coin \<and> height - coin_height coin < COINBASE_MATURITY)"
        "\<not> MoneyRange (nValue (coin_out coin)) \<or> \<not> MoneyRange (a + nValue (coin_out coin))"
    | (ok) "\<not> (fCoinBase coin \<and> height - coin_height coin < COINBASE_MATURITY)"
        "MoneyRange (nValue (coin_out coin))" "MoneyRange (a + nValue (coin_out coin))" by blast
  then show ?case
  proof cases
    case immature
    then have "\<not> spendable (cache_coins s) height i" using coin by (auto simp: spendable_def COINBASE_MATURITY_def)
    with immature s1 coin show ?thesis by auto
  next
    case range
    have "\<not> (MoneyRange (nValue (coin_out coin)) \<and>
        MoneyRange (a + sum_list (map (input_value (cache_coins s)) (i # ins))))" if "\<forall>i \<in> set ins. spendable (cache_coins s) height i"
    proof -
      have "0 \<le> sum_list (map (input_value (cache_coins s)) ins)"
        using that by (intro sum_list_nonneg) (auto simp: spendable_def input_value_def MoneyRange_def)
      then show ?thesis using range(2) iv Cons.prems(3) by (auto simp: MoneyRange_def)
    qed
    moreover have "spendable (cache_coins s) height i \<Longrightarrow> MoneyRange (nValue (coin_out coin))"
      using coin by (simp add: spendable_def)
    ultimately have no: "\<not> ((\<forall>j \<in> set (i # ins). spendable (cache_coins s) height j) \<and>
        MoneyRange (a + sum_list (map (input_value (cache_coins s)) (i # ins))))" by auto
    have "inputs_loop usage s height a (i # ins) = Some (Inl (TX_CONSENSUS, ''bad-txns-inputvalues-outofrange''), s1)"
      using range s1(1) coin(2) by auto
    with no s1(2,3) show ?thesis by blast
  next
    case ok
    then have sp: "spendable (cache_coins s) height i" using coin by (auto simp: spendable_def COINBASE_MATURITY_def)
    from Cons.IH [OF s1(2) _ ok(3)] Cons.prems(2) s1(3) obtain r s2 where
      "inputs_loop usage s1 height (a + nValue (coin_out coin)) ins = Some (r, s2)" "cache_inv usage s2"
      "cache_coins s2 = cache_coins s"
      "\<forall>v. r = Inr v \<longleftrightarrow> (\<forall>i \<in> set ins. spendable (cache_coins s) height i) \<and>
        v = a + nValue (coin_out coin) + sum_list (map (input_value (cache_coins s)) ins) \<and> MoneyRange v" by auto
    note rest = this
    have "inputs_loop usage s height a (i # ins) = Some (r, s2)" using ok s1(1) coin(2) rest(1) by auto
    moreover have "\<forall>v. r = Inr v \<longleftrightarrow> (\<forall>j \<in> set (i # ins). spendable (cache_coins s) height j) \<and>
        v = a + sum_list (map (input_value (cache_coins s)) (i # ins)) \<and> MoneyRange v"
      using rest(4) sp iv by (simp add: algebra_simps)
    ultimately show ?thesis using rest(2,3) by blast
  qed
qed


lemma have_law:
  assumes "cache_inv usage s"
  obtains s' where "have_inputs_loop usage (fst s) (snd s) ins = (\<forall>i \<in> set ins. cache_coins s (prevout i) \<noteq> None, s')"
    "cache_inv usage s'" "cache_coins s' = cache_coins s"
proof -
  have "wf_view usage (ViewCache (fst s) (snd s))" using assms by (simp add: cache_inv_def)
  then have "\<exists>cache' base'. have_inputs_loop usage (fst s) (snd s) ins = (\<forall>i \<in> set ins. cache_coins s (prevout i) \<noteq> None, cache', base') \<and>
      wf_view usage (ViewCache cache' base') \<and> view_coins (ViewCache cache' base') = cache_coins s \<and>
      view_coins base' = view_coins (snd s)"
    unfolding cache_coins_def by (rule have_inputs_ok)
  then obtain cache' base' where
    "have_inputs_loop usage (fst s) (snd s) ins = (\<forall>i \<in> set ins. cache_coins s (prevout i) \<noteq> None, cache', base')"
    "wf_view usage (ViewCache cache' base')" "view_coins (ViewCache cache' base') = cache_coins s" by blast
  with assms show ?thesis
    using that [of "(cache', base')"] by (simp only: cache_coins_def [of "(cache', base')"] cache_inv_def fst_conv snd_conv simp_thms)
qed

lemma CheckTxInputs_ok:
  assumes inv: "cache_inv usage s" and cb: "\<not> IsCoinBase tx" and out: "GetValueOut tx = Some value_out"
    and pos: "0 \<le> value_out"
  shows "\<exists>r s'. CheckTxInputs usage s tx height = Some (r, s') \<and> cache_inv usage s' \<and> cache_coins s' = cache_coins s \<and>
     (\<forall>fee. r = Inr fee \<longleftrightarrow> (\<forall>i \<in> set (vin tx). spendable (cache_coins s) height i) \<and>
        fee = sum_list (map (input_value (cache_coins s)) (vin tx)) - value_out \<and>
        MoneyRange (fee + value_out) \<and> 0 \<le> fee)"
proof -
  let ?have = "\<forall>i \<in> set (vin tx). cache_coins s (prevout i) \<noteq> None"
  from have_law [OF inv, of "vin tx"] obtain s1 where s1:
    "have_inputs_loop usage (fst s) (snd s) (vin tx) = (?have, s1)" "cache_inv usage s1" "cache_coins s1 = cache_coins s" .
  then have hi: "HaveInputs usage (fst s) (snd s) tx = (?have, s1)" using cb by (simp add: HaveInputs_def)
  show ?thesis
  proof (cases ?have)
    case False
    then have "\<not> (\<forall>i \<in> set (vin tx). spendable (cache_coins s) height i)" unfolding spendable_def by fastforce
    moreover have "CheckTxInputs usage s tx height = Some (Inl (TX_MISSING_INPUTS, ''bad-txns-inputs-missingorspent''), s1)"
      unfolding CheckTxInputs_def hi using False by (simp only: prod.case bool.case if_False simp_thms split: bool.split)
    ultimately show ?thesis using s1(2,3) by blast
  next
    case True
    have "MoneyRange 0" by (simp add: MoneyRange_def MAX_MONEY_def COIN_def)
    moreover have "\<forall>i \<in> set (vin tx). cache_coins s1 (prevout i) \<noteq> None" using True s1(3) by simp
    ultimately obtain r s2 where s2:
      "inputs_loop usage s1 height 0 (vin tx) = Some (r, s2)" "cache_inv usage s2" "cache_coins s2 = cache_coins s"
      "\<forall>v. r = Inr v \<longleftrightarrow> (\<forall>i \<in> set (vin tx). spendable (cache_coins s) height i) \<and>
        v = sum_list (map (input_value (cache_coins s)) (vin tx)) \<and> MoneyRange v"
      using inputs_loop_ok [OF s1(2), of "vin tx" 0 height] unfolding s1(3) add_0 by blast
    have hiT: "HaveInputs usage (fst s) (snd s) tx = (True, s1)" using hi True by simp
    show ?thesis
    proof (cases r)
      case (Inl e)
      then have c: "CheckTxInputs usage s tx height = Some (Inl e, s2)" unfolding CheckTxInputs_def hiT by (simp add: s2(1))
      have no: "\<not> ((\<forall>i \<in> set (vin tx). spendable (cache_coins s) height i) \<and>
          fee = sum_list (map (input_value (cache_coins s)) (vin tx)) - value_out \<and>
          MoneyRange (fee + value_out) \<and> 0 \<le> fee)" for fee using s2(4) Inl by auto
      show ?thesis by (rule exI, rule exI, rule conjI [OF c], intro conjI s2(2,3)) (use no in blast)
    next
      case (Inr v)
      then have v: "\<forall>i \<in> set (vin tx). spendable (cache_coins s) height i"
        "v = sum_list (map (input_value (cache_coins s)) (vin tx))" "MoneyRange v" using s2(4) by blast+
      have c: "CheckTxInputs usage s tx height =
          Some (if v < value_out then Inl (TX_CONSENSUS, ''bad-txns-in-belowout'') else Inr (v - value_out), s2)"
        unfolding CheckTxInputs_def hiT using pos v(3) by (simp add: s2(1) Inr out MoneyRange_def)
      show ?thesis
      proof (rule exI, rule exI, rule conjI [OF c], intro conjI s2(2,3) allI)
        fix fee
        show "(if v < value_out then Inl (TX_CONSENSUS, ''bad-txns-in-belowout'') else Inr (v - value_out)) = Inr fee \<longleftrightarrow>
          (\<forall>i \<in> set (vin tx). spendable (cache_coins s) height i) \<and>
          fee = sum_list (map (input_value (cache_coins s)) (vin tx)) - value_out \<and>
          MoneyRange (fee + value_out) \<and> 0 \<le> fee"
          unfolding v(2) [symmetric] using v(1,3) by auto
      qed
    qed
  qed
qed

text \<open>The signature operation count returns: no assertion fails when the inputs are there.\<close>

lemma CountWitnessSigOps_total:
  assumes "flags AND SCRIPT_VERIFY_WITNESS \<noteq> 0 \<longrightarrow> flags AND SCRIPT_VERIFY_P2SH \<noteq> 0"
  shows "\<exists>n. CountWitnessSigOps sig pubkey witness flags = Some n"
proof (cases "IsPushOnly sig")
  case True
  then obtain d where "last_push [] sig = Some d" using last_push_total by blast
  then show ?thesis using assms by (auto simp: CountWitnessSigOps_def split: option.split)
next
  case False
  then show ?thesis using assms by (auto simp: CountWitnessSigOps_def split: option.split)
qed

lemma p2sh_sigops_total:
  "cache_inv usage s \<Longrightarrow> \<forall>i \<in> set ins. cache_coins s (prevout i) \<noteq> None \<Longrightarrow>
   \<exists>m s'. p2sh_sigops_loop usage s n ins = Some (m, s') \<and> cache_inv usage s' \<and> cache_coins s' = cache_coins s"
proof (induction ins arbitrary: s n)
  case (Cons i ins)
  from access_law [OF Cons.prems(1), of "prevout i"] obtain coin s1 where s1:
    "AccessCoin usage (fst s) (snd s) (prevout i) = (coin, s1)" "cache_inv usage s1"
    "cache_coins s1 = cache_coins s" "(if IsSpent coin then None else Some coin) = cache_coins s (prevout i)" .
  then have "\<not> IsSpent coin" using Cons.prems(2) by (auto split: if_splits)
  with s1 Cons.IH [OF s1(2)] Cons.prems(2) show ?case by simp
qed auto

lemma witness_sigops_total:
  assumes "flags AND SCRIPT_VERIFY_WITNESS \<noteq> 0 \<longrightarrow> flags AND SCRIPT_VERIFY_P2SH \<noteq> 0"
  shows "cache_inv usage s \<Longrightarrow> \<forall>i \<in> set ins. cache_coins s (prevout i) \<noteq> None \<Longrightarrow> 0 \<le> n \<Longrightarrow>
   \<exists>m s'. witness_sigops_loop usage s flags n ins = Some (m, s') \<and> 0 \<le> m \<and> cache_inv usage s' \<and> cache_coins s' = cache_coins s"
proof (induction ins arbitrary: s n)
  case (Cons i ins)
  from access_law [OF Cons.prems(1), of "prevout i"] obtain coin s1 where s1:
    "AccessCoin usage (fst s) (snd s) (prevout i) = (coin, s1)" "cache_inv usage s1"
    "cache_coins s1 = cache_coins s" "(if IsSpent coin then None else Some coin) = cache_coins s (prevout i)" .
  then have sp: "\<not> IsSpent coin" using Cons.prems(2) by (auto split: if_splits)
  from CountWitnessSigOps_total [OF assms] obtain k where
    k: "CountWitnessSigOps (scriptSig i) (scriptPubKey (coin_out coin)) (scriptWitness i) flags = Some k" by blast
  from Cons.IH [OF s1(2), of "n + int k"] Cons.prems(2,3) s1(3) obtain m s2 where
    "witness_sigops_loop usage s1 flags (n + int k) ins = Some (m, s2)" "0 \<le> m" "cache_inv usage s2" "cache_coins s2 = cache_coins s"
    by auto
  with s1 k sp show ?case by auto
qed auto

lemma sigop_cost_total:
  assumes "flags AND SCRIPT_VERIFY_WITNESS \<noteq> 0 \<longrightarrow> flags AND SCRIPT_VERIFY_P2SH \<noteq> 0"
    and inv: "cache_inv usage s" and ins: "IsCoinBase tx \<or> (\<forall>i \<in> set (vin tx). cache_coins s (prevout i) \<noteq> None)"
  shows "\<exists>n s'. GetTransactionSigOpCost usage s tx flags = Some (n, s') \<and> 0 \<le> n \<and> cache_inv usage s' \<and> cache_coins s' = cache_coins s"
proof (cases "IsCoinBase tx")
  case True
  then show ?thesis using inv by (simp add: GetTransactionSigOpCost_def)
next
  case False
  note wit = witness_sigops_total [OF assms(1)]
  show ?thesis
  proof (cases "flags AND SCRIPT_VERIFY_P2SH = 0")
    case True
    with wit [OF inv, of "vin tx" "uint (GetLegacySigOpCount tx * of_nat WITNESS_SCALE_FACTOR)"] False ins show ?thesis
      by (simp add: GetTransactionSigOpCost_def)
  next
    case flag: False
    from p2sh_sigops_total [OF inv, of "vin tx" 0] False ins obtain m s1 where
      m: "GetP2SHSigOpCount usage s tx = Some (m, s1)" "cache_inv usage s1" "cache_coins s1 = cache_coins s"
      by (auto simp: GetP2SHSigOpCount_def)
    from wit [OF m(2), of "vin tx" "uint (GetLegacySigOpCount tx * of_nat WITNESS_SCALE_FACTOR) + uint (m * of_nat WITNESS_SCALE_FACTOR)"]
      ins False m flag show ?thesis by (simp add: GetTransactionSigOpCost_def)
  qed
qed

section \<open>Properties\<close>

text \<open>
  C17: \<open>CheckTxInputs\<close> on a transaction that passed \<open>CheckTransaction\<close> and is not a coinbase. No
  assertion fails and no exception is thrown, the coins are unchanged, and it accepts exactly when
  every input is an unspent coin in the money range, coinbase outputs among them being at least
  100 blocks deep, the inputs sum within the money range and the outputs do not exceed them; the
  fee it returns is the difference.
\<close>

theorem CheckTxInputs_correct:
  assumes "cache_inv usage s" "\<not> IsCoinBase tx" "CheckTransaction tx = Inr ()"
  shows "\<exists>r s'. CheckTxInputs usage s tx height = Some (r, s') \<and> cache_inv usage s' \<and> cache_coins s' = cache_coins s \<and>
     (\<forall>fee. r = Inr fee \<longleftrightarrow> (\<forall>i \<in> set (vin tx). spendable (cache_coins s) height i) \<and>
        fee = sum_list (map (input_value (cache_coins s)) (vin tx)) - sum_list (map nValue (vout tx)) \<and>
        MoneyRange (fee + sum_list (map nValue (vout tx))) \<and> 0 \<le> fee)"
proof (rule CheckTxInputs_ok [OF assms(1,2) CheckTransaction_GetValueOut [OF assms(3)]])
  show "0 \<le> sum_list (map nValue (vout tx))"
    using assms(3) by (intro sum_list_nonneg) (auto simp: CheckTransaction_iff MoneyRange_def list_all_iff)
qed

definition example_spend :: CTransaction where
  "example_spend =
     \<lparr>vin = [\<lparr>prevout = example_point, scriptSig = [], nSequence = 0, scriptWitness = []\<rparr>],
      vout = [\<lparr>nValue = 900, scriptPubKey = [OP_TRUE]\<rparr>], txVersion = 1, nLockTime = 0\<rparr>"

lemma length_example_spend: "length (SerializeTransaction False example_spend) = 61"
  by (simp add: example_spend_def SerializeTransaction_def ser_vector_def ser_txin_def ser_txout_def ser_outpoint_def
      ser_bytes_def length_WriteCompactSize GetSizeOfCompactSize_def ser_word_def ser_int32_def ser_int64_def
      example_point_def example_hash_def)

lemma example_spend_ok: "CheckTransaction example_spend = Inr ()" "\<not> IsCoinBase example_spend"
proof -
  have n: "\<not> outpoint_IsNull example_point" by (simp add: outpoint_IsNull_def example_point_def NULL_INDEX_def)
  then show "\<not> IsCoinBase example_spend" by (simp add: IsCoinBase_def example_spend_def)
  then show "CheckTransaction example_spend = Inr ()"
    using n length_example_spend by (simp add: CheckTransaction_iff) (simp add: example_spend_def MoneyRange_def MAX_MONEY_def COIN_def)
qed

theorem CheckTxInputs_correct_witness:
  "\<exists>s'. CheckTxInputs (\<lambda>_. 0) (example_cache, example_db) example_spend 10 = Some (Inr 100, s')"
proof -
  have inv: "cache_inv (\<lambda>_. 0) (example_cache, example_db)" using example_wf by (simp add: cache_inv_def)
  have c: "cache_coins (example_cache, example_db) example_point = Some (mk_Coin example_out 5 False)"
    by (simp add: cache_coins_def example_cache_def example_db_def view_coins.simps(2))
  have "(\<forall>i \<in> set (vin example_spend). spendable (cache_coins (example_cache, example_db)) 10 i) \<and>
    (100::int) = sum_list (map (input_value (cache_coins (example_cache, example_db))) (vin example_spend)) - sum_list (map nValue (vout example_spend)) \<and>
    MoneyRange (100 + sum_list (map nValue (vout example_spend)))"
    using c by (simp add: example_spend_def spendable_def input_value_def mk_Coin_def example_out_def MoneyRange_def MAX_MONEY_def COIN_def)
  with CheckTxInputs_correct [OF inv example_spend_ok(2,1), of 10] show ?thesis by (metis zero_le_numeral)
qed

end
