(* ===== verification/Merkle.thy ===== *)
theory Merkle
  imports Tx_Check
begin

text \<open>
  Merkle roots and proofs: \<open>src/consensus/merkle.cpp\<close> and the partial trees of
  \<open>src/merkleblock.h\<close> and \<open>src/merkleblock.cpp\<close>. The argument \<open>hash2\<close> is the double SHA-256 of the
  64 bytes of two hashes. Sizes are natural numbers: the code bounds the number of transactions by
  the block weight before it uses them.
\<close>

section \<open>Merkle roots\<close>

text \<open>One level: hash the pairs, an odd last hash with itself.\<close>

fun merkle_level :: "(uint256 \<Rightarrow> uint256 \<Rightarrow> uint256) \<Rightarrow> uint256 list \<Rightarrow> uint256 list" where
  "merkle_level hash2 [] = []"
| "merkle_level hash2 [a] = [hash2 a a]"
| "merkle_level hash2 (a # b # hs) = hash2 a b # merkle_level hash2 hs"

fun level_mutated :: "uint256 list \<Rightarrow> bool" where
  "level_mutated (a # b # hs) \<longleftrightarrow> a = b \<or> level_mutated hs"
| "level_mutated _ \<longleftrightarrow> False"

lemma length_merkle_level: "length (merkle_level hash2 hs) = (length hs + 1) div 2"
  by (induction hash2 hs rule: merkle_level.induct) auto

function merkle_loop :: "(uint256 \<Rightarrow> uint256 \<Rightarrow> uint256) \<Rightarrow> bool \<Rightarrow> uint256 list \<Rightarrow> uint256 \<times> bool" where
  "merkle_loop hash2 mutation hashes =
     (if length hashes > 1 then merkle_loop hash2 (mutation \<or> level_mutated hashes) (merkle_level hash2 hashes)
      else (case hashes of [] \<Rightarrow> uint256_zero | h # _ \<Rightarrow> h, mutation))"
  by auto
termination
  by (relation "measure (\<lambda>(_, _, hs). length hs)") (auto simp: length_merkle_level)

declare merkle_loop.simps [simp del]

definition ComputeMerkleRoot :: "(uint256 \<Rightarrow> uint256 \<Rightarrow> uint256) \<Rightarrow> uint256 list \<Rightarrow> uint256 \<times> bool" where
  "ComputeMerkleRoot hash2 hashes = merkle_loop hash2 False hashes"

section \<open>Partial trees\<close>

record CPartialMerkleTree =
  nTransactions :: nat
  vBits :: "bool list"
  vHash :: "uint256 list"
  fBad :: bool

definition CalcTreeWidth :: "nat \<Rightarrow> nat \<Rightarrow> nat" where
  "CalcTreeWidth n height = (n + 2 ^ height - 1) div 2 ^ height"

primrec CalcHash :: "(uint256 \<Rightarrow> uint256 \<Rightarrow> uint256) \<Rightarrow> uint256 list \<Rightarrow> nat \<Rightarrow> nat \<Rightarrow> uint256" where
  "CalcHash hash2 vTxid 0 pos = vTxid ! pos"
| "CalcHash hash2 vTxid (Suc height) pos =
     (let left = CalcHash hash2 vTxid height (pos * 2);
          right = (if pos * 2 + 1 < CalcTreeWidth (length vTxid) height
                   then CalcHash hash2 vTxid height (pos * 2 + 1) else left)
      in hash2 left right)"

definition parent_of_match :: "bool list \<Rightarrow> nat \<Rightarrow> nat \<Rightarrow> bool" where
  "parent_of_match vMatch height pos = list_ex (\<lambda>p. vMatch ! p) [pos * 2 ^ height ..< min ((pos + 1) * 2 ^ height) (length vMatch)]"

primrec TraverseAndBuild ::
  "(uint256 \<Rightarrow> uint256 \<Rightarrow> uint256) \<Rightarrow> uint256 list \<Rightarrow> bool list \<Rightarrow> nat \<Rightarrow> nat \<Rightarrow> bool list \<times> uint256 list \<Rightarrow> bool list \<times> uint256 list" where
  "TraverseAndBuild hash2 vTxid vMatch 0 pos acc =
     (fst acc @ [parent_of_match vMatch 0 pos], snd acc @ [CalcHash hash2 vTxid 0 pos])"
| "TraverseAndBuild hash2 vTxid vMatch (Suc height) pos acc =
     (let fParentOfMatch = parent_of_match vMatch (Suc height) pos;
          bits = fst acc @ [fParentOfMatch]
      in if \<not> fParentOfMatch then (bits, snd acc @ [CalcHash hash2 vTxid (Suc height) pos])
         else let acc' = TraverseAndBuild hash2 vTxid vMatch height (pos * 2) (bits, snd acc)
              in if pos * 2 + 1 < CalcTreeWidth (length vTxid) height
                 then TraverseAndBuild hash2 vTxid vMatch height (pos * 2 + 1) acc'
                 else acc')"

text \<open>The height of the tree: the loop ends since the width of level \<open>n\<close> is at most 1.\<close>

function tree_height_from :: "nat \<Rightarrow> nat \<Rightarrow> nat" where
  "tree_height_from n height = (if CalcTreeWidth n height > 1 then tree_height_from n (Suc height) else height)"
  by auto
termination
proof (relation "measure (\<lambda>(n, h). n - h)")
  fix n height :: nat
  assume w: "1 < CalcTreeWidth n height"
  have "height < n"
  proof (rule ccontr)
    assume "\<not> height < n"
    then have "n \<le> 2 ^ height" using less_exp [of height] by linarith
    moreover have "(0::nat) < 2 ^ height" by simp
    ultimately have "n + 2 ^ height - 1 < 2 * 2 ^ height" by linarith
    then have "CalcTreeWidth n height < 2" unfolding CalcTreeWidth_def by (simp add: less_mult_imp_div_less)
    with w show False by simp
  qed
  then show "((n, Suc height), n, height) \<in> measure (\<lambda>(n, h). n - h)" by simp
qed simp

declare tree_height_from.simps [simp del]

definition mk_CPartialMerkleTree ::
  "(uint256 \<Rightarrow> uint256 \<Rightarrow> uint256) \<Rightarrow> uint256 list \<Rightarrow> bool list \<Rightarrow> CPartialMerkleTree" where
  "mk_CPartialMerkleTree hash2 vTxid vMatch =
     (let (bits, hashes) = TraverseAndBuild hash2 vTxid vMatch (tree_height_from (length vTxid) 0) 0 ([], [])
      in \<lparr>nTransactions = length vTxid, vBits = bits, vHash = hashes, fBad = False\<rparr>)"

text \<open>The state of the extraction: the flag, the positions in both arrays, and the matches.\<close>

record extract_state =
  ex_bad :: bool
  nBitsUsed :: nat
  nHashUsed :: nat
  ex_match :: "uint256 list"
  vnIndex :: "nat list"

definition extract_leaf ::
  "CPartialMerkleTree \<Rightarrow> nat \<Rightarrow> nat \<Rightarrow> bool \<Rightarrow> extract_state \<Rightarrow> uint256 \<times> extract_state" where
  "extract_leaf t height pos fParentOfMatch s =
     (if nHashUsed s \<ge> length (vHash t) then (uint256_zero, s\<lparr>ex_bad := True\<rparr>)
      else let hash = vHash t ! nHashUsed s; s' = s\<lparr>nHashUsed := nHashUsed s + 1\<rparr>
           in (hash, if height = 0 \<and> fParentOfMatch
                     then s'\<lparr>ex_match := ex_match s @ [hash], vnIndex := vnIndex s @ [pos]\<rparr> else s'))"

primrec TraverseAndExtract ::
  "(uint256 \<Rightarrow> uint256 \<Rightarrow> uint256) \<Rightarrow> CPartialMerkleTree \<Rightarrow> nat \<Rightarrow> nat \<Rightarrow> extract_state \<Rightarrow> uint256 \<times> extract_state" where
  "TraverseAndExtract hash2 t 0 pos s =
     (if nBitsUsed s \<ge> length (vBits t) then (uint256_zero, s\<lparr>ex_bad := True\<rparr>)
      else extract_leaf t 0 pos (vBits t ! nBitsUsed s) (s\<lparr>nBitsUsed := nBitsUsed s + 1\<rparr>))"
| "TraverseAndExtract hash2 t (Suc height) pos s =
     (if nBitsUsed s \<ge> length (vBits t) then (uint256_zero, s\<lparr>ex_bad := True\<rparr>)
      else if \<not> vBits t ! nBitsUsed s
      then extract_leaf t (Suc height) pos False (s\<lparr>nBitsUsed := nBitsUsed s + 1\<rparr>)
      else
        let (left, s1) = TraverseAndExtract hash2 t height (pos * 2) (s\<lparr>nBitsUsed := nBitsUsed s + 1\<rparr>)
        in if pos * 2 + 1 < CalcTreeWidth (nTransactions t) height
           then let (right, s2) = TraverseAndExtract hash2 t height (pos * 2 + 1) s1
                in (hash2 left right, if right = left then s2\<lparr>ex_bad := True\<rparr> else s2)
           else (hash2 left left, s1))"

definition MIN_TRANSACTION_WEIGHT :: nat where
  "MIN_TRANSACTION_WEIGHT = WITNESS_SCALE_FACTOR * 60"

text \<open>
  The matches are reset, the indices are appended to those the caller passes, and the object keeps
  the failure flag.
\<close>

definition ExtractMatches ::
  "(uint256 \<Rightarrow> uint256 \<Rightarrow> uint256) \<Rightarrow> CPartialMerkleTree \<Rightarrow> nat list \<Rightarrow> uint256 \<times> uint256 list \<times> nat list \<times> CPartialMerkleTree" where
  "ExtractMatches hash2 t indices =
     (if nTransactions t = 0 \<or> nTransactions t > MAX_BLOCK_WEIGHT div MIN_TRANSACTION_WEIGHT \<or>
         length (vHash t) > nTransactions t \<or> length (vBits t) < length (vHash t)
      then (uint256_zero, [], indices, t)
      else
        let (root, s) = TraverseAndExtract hash2 t (tree_height_from (nTransactions t) 0) 0
              \<lparr>ex_bad = fBad t, nBitsUsed = 0, nHashUsed = 0, ex_match = [], vnIndex = indices\<rparr>
        in (if ex_bad s \<or> (nBitsUsed s + 7) div 8 \<noteq> (length (vBits t) + 7) div 8 \<or> nHashUsed s \<noteq> length (vHash t)
            then uint256_zero else root,
            ex_match s, vnIndex s, t\<lparr>fBad := ex_bad s\<rparr>))"

definition BitsToBytes :: "bool list \<Rightarrow> bytes" where
  "BitsToBytes bits =
     map (\<lambda>k. foldr (OR) (map (\<lambda>j. if bits ! (k * 8 + j) then push_bit j 1 else 0) [0..<min 8 (length bits - k * 8)]) 0)
       [0..<(length bits + 7) div 8]"

definition BytesToBits :: "bytes \<Rightarrow> bool list" where
  "BytesToBits bs = map (\<lambda>p. bs ! (p div 8) AND push_bit (p mod 8) 1 \<noteq> 0) [0..<length bs * 8]"

section \<open>Levels\<close>

definition levels :: "(uint256 \<Rightarrow> uint256 \<Rightarrow> uint256) \<Rightarrow> nat \<Rightarrow> uint256 list \<Rightarrow> uint256 list" where
  "levels hash2 k hs = (merkle_level hash2 ^^ k) hs"

lemma levels_0 [simp]: "levels hash2 0 hs = hs"
  by (simp add: levels_def)

lemma levels_Suc: "levels hash2 (Suc k) hs = merkle_level hash2 (levels hash2 k hs)"
  by (simp add: levels_def)

lemma levels_Suc_inner: "levels hash2 (Suc k) hs = levels hash2 k (merkle_level hash2 hs)"
  by (simp add: levels_def funpow_swap1)

lemma levels_add: "levels hash2 (j + k) hs = levels hash2 j (levels hash2 k hs)"
  by (simp add: levels_def funpow_add)

lemma ceil_div_step: "((n + m - 1) div m + 1) div 2 = (n + 2 * m - 1) div (2 * m)" if "0 < m" for n m :: nat
proof -
  have "(n + m - 1 + m) div m = (n + m - 1) div m + 1" using that by (simp only: div_add_self2)
  then have "((n + m - 1) div m + 1) div 2 = ((n + m - 1 + m) div m) div 2" by (simp only:)
  also have "\<dots> = (n + m - 1 + m) div (m * 2)" by (simp add: div_mult2_eq)
  moreover have "n + m - 1 + m = n + 2 * m - 1" "m * 2 = 2 * m" using that by simp_all
  ultimately show ?thesis by (simp only:)
qed

lemma length_levels: "length (levels hash2 k hs) = CalcTreeWidth (length hs) k"
proof (induction k)
  case (Suc k)
  have "length (levels hash2 (Suc k) hs) = (CalcTreeWidth (length hs) k + 1) div 2"
    by (simp add: levels_Suc length_merkle_level Suc)
  then show ?case using ceil_div_step [of "2 ^ k" "length hs"] by (simp add: CalcTreeWidth_def)
qed (simp add: CalcTreeWidth_def)

lemma nth_merkle_level:
  "i < length (merkle_level hash2 hs) \<Longrightarrow>
   merkle_level hash2 hs ! i = hash2 (hs ! (2 * i)) (if 2 * i + 1 < length hs then hs ! (2 * i + 1) else hs ! (2 * i))"
proof (induction hash2 hs arbitrary: i rule: merkle_level.induct)
  case (3 hash2 a b hs)
  then show ?case by (cases i) auto
qed auto

lemma level_mutated_iff: "level_mutated hs \<longleftrightarrow> (\<exists>i. 2 * i + 1 < length hs \<and> hs ! (2 * i) = hs ! (2 * i + 1))"
proof (induction hs rule: level_mutated.induct)
  case (1 a b hs)
  have "(\<exists>i. 2 * i + 1 < length (a # b # hs) \<and> (a # b # hs) ! (2 * i) = (a # b # hs) ! (2 * i + 1)) \<longleftrightarrow>
    a = b \<or> (\<exists>i. 2 * Suc i + 1 < length (a # b # hs) \<and> (a # b # hs) ! (2 * Suc i) = (a # b # hs) ! (2 * Suc i + 1))"
    (is "(\<exists>i. ?P i) \<longleftrightarrow> _ \<or> (\<exists>i. ?P (Suc i))")
  proof -
    have "(\<exists>i. ?P i) \<longleftrightarrow> ?P 0 \<or> (\<exists>i. ?P (Suc i))" by (metis not0_implies_Suc)
    then show ?thesis by simp
  qed
  then show ?case using 1 by simp
qed auto

lemma CalcHash_levels:
  "pos < CalcTreeWidth (length vTxid) k \<Longrightarrow> CalcHash hash2 vTxid k pos = levels hash2 k vTxid ! pos"
proof (induction k arbitrary: pos)
  case (Suc k)
  have pos: "pos < length (merkle_level hash2 (levels hash2 k vTxid))"
    using Suc.prems length_levels [of hash2 "Suc k" vTxid] by (simp only: levels_Suc)
  then have "pos * 2 < CalcTreeWidth (length vTxid) k" by (simp add: length_merkle_level length_levels)
  with Suc.IH pos show ?case
    by (simp add: levels_Suc nth_merkle_level length_levels Let_def mult.commute)
qed simp

text \<open>The root and the flag in terms of levels.\<close>

lemma CalcTreeWidth_Suc: "CalcTreeWidth n (Suc k) = CalcTreeWidth ((n + 1) div 2) k"
proof -
  let ?hs = "replicate n ([] :: uint256)"
  have "length (levels (\<lambda>_ _. []) (Suc k) ?hs) = length (levels (\<lambda>_ _. []) k (merkle_level (\<lambda>_ _. []) ?hs))"
    by (simp only: levels_Suc_inner)
  then show ?thesis by (simp add: length_levels length_merkle_level)
qed

lemma tree_height_Suc: "tree_height_from n (Suc k) = Suc (tree_height_from ((n + 1) div 2) k)"
proof (induction "(n + 1) div 2" k rule: tree_height_from.induct)
  case (1 k)
  show ?case
  proof (cases "CalcTreeWidth ((n + 1) div 2) k > 1")
    case True
    have "tree_height_from ((n + 1) div 2) k = tree_height_from ((n + 1) div 2) (Suc k)"
      by (subst tree_height_from.simps) (simp only: True if_True)
    moreover have "tree_height_from n (Suc k) = tree_height_from n (Suc (Suc k))"
      by (subst tree_height_from.simps) (simp only: CalcTreeWidth_Suc True if_True)
    ultimately show ?thesis using 1 [OF True] by (simp only:)
  next
    case False
    have "tree_height_from ((n + 1) div 2) k = k"
      by (subst tree_height_from.simps) (simp only: False if_False)
    moreover have "tree_height_from n (Suc k) = Suc k"
      by (subst tree_height_from.simps) (simp only: CalcTreeWidth_Suc False if_False)
    ultimately show ?thesis by (simp only:)
  qed
qed

lemma tree_height_step: "n > 1 \<Longrightarrow> tree_height_from n 0 = Suc (tree_height_from ((n + 1) div 2) 0)"
  by (subst tree_height_from.simps) (simp add: tree_height_Suc CalcTreeWidth_def)

lemma tree_height_small: "n \<le> 1 \<Longrightarrow> tree_height_from n 0 = 0"
  by (subst tree_height_from.simps) (simp add: CalcTreeWidth_def)

lemma mutated_levels_step:
  "(\<exists>k. level_mutated (levels hash2 k hs)) \<longleftrightarrow>
   level_mutated hs \<or> (\<exists>k. level_mutated (levels hash2 k (merkle_level hash2 hs)))"
  by (metis levels_0 levels_Suc_inner not0_implies_Suc)

lemma levels_small: "length hs \<le> 1 \<Longrightarrow> length (levels hash2 k hs) \<le> 1"
  by (induction k) (auto simp: levels_Suc length_merkle_level)

lemma not_mutated_small: "length hs \<le> 1 \<Longrightarrow> \<not> level_mutated hs"
  by (cases hs rule: level_mutated.cases) auto

lemma merkle_loop_levels:
  "merkle_loop hash2 m hs =
     (if hs = [] then uint256_zero else levels hash2 (tree_height_from (length hs) 0) hs ! 0,
      m \<or> (\<exists>k. level_mutated (levels hash2 k hs)))"
proof (induction hash2 m hs rule: merkle_loop.induct)
  case (1 hash2 m hs)
  show ?case
  proof (cases "length hs > 1")
    case True
    then have ne: "hs \<noteq> []" "merkle_level hash2 hs \<noteq> []" using length_merkle_level [of hash2 hs] by auto
    have "levels hash2 (tree_height_from (length hs) 0) hs =
        levels hash2 (tree_height_from (length (merkle_level hash2 hs)) 0) (merkle_level hash2 hs)"
      using True by (simp add: tree_height_step levels_Suc_inner length_merkle_level)
    with 1 [OF True] True ne mutated_levels_step [of hash2 hs] show ?thesis
      by (simp add: merkle_loop.simps [of hash2 m hs])
  next
    case False
    then have "\<not> level_mutated (levels hash2 k hs)" for k
      using levels_small not_mutated_small by (metis not_le_imp_less)
    with False show ?thesis by (cases hs) (simp_all add: merkle_loop.simps [of hash2 m] tree_height_small)
  qed
qed

lemma CalcTreeWidth_pos: "0 < n \<Longrightarrow> 0 < CalcTreeWidth n k"
  by (simp add: CalcTreeWidth_def div_greater_zero_iff)

lemma ComputeMerkleRoot_levels:
  assumes "hs \<noteq> []"
  shows "ComputeMerkleRoot hash2 hs =
     (CalcHash hash2 hs (tree_height_from (length hs) 0) 0, \<exists>k. level_mutated (levels hash2 k hs))"
  using assms by (simp add: ComputeMerkleRoot_def merkle_loop_levels CalcHash_levels CalcTreeWidth_pos)

text \<open>Without the flag, the children of every inner node differ.\<close>

lemma unmutated_children:
  assumes "\<not> (\<exists>k. level_mutated (levels hash2 k hs))" "2 * pos + 1 < CalcTreeWidth (length hs) k"
  shows "CalcHash hash2 hs k (pos * 2) \<noteq> CalcHash hash2 hs k (pos * 2 + 1)"
proof -
  have "levels hash2 k hs ! (2 * pos) \<noteq> levels hash2 k hs ! (2 * pos + 1)"
    using assms unfolding level_mutated_iff length_levels by blast
  then show ?thesis using assms(2) by (simp add: CalcHash_levels mult.commute)
qed

section \<open>Extraction inverts construction\<close>

text \<open>What a subtree contributes: the matched leaves below a node, in order.\<close>

definition matches_below :: "bool list \<Rightarrow> nat \<Rightarrow> nat \<Rightarrow> nat list" where
  "matches_below vMatch height pos =
     filter (\<lambda>p. vMatch ! p) [pos * 2 ^ height ..< min ((pos + 1) * 2 ^ height) (length vMatch)]"

lemma parent_of_match_iff: "parent_of_match vMatch height pos \<longleftrightarrow> matches_below vMatch height pos \<noteq> []"
  by (simp add: parent_of_match_def matches_below_def list_ex_iff filter_empty_conv)

lemma width_gt: "pos < CalcTreeWidth n k \<longleftrightarrow> pos * 2 ^ k < n"
proof -
  have "pos < (n + 2 ^ k - 1) div 2 ^ k \<longleftrightarrow> (pos + 1) * 2 ^ k \<le> n + 2 ^ k - 1"
    by (simp add: less_eq_div_iff_mult_less_eq Suc_le_eq [symmetric])
  moreover have "(1::nat) \<le> 2 ^ k" "(pos + 1) * 2 ^ k = pos * 2 ^ k + 2 ^ k" by simp_all
  ultimately show ?thesis unfolding CalcTreeWidth_def by linarith
qed

lemma upt_split: "i \<le> j \<Longrightarrow> j \<le> k \<Longrightarrow> [i..<k] = [i..<j] @ [j..<k]"
  using upt_add_eq_append [of i j "k - j"] by simp

lemma matches_below_Suc:
  "matches_below vMatch (Suc k) pos = matches_below vMatch k (pos * 2) @
     (if pos * 2 + 1 < CalcTreeWidth (length vMatch) k then matches_below vMatch k (pos * 2 + 1) else [])"
proof -
  let ?n = "length vMatch" and ?a = "pos * 2 * 2 ^ k" and ?b = "(pos * 2 + 1) * 2 ^ k" and ?c = "(pos * 2 + 2) * 2 ^ k"
  have ord: "?a \<le> ?b" "?b \<le> ?c" by simp_all
  have "[?a..<min ?c ?n] = [?a..<min ?b ?n] @ (if ?b < ?n then [?b..<min ?c ?n] else [])"
  proof (cases "?b < ?n")
    case True
    then have "min ?b ?n = ?b" "?b \<le> min ?c ?n" using ord by simp_all
    with True ord upt_split [of ?a ?b "min ?c ?n"] show ?thesis by simp
  next
    case False
    then have "min ?c ?n = ?n" "min ?b ?n = ?n" using ord by simp_all
    with False show ?thesis by (simp only: if_False append_Nil2)
  qed
  moreover have "pos * 2 ^ Suc k = ?a" "(pos + 1) * 2 ^ Suc k = ?c" by simp_all
  ultimately show ?thesis unfolding matches_below_def width_gt
    by (simp only: filter_append if_distrib [of "filter _"] filter.simps(1) if_cancel) (simp add: algebra_simps)
qed

text \<open>The bits and hashes of a subtree.\<close>

abbreviation built :: "(uint256 \<Rightarrow> uint256 \<Rightarrow> uint256) \<Rightarrow> uint256 list \<Rightarrow> bool list \<Rightarrow> nat \<Rightarrow> nat \<Rightarrow> bool list \<times> uint256 list" where
  "built hash2 vTxid vMatch k pos \<equiv> TraverseAndBuild hash2 vTxid vMatch k pos ([], [])"

lemma TraverseAndBuild_acc:
  "TraverseAndBuild hash2 vTxid vMatch k pos acc =
     (fst acc @ fst (built hash2 vTxid vMatch k pos), snd acc @ snd (built hash2 vTxid vMatch k pos))"
proof (induction k arbitrary: pos acc)
  case (Suc k)
  note l = Suc.IH [of "pos * 2" "(fst acc @ [True], snd acc)"] Suc.IH [of "pos * 2" "([True], [])"]
  note r = Suc.IH [of "pos * 2 + 1" "TraverseAndBuild hash2 vTxid vMatch k (pos * 2) (fst acc @ [True], snd acc)"]
    Suc.IH [of "pos * 2 + 1" "TraverseAndBuild hash2 vTxid vMatch k (pos * 2) ([True], [])"]
  show ?case using l r by (cases "parent_of_match vMatch (Suc k) pos") (simp_all add: Let_def)
qed simp

lemma built_Suc:
  "built hash2 vTxid vMatch (Suc k) pos =
     (if matches_below vMatch (Suc k) pos = [] then ([False], [CalcHash hash2 vTxid (Suc k) pos])
      else let l = built hash2 vTxid vMatch k (pos * 2);
               r = (if pos * 2 + 1 < CalcTreeWidth (length vTxid) k then built hash2 vTxid vMatch k (pos * 2 + 1) else ([], []))
           in (True # fst l @ fst r, snd l @ snd r))"
  using TraverseAndBuild_acc [of hash2 vTxid vMatch k "pos * 2" "([True], [])"]
    TraverseAndBuild_acc [of hash2 vTxid vMatch k "pos * 2 + 1" "TraverseAndBuild hash2 vTxid vMatch k (pos * 2) ([True], [])"]
  by (simp add: Let_def parent_of_match_iff)

lemma built_0:
  "pos < length vMatch \<Longrightarrow> built hash2 vTxid vMatch 0 pos = ([matches_below vMatch 0 pos \<noteq> []], [vTxid ! pos])"
  by (simp add: parent_of_match_iff)

lemma matches_below_0: "pos < length vMatch \<Longrightarrow> matches_below vMatch 0 pos = (if vMatch ! pos then [pos] else [])"
  by (simp add: matches_below_def min_def)

lemma extract_leaf_hit:
  assumes "vHash t = h0 @ h # h1" "nHashUsed s = length h0"
  shows "extract_leaf t height pos f s =
     (h, if height = 0 \<and> f then s\<lparr>nHashUsed := length h0 + 1, ex_match := ex_match s @ [h], vnIndex := vnIndex s @ [pos]\<rparr>
         else s\<lparr>nHashUsed := length h0 + 1\<rparr>)"
  using assms by (simp add: extract_leaf_def Let_def)

lemma extract_built:
  assumes t: "nTransactions t = length vTxid" "length vMatch = length vTxid"
    and um: "\<not> (\<exists>k. level_mutated (levels hash2 k vTxid))"
  shows "pos < CalcTreeWidth (length vTxid) k \<Longrightarrow>
    vBits t = b0 @ fst (built hash2 vTxid vMatch k pos) @ b1 \<Longrightarrow> vHash t = h0 @ snd (built hash2 vTxid vMatch k pos) @ h1 \<Longrightarrow>
    nBitsUsed s = length b0 \<Longrightarrow> nHashUsed s = length h0 \<Longrightarrow>
    TraverseAndExtract hash2 t k pos s =
      (CalcHash hash2 vTxid k pos,
       s\<lparr>nBitsUsed := length b0 + length (fst (built hash2 vTxid vMatch k pos)),
         nHashUsed := length h0 + length (snd (built hash2 vTxid vMatch k pos)),
         ex_match := ex_match s @ map ((!) vTxid) (matches_below vMatch k pos),
         vnIndex := vnIndex s @ matches_below vMatch k pos\<rparr>)"
proof (induction k arbitrary: pos b0 b1 h0 h1 s)
  case 0
  then have pos: "pos < length vMatch" using t by (simp add: CalcTreeWidth_def)
  with 0 have "vHash t = h0 @ vTxid ! pos # h1" by simp
  from extract_leaf_hit [OF this, of "s\<lparr>nBitsUsed := length b0 + 1\<rparr>" 0 pos "vMatch ! pos"] 0 pos show ?case
    by (cases "vMatch ! pos") (simp_all add: matches_below_0 parent_of_match_iff)
next
  case (Suc k)
  show ?case
  proof (cases "matches_below vMatch (Suc k) pos = []")
    case True
    with Suc.prems have "vHash t = h0 @ CalcHash hash2 vTxid (Suc k) pos # h1" by (simp add: built_Suc del: TraverseAndBuild.simps)
    from extract_leaf_hit [OF this, of "s\<lparr>nBitsUsed := length b0 + 1\<rparr>" "Suc k" pos False] Suc.prems True show ?thesis
      by (simp add: built_Suc del: TraverseAndBuild.simps CalcHash.simps)
  next
    case False
    let ?l = "built hash2 vTxid vMatch k (pos * 2)" and ?w = "pos * 2 + 1 < CalcTreeWidth (length vTxid) k"
    let ?r = "if ?w then built hash2 vTxid vMatch k (pos * 2 + 1) else ([], [])"
    have bs: "fst (built hash2 vTxid vMatch (Suc k) pos) = True # fst ?l @ fst ?r"
      "snd (built hash2 vTxid vMatch (Suc k) pos) = snd ?l @ snd ?r"
      unfolding built_Suc Let_def using False by simp_all
    let ?s1 = "s\<lparr>nBitsUsed := length (b0 @ [True]) + length (fst ?l), nHashUsed := length h0 + length (snd ?l),
      ex_match := ex_match s @ map ((!) vTxid) (matches_below vMatch k (pos * 2)), vnIndex := vnIndex s @ matches_below vMatch k (pos * 2)\<rparr>"
    have wl: "pos * 2 < CalcTreeWidth (length vTxid) k" using Suc.prems(1) by (simp add: width_gt)
    have left: "TraverseAndExtract hash2 t k (pos * 2) (s\<lparr>nBitsUsed := length b0 + 1\<rparr>) = (CalcHash hash2 vTxid k (pos * 2), ?s1)"
      using Suc.IH [OF wl, of "b0 @ [True]" "fst ?r @ b1" h0 "snd ?r @ h1" "s\<lparr>nBitsUsed := length b0 + 1\<rparr>"] Suc.prems(2-5) bs by simp
    have bit: "nBitsUsed s < length (vBits t)" "vBits t ! nBitsUsed s" using Suc.prems(2,4) bs(1) by simp_all
    show ?thesis
    proof (cases ?w)
      case True
      have right: "TraverseAndExtract hash2 t k (pos * 2 + 1) ?s1 = (CalcHash hash2 vTxid k (pos * 2 + 1),
          ?s1\<lparr>nBitsUsed := length (b0 @ True # fst ?l) + length (fst ?r), nHashUsed := length (h0 @ snd ?l) + length (snd ?r),
            ex_match := ex_match ?s1 @ map ((!) vTxid) (matches_below vMatch k (pos * 2 + 1)),
            vnIndex := vnIndex ?s1 @ matches_below vMatch k (pos * 2 + 1)\<rparr>)"
        using Suc.IH [OF True, of "b0 @ True # fst ?l" b1 "h0 @ snd ?l" h1 ?s1] Suc.prems(2-5) bs True by simp
      have ne: "CalcHash hash2 vTxid k (pos * 2) \<noteq> CalcHash hash2 vTxid k (pos * 2 + 1)"
        by (rule unmutated_children [OF um]) (use True in \<open>simp add: mult.commute\<close>)
      show ?thesis unfolding bs using bit left right ne True t Suc.prems(4)
        by (simp add: Let_def matches_below_Suc del: TraverseAndBuild.simps)
    next
      case w: False
      then show ?thesis unfolding bs using bit left t Suc.prems(4)
        by (simp add: Let_def matches_below_Suc del: TraverseAndBuild.simps)
    qed
  qed
qed

lemma span_add:
  "x \<le> min b n - a \<Longrightarrow> y \<le> min c n - b \<Longrightarrow> a \<le> b \<Longrightarrow> b \<le> c \<Longrightarrow> b < n \<Longrightarrow> x + y \<le> min c n - a" for a b c n x y :: nat
  by (auto simp: min_def split: if_splits)

lemma span_mono: "x \<le> min b n - a \<Longrightarrow> \<not> b < n \<Longrightarrow> b \<le> c \<Longrightarrow> x \<le> min c n - a" for a b c n x :: nat
  by (auto simp: min_def split: if_splits)

lemma built_sizes:
  assumes "length vMatch = length vTxid"
  shows "pos < CalcTreeWidth (length vTxid) k \<Longrightarrow>
    length (snd (built hash2 vTxid vMatch k pos)) \<le> length (fst (built hash2 vTxid vMatch k pos)) \<and>
    length (snd (built hash2 vTxid vMatch k pos)) \<le> min ((pos + 1) * 2 ^ k) (length vTxid) - pos * 2 ^ k"
proof (induction k arbitrary: pos)
  case 0
  then show ?case by (simp add: CalcTreeWidth_def)
next
  case (Suc k)
  have wl: "pos * 2 < CalcTreeWidth (length vTxid) k" using Suc.prems by (simp add: width_gt)
  have ge: "1 \<le> min ((pos + 1) * 2 ^ Suc k) (length vTxid) - pos * 2 ^ Suc k"
    using Suc.prems [unfolded width_gt] by (simp add: min_def Suc_le_eq)
  show ?case
  proof (cases "matches_below vMatch (Suc k) pos = []")
    case True
    with ge show ?thesis by (simp add: built_Suc del: TraverseAndBuild.simps)
  next
    case False
    note l = Suc.IH [OF wl] and r = Suc.IH [of "pos * 2 + 1"]
    have eq: "pos * 2 ^ Suc k = pos * 2 * 2 ^ k" "(pos + 1) * 2 ^ Suc k = (pos * 2 + 1 + 1) * 2 ^ k" by simp_all
    show ?thesis
    proof (cases "pos * 2 + 1 < CalcTreeWidth (length vTxid) k")
      case True
      then have "(pos * 2 + 1) * 2 ^ k < length vTxid" by (simp only: width_gt)
      from span_add [OF conjunct2 [OF l] conjunct2 [OF r [OF True]] _ _ this] l r [OF True] show ?thesis
        unfolding built_Suc Let_def eq using False True by (simp del: TraverseAndBuild.simps)
    next
      case w: False
      then have "\<not> (pos * 2 + 1) * 2 ^ k < length vTxid" unfolding width_gt .
      from span_mono [OF conjunct2 [OF l] this, of "(pos * 2 + 1 + 1) * 2 ^ k"] l show ?thesis
        unfolding built_Suc Let_def eq using False w by (simp del: TraverseAndBuild.simps)
    qed
  qed
qed

lemma tree_height_width: "0 < n \<Longrightarrow> CalcTreeWidth n (tree_height_from n k) = 1"
proof (induction n k rule: tree_height_from.induct)
  case (1 n k)
  then show ?case using CalcTreeWidth_pos [of n k]
    by (cases "CalcTreeWidth n k > 1") (auto simp: tree_height_from.simps [of n k])
qed

lemma matches_below_root:
  assumes "0 < length vMatch"
  shows "matches_below vMatch (tree_height_from (length vMatch) 0) 0 = filter ((!) vMatch) [0..<length vMatch]"
proof -
  have "\<not> 1 < CalcTreeWidth (length vMatch) (tree_height_from (length vMatch) 0)" using tree_height_width [OF assms, of 0] by simp
  then have "length vMatch \<le> 2 ^ tree_height_from (length vMatch) 0" by (simp add: width_gt)
  then show ?thesis by (simp add: matches_below_def min_def)
qed

lemma ExtractMatches_built:
  assumes n: "length vMatch = length vTxid" "vTxid \<noteq> []" "length vTxid \<le> MAX_BLOCK_WEIGHT div MIN_TRANSACTION_WEIGHT"
    and um: "\<not> snd (ComputeMerkleRoot hash2 vTxid)"
  shows "\<exists>t'. ExtractMatches hash2 (mk_CPartialMerkleTree hash2 vTxid vMatch) indices =
     (fst (ComputeMerkleRoot hash2 vTxid), map ((!) vTxid) (filter ((!) vMatch) [0..<length vTxid]),
      indices @ filter ((!) vMatch) [0..<length vTxid], t')"
proof -
  let ?k = "tree_height_from (length vTxid) 0"
  let ?t = "mk_CPartialMerkleTree hash2 vTxid vMatch"
  let ?s = "\<lparr>ex_bad = False, nBitsUsed = 0, nHashUsed = 0, ex_match = [], vnIndex = indices\<rparr>"
  have t: "nTransactions ?t = length vTxid" "vBits ?t = [] @ fst (built hash2 vTxid vMatch ?k 0) @ []"
    "vHash ?t = [] @ snd (built hash2 vTxid vMatch ?k 0) @ []" "fBad ?t = False"
    by (simp_all add: mk_CPartialMerkleTree_def split: prod.splits)
  have w: "0 < CalcTreeWidth (length vTxid) ?k" using n(2) by (simp add: CalcTreeWidth_pos)
  have um': "\<not> (\<exists>k. level_mutated (levels hash2 k vTxid))" using um n(2) by (simp add: ComputeMerkleRoot_levels)
  have mb: "matches_below vMatch ?k 0 = filter ((!) vMatch) [0..<length vTxid]"
    using matches_below_root [of vMatch] n(1,2) by simp
  have ex: "TraverseAndExtract hash2 ?t ?k 0 ?s = (CalcHash hash2 vTxid ?k 0,
      ?s\<lparr>nBitsUsed := length (vBits ?t), nHashUsed := length (vHash ?t),
        ex_match := map ((!) vTxid) (matches_below vMatch ?k 0), vnIndex := indices @ matches_below vMatch ?k 0\<rparr>)"
    using extract_built [OF t(1) n(1) um' w t(2,3), of ?s] t(2,3) by simp
  have sz: "length (vHash ?t) \<le> length (vBits ?t)" "length (vHash ?t) \<le> length vTxid"
    using built_sizes [OF n(1) w, of hash2] t(2,3) by simp_all
  have pos: "length vTxid \<noteq> 0" using n(2) by simp
  show ?thesis unfolding ExtractMatches_def t(1,4) ex mb
    using sz pos n(3) by (simp add: ComputeMerkleRoot_levels [OF n(2)] split del: if_split)
qed

section \<open>The pairs that are hashed\<close>

text \<open>
  The pairs that one level, a whole tree and the check of a partial tree pass to the hash
  function. That the function has no collision among these finitely many pairs is what a node
  relies on; a function into 32 bytes cannot be free of collisions on all pairs.
\<close>

fun level_pairs :: "uint256 list \<Rightarrow> (uint256 \<times> uint256) list" where
  "level_pairs [] = []"
| "level_pairs [a] = [(a, a)]"
| "level_pairs (a # b # hs) = (a, b) # level_pairs hs"

definition tree_pairs :: "(uint256 \<Rightarrow> uint256 \<Rightarrow> uint256) \<Rightarrow> uint256 list \<Rightarrow> (uint256 \<times> uint256) list" where
  "tree_pairs hash2 hs = concat (map (\<lambda>k. level_pairs (levels hash2 k hs)) [0..<tree_height_from (length hs) 0])"

primrec extract_pairs ::
  "(uint256 \<Rightarrow> uint256 \<Rightarrow> uint256) \<Rightarrow> CPartialMerkleTree \<Rightarrow> nat \<Rightarrow> nat \<Rightarrow> extract_state \<Rightarrow> (uint256 \<times> uint256) list" where
  "extract_pairs hash2 t 0 pos s = []"
| "extract_pairs hash2 t (Suc height) pos s =
     (if nBitsUsed s \<ge> length (vBits t) \<or> \<not> vBits t ! nBitsUsed s then []
      else
        let s0 = s\<lparr>nBitsUsed := nBitsUsed s + 1\<rparr>; (left, s1) = TraverseAndExtract hash2 t height (pos * 2) s0
        in extract_pairs hash2 t height (pos * 2) s0 @
           (if pos * 2 + 1 < CalcTreeWidth (nTransactions t) height
            then extract_pairs hash2 t height (pos * 2 + 1) s1 @
                 [(left, fst (TraverseAndExtract hash2 t height (pos * 2 + 1) s1))]
            else [(left, left)]))"

definition proof_pairs :: "(uint256 \<Rightarrow> uint256 \<Rightarrow> uint256) \<Rightarrow> CPartialMerkleTree \<Rightarrow> (uint256 \<times> uint256) list" where
  "proof_pairs hash2 t = extract_pairs hash2 t (tree_height_from (nTransactions t) 0) 0
     \<lparr>ex_bad = fBad t, nBitsUsed = 0, nHashUsed = 0, ex_match = [], vnIndex = []\<rparr>"

lemma merkle_level_pairs: "merkle_level hash2 hs = map (\<lambda>(a, b). hash2 a b) (level_pairs hs)"
  by (induction hs rule: level_pairs.induct) auto

lemma tree_pairs_level: "k < tree_height_from (length hs) 0 \<Longrightarrow> set (level_pairs (levels hash2 k hs)) \<subseteq> set (tree_pairs hash2 hs)"
  by (auto simp: tree_pairs_def)

lemma nth_level_pairs:
  "i < (length hs + 1) div 2 \<Longrightarrow>
   (hs ! (2 * i), if 2 * i + 1 < length hs then hs ! (2 * i + 1) else hs ! (2 * i)) \<in> set (level_pairs hs)"
proof (induction hs arbitrary: i rule: level_pairs.induct)
  case (3 a b hs)
  show ?case
  proof (cases i)
    case (Suc j)
    then show ?thesis using "3.IH" [of j] "3.prems" by (simp split: if_splits)
  qed simp
qed auto

text \<open>The children of an inner node are one of the pairs.\<close>

lemma children_pair:
  assumes "pos < CalcTreeWidth (length hs) (Suc k)" "k < tree_height_from (length hs) 0"
  shows "(CalcHash hash2 hs k (pos * 2),
      if pos * 2 + 1 < CalcTreeWidth (length hs) k then CalcHash hash2 hs k (pos * 2 + 1) else CalcHash hash2 hs k (pos * 2))
    \<in> set (tree_pairs hash2 hs)"
proof -
  let ?l = "levels hash2 k hs"
  have "pos < (length ?l + 1) div 2" using assms(1) length_levels [of hash2 "Suc k" hs] by (simp only: levels_Suc length_merkle_level)
  moreover have "pos * 2 < CalcTreeWidth (length hs) k" using assms(1) by (simp add: width_gt)
  ultimately show ?thesis
    using nth_level_pairs [of pos ?l] tree_pairs_level [OF assms(2), of hash2]
    by (auto simp: CalcHash_levels length_levels mult.commute split: if_splits)
qed

lemma no_collision:
  "hash2 a b = hash2 c d \<Longrightarrow> inj_on (\<lambda>(a, b). hash2 a b) S \<Longrightarrow> (a, b) \<in> S \<Longrightarrow> (c, d) \<in> S \<Longrightarrow> a = c \<and> b = d"
  by (drule inj_onD [of _ S "(a, b)" "(c, d)"]) auto

section \<open>Soundness of proofs\<close>

text \<open>The matches that a subtree adds are ids of the block, at increasing positions below the node.\<close>

definition right_matches :: "uint256 list \<Rightarrow> nat \<Rightarrow> nat \<Rightarrow> extract_state \<Rightarrow> extract_state \<Rightarrow> bool" where
  "right_matches vTxid lo hi s s' \<longleftrightarrow>
     (\<exists>ks. sorted_wrt (<) ks \<and> list_all (\<lambda>i. lo \<le> i \<and> i < hi \<and> i < length vTxid) ks \<and>
        ex_match s' = ex_match s @ map ((!) vTxid) ks \<and> vnIndex s' = vnIndex s @ ks)"

lemma right_matches_refl: "ex_match s' = ex_match s \<Longrightarrow> vnIndex s' = vnIndex s \<Longrightarrow> right_matches vTxid lo hi s s'"
  unfolding right_matches_def by (rule exI [of _ "[]"]) simp

lemma right_matches_trans:
  assumes "right_matches vTxid lo mid s s'" "right_matches vTxid mid hi s' s''" "lo \<le> mid" "mid \<le> hi"
  shows "right_matches vTxid lo hi s s''"
proof -
  obtain ks where "sorted_wrt (<) ks" "list_all (\<lambda>i. lo \<le> i \<and> i < mid \<and> i < length vTxid) ks"
    "ex_match s' = ex_match s @ map ((!) vTxid) ks" "vnIndex s' = vnIndex s @ ks"
    using assms(1) right_matches_def by blast
  moreover obtain js where "sorted_wrt (<) js" "list_all (\<lambda>i. mid \<le> i \<and> i < hi \<and> i < length vTxid) js"
    "ex_match s'' = ex_match s' @ map ((!) vTxid) js" "vnIndex s'' = vnIndex s' @ js"
    using assms(2) right_matches_def by blast
  ultimately show ?thesis unfolding right_matches_def using assms(3,4)
    by (intro exI [of _ "ks @ js"]) (fastforce simp: sorted_wrt_append list_all_iff)
qed

lemma right_matches_mono: "right_matches vTxid lo mid s s' \<Longrightarrow> mid \<le> hi \<Longrightarrow> right_matches vTxid lo hi s s'"
  unfolding right_matches_def by (auto simp: list_all_iff) fastforce

lemma right_matches_bits [simp]: "right_matches vTxid lo hi (s\<lparr>nBitsUsed := x\<rparr>) s' \<longleftrightarrow> right_matches vTxid lo hi s s'"
  by (simp add: right_matches_def)

lemma extract_leaf_bad: "extract_leaf t k pos f s = (h, s') \<Longrightarrow> \<not> ex_bad s' \<Longrightarrow> \<not> ex_bad s"
  by (auto simp: extract_leaf_def Let_def split: if_splits)

lemma extract_bad: "TraverseAndExtract hash2 t k pos s = (h, s') \<Longrightarrow> \<not> ex_bad s' \<Longrightarrow> \<not> ex_bad s"
proof (induction k arbitrary: pos s h s')
  case 0
  then show ?case using extract_leaf_bad by (fastforce split: if_splits)
next
  case (Suc k)
  obtain l s1 where l: "TraverseAndExtract hash2 t k (pos * 2) (s\<lparr>nBitsUsed := nBitsUsed s + 1\<rparr>) = (l, s1)" by (metis surj_pair)
  obtain r s2 where r: "TraverseAndExtract hash2 t k (pos * 2 + 1) s1 = (r, s2)" by (metis surj_pair)
  from Suc.IH [OF l] Suc.IH [OF r] Suc.prems l r show ?case
    using extract_leaf_bad [of t "Suc k" pos False "s\<lparr>nBitsUsed := nBitsUsed s + 1\<rparr>" h s']
    by (auto split: if_splits)
qed

text \<open>
  A node of the partial tree with the hash of the node of the block at the same place has the same
  children, even if the two trees claim different numbers of leaves: an equal pair would be bad on
  one side and mutated on the other.
\<close>

lemma extract_sound:
  assumes um: "\<not> (\<exists>k. level_mutated (levels hash2 k vTxid))"
    and inj: "inj_on (\<lambda>(a, b). hash2 a b) S" and tree: "set (tree_pairs hash2 vTxid) \<subseteq> S"
  shows "TraverseAndExtract hash2 t k pos s = (CalcHash hash2 vTxid k pos, s') \<Longrightarrow> \<not> ex_bad s' \<Longrightarrow>
    set (extract_pairs hash2 t k pos s) \<subseteq> S \<Longrightarrow> k \<le> tree_height_from (length vTxid) 0 \<Longrightarrow>
    pos < CalcTreeWidth (length vTxid) k \<Longrightarrow> right_matches vTxid (pos * 2 ^ k) ((pos + 1) * 2 ^ k) s s'"
proof (induction k arbitrary: pos s s')
  case 0
  have pos: "pos < length vTxid" using 0 by (simp add: CalcTreeWidth_def)
  show ?case
  proof (cases "vBits t ! nBitsUsed s")
    case True
    with 0 pos show ?thesis unfolding right_matches_def
      by (intro exI [of _ "[pos]"]) (auto simp: extract_leaf_def Let_def split: if_splits)
  next
    case False
    with 0 show ?thesis by (intro right_matches_refl) (auto simp: extract_leaf_def Let_def split: if_splits)
  qed
next
  case (Suc k)
  show ?case
  proof (cases "vBits t ! nBitsUsed s")
    case False
    with Suc.prems(1,2) show ?thesis by (intro right_matches_refl) (auto simp: extract_leaf_def Let_def split: if_splits)
  next
    case True
    let ?s = "s\<lparr>nBitsUsed := nBitsUsed s + 1\<rparr>" and ?c = "CalcHash hash2 vTxid k (pos * 2)"
    let ?w = "pos * 2 + 1 < CalcTreeWidth (length vTxid) k" and ?w' = "pos * 2 + 1 < CalcTreeWidth (nTransactions t) k"
    obtain l s1 where l: "TraverseAndExtract hash2 t k (pos * 2) ?s = (l, s1)" by (metis surj_pair)
    obtain r s2 where r: "TraverseAndExtract hash2 t k (pos * 2 + 1) s1 = (r, s2)" by (metis surj_pair)
    have used: "nBitsUsed s < length (vBits t)" using Suc.prems(1,2) by (auto split: if_splits)
    have wl: "pos * 2 < CalcTreeWidth (length vTxid) k" using Suc.prems(5) by (simp add: width_gt)
    have k: "k < tree_height_from (length vTxid) 0" "k \<le> tree_height_from (length vTxid) 0" using Suc.prems(4) by simp_all
    define d where "d = (if ?w then CalcHash hash2 vTxid k (pos * 2 + 1) else ?c)"
    define r' where "r' = (if ?w' then r else l)"
    have cd: "(?c, d) \<in> S" using children_pair [OF Suc.prems(5) k(1), of hash2] tree d_def by auto
    have pairs: "set (extract_pairs hash2 t k (pos * 2) ?s) \<subseteq> S" "?w' \<Longrightarrow> set (extract_pairs hash2 t k (pos * 2 + 1) s1) \<subseteq> S"
      "(l, r') \<in> S"
      using Suc.prems(3) True used l r r'_def by (auto simp: Let_def split: if_splits)
    have e: "hash2 l r' = hash2 ?c d" "s' = (if ?w' then if r = l then s2\<lparr>ex_bad := True\<rparr> else s2 else s1)"
      using Suc.prems(1) True used l r by (auto simp: Let_def r'_def d_def)
    from no_collision [OF e(1) inj pairs(3) cd] have lr: "l = ?c" "r' = d" by auto
    have ww: "?w' = ?w"
      using lr e(2) Suc.prems(2) unmutated_children [OF um, of pos k] by (auto simp: d_def r'_def mult.commute split: if_splits)
    have arith: "(pos * 2 + 1) * 2 ^ k \<le> (pos + 1) * 2 ^ Suc k" "pos * 2 * 2 ^ k = pos * 2 ^ Suc k"
      "(pos * 2 + 1 + 1) * 2 ^ k = (pos + 1) * 2 ^ Suc k" "pos * 2 ^ Suc k \<le> (pos * 2 + 1) * 2 ^ k" by simp_all
    have left: "right_matches vTxid (pos * 2 * 2 ^ k) ((pos * 2 + 1) * 2 ^ k) s s1" if "\<not> ex_bad s1"
      using Suc.IH [OF l [unfolded lr(1)] that pairs(1) k(2) wl] by simp
    show ?thesis
    proof (cases ?w)
      case w: True
      have s': "s' = s2" "\<not> ex_bad s2" using e(2) Suc.prems(2) w ww by (auto split: if_splits)
      have b1: "\<not> ex_bad s1" using extract_bad [OF r s'(2)] .
      have "r = CalcHash hash2 vTxid k (pos * 2 + 1)" using lr(2) w ww by (simp add: r'_def d_def)
      from Suc.IH [OF r [unfolded this] s'(2) pairs(2) k(2) w] w ww
      have "right_matches vTxid ((pos * 2 + 1) * 2 ^ k) ((pos * 2 + 1 + 1) * 2 ^ k) s1 s2" by simp
      from right_matches_trans [OF left [OF b1] this] arith show ?thesis unfolding s'(1) by simp
    next
      case w: False
      then have "s' = s1" using e(2) ww by simp
      with right_matches_mono [OF left arith(1)] Suc.prems(2) show ?thesis unfolding arith(2) by simp
    qed
  qed
qed

section \<open>Binding\<close>

lemma level_pairs_inj: "level_pairs xs = level_pairs ys \<Longrightarrow> \<not> level_mutated xs \<Longrightarrow> \<not> level_mutated ys \<Longrightarrow> xs = ys"
proof (induction xs arbitrary: ys rule: level_pairs.induct)
  case 1
  then show ?case by (cases ys rule: level_pairs.cases) auto
next
  case (2 a)
  then show ?case by (cases ys rule: level_pairs.cases) auto
next
  case (3 a b hs)
  then show ?case by (cases ys rule: level_pairs.cases) auto
qed

lemma merkle_level_inj:
  assumes inj: "inj_on (\<lambda>(a, b). hash2 a b) S" and S: "set (level_pairs xs) \<subseteq> S" "set (level_pairs ys) \<subseteq> S"
    and "merkle_level hash2 xs = merkle_level hash2 ys" "\<not> level_mutated xs" "\<not> level_mutated ys"
  shows "xs = ys"
proof -
  have "inj_on (\<lambda>(a, b). hash2 a b) (set (level_pairs xs) \<union> set (level_pairs ys))" using inj S by (meson Un_least inj_on_subset)
  then have "level_pairs xs = level_pairs ys" using assms(4) unfolding merkle_level_pairs by (rule map_inj_on [rotated])
  with assms(5,6) show ?thesis by (intro level_pairs_inj)
qed

lemma levels_inj:
  assumes inj: "inj_on (\<lambda>(a, b). hash2 a b) S" "set (tree_pairs hash2 xs) \<subseteq> S" "set (tree_pairs hash2 ys) \<subseteq> S"
    and um: "\<not> (\<exists>k. level_mutated (levels hash2 k xs))" "\<not> (\<exists>k. level_mutated (levels hash2 k ys))"
  shows "k \<le> tree_height_from (length xs) 0 \<Longrightarrow> k \<le> tree_height_from (length ys) 0 \<Longrightarrow>
    levels hash2 k xs = levels hash2 k ys \<Longrightarrow> xs = ys"
proof (induction k)
  case (Suc k)
  have "set (level_pairs (levels hash2 k xs)) \<subseteq> S" "set (level_pairs (levels hash2 k ys)) \<subseteq> S"
    using tree_pairs_level [of k xs hash2] tree_pairs_level [of k ys hash2] inj(2,3) Suc.prems(1,2) by auto
  from merkle_level_inj [OF inj(1) this] Suc.prems(3) um have "levels hash2 k xs = levels hash2 k ys" by (simp add: levels_Suc)
  with Suc show ?case by simp
qed simp

lemma levels_ne: "hs \<noteq> [] \<Longrightarrow> levels hash2 k hs \<noteq> []"
  using length_levels [of hash2 k hs] CalcTreeWidth_pos [of "length hs" k] by auto

text \<open>The first hash of a level is the hash of a pair, whose first component is the first of the level below.\<close>

lemma levels_hd_pair:
  assumes "hs \<noteq> []" "k < tree_height_from (length hs) 0"
  obtains b where "levels hash2 (Suc k) hs ! 0 = hash2 (levels hash2 k hs ! 0) b" "(levels hash2 k hs ! 0, b) \<in> set (tree_pairs hash2 hs)"
proof -
  let ?l = "levels hash2 k hs"
  have ne: "?l \<noteq> []" by (rule levels_ne [OF assms(1)])
  then obtain b where b: "merkle_level hash2 ?l ! 0 = hash2 (?l ! 0) b" "(?l ! 0, b) \<in> set (level_pairs ?l)"
    by (cases ?l rule: level_pairs.cases) auto
  with that tree_pairs_level [OF assms(2), of hash2] show ?thesis unfolding levels_Suc by blast
qed

lemma levels_hd:
  assumes inj: "inj_on (\<lambda>(a, b). hash2 a b) S" "set (tree_pairs hash2 xs) \<subseteq> S" "set (tree_pairs hash2 ys) \<subseteq> S"
    and ne: "xs \<noteq> []" "ys \<noteq> []"
  shows "k \<le> tree_height_from (length xs) 0 \<Longrightarrow> k + j \<le> tree_height_from (length ys) 0 \<Longrightarrow>
    levels hash2 k xs ! 0 = levels hash2 (k + j) ys ! 0 \<Longrightarrow> xs ! 0 = levels hash2 j ys ! 0"
proof (induction k)
  case (Suc k)
  obtain b where b: "levels hash2 (Suc k) xs ! 0 = hash2 (levels hash2 k xs ! 0) b" "(levels hash2 k xs ! 0, b) \<in> set (tree_pairs hash2 xs)"
    using levels_hd_pair [OF ne(1), of k hash2] Suc.prems(1) by auto
  obtain c where c: "levels hash2 (Suc (k + j)) ys ! 0 = hash2 (levels hash2 (k + j) ys ! 0) c"
    "(levels hash2 (k + j) ys ! 0, c) \<in> set (tree_pairs hash2 ys)"
    using levels_hd_pair [OF ne(2), of "k + j" hash2] Suc.prems(2) by auto
  have "levels hash2 k xs ! 0 = levels hash2 (k + j) ys ! 0"
    using no_collision [of hash2 "levels hash2 k xs ! 0" b _ c, OF _ inj(1)] Suc.prems(3) b c inj(2,3) by auto
  with Suc show ?case by simp
qed simp

text \<open>A tree of the same root but greater height has a leaf of the lower tree as an inner node.\<close>

lemma deeper_root:
  assumes inj: "inj_on (\<lambda>(a, b). hash2 a b) S" "set (tree_pairs hash2 xs) \<subseteq> S" "set (tree_pairs hash2 ys) \<subseteq> S"
    and ne: "xs \<noteq> []" "ys \<noteq> []" and d: "d = tree_height_from (length xs) 0" "e = tree_height_from (length ys) 0"
    and "levels hash2 d xs ! 0 = levels hash2 e ys ! 0" "d < e"
  shows "xs ! 0 \<in> (\<lambda>(a, b). hash2 a b) ` S"
proof -
  obtain j where e: "e = d + Suc j" using \<open>d < e\<close> less_imp_Suc_add by fastforce
  have "xs ! 0 = levels hash2 (Suc j) ys ! 0" using levels_hd [OF inj ne, of d "Suc j"] assms(6-8) e by simp
  moreover obtain b where "levels hash2 (Suc j) ys ! 0 = hash2 (levels hash2 j ys ! 0) b" "(levels hash2 j ys ! 0, b) \<in> set (tree_pairs hash2 ys)"
    using levels_hd_pair [OF ne(2), of j hash2] d e by auto
  ultimately show ?thesis using inj(3) by force
qed

lemma root_binding:
  assumes ne: "xs \<noteq> []" "ys \<noteq> []" and root: "fst (ComputeMerkleRoot hash2 xs) = fst (ComputeMerkleRoot hash2 ys)"
    and um: "\<not> snd (ComputeMerkleRoot hash2 xs)" "\<not> snd (ComputeMerkleRoot hash2 ys)"
    and inj: "inj_on (\<lambda>(a, b). hash2 a b) S" "set (tree_pairs hash2 xs) \<subseteq> S" "set (tree_pairs hash2 ys) \<subseteq> S"
    and leaf: "(set xs \<union> set ys) \<inter> (\<lambda>(a, b). hash2 a b) ` S = {}"
  shows "xs = ys"
proof -
  let ?d = "tree_height_from (length xs) 0" and ?e = "tree_height_from (length ys) 0"
  have r: "levels hash2 ?d xs ! 0 = levels hash2 ?e ys ! 0"
    using root ne by (simp add: ComputeMerkleRoot_levels CalcHash_levels CalcTreeWidth_pos)
  have "xs ! 0 \<in> set xs" "ys ! 0 \<in> set ys" using ne by simp_all
  then have "\<not> ?d < ?e" "\<not> ?e < ?d"
    using deeper_root [OF inj ne refl refl r] deeper_root [OF inj(1,3,2) ne(2,1) refl refl r [symmetric]] leaf by blast+
  then have de: "?d = ?e" by simp
  have "length (levels hash2 ?d xs) = 1" "length (levels hash2 ?e ys) = 1"
    using tree_height_width ne by (simp_all add: length_levels)
  then have "levels hash2 ?d xs = levels hash2 ?d ys"
    using r unfolding de by (simp add: length_Suc_conv) (auto simp: length_Suc_conv)
  then show ?thesis using levels_inj [OF inj, of ?d] um ne de by (simp add: ComputeMerkleRoot_levels)
qed

section \<open>Flag bits\<close>

lemma bit_foldr_or: "bit (foldr (OR) ws (0 :: uint8)) n \<longleftrightarrow> (\<exists>w \<in> set ws. bit w n)"
  by (induction ws) (auto simp: bit_or_iff)

lemma BytesToBits_BitsToBytes:
  "BytesToBits (BitsToBytes bits) = bits @ replicate ((length bits + 7) div 8 * 8 - length bits) False"
proof (rule nth_equalityI)
  show "length (BytesToBits (BitsToBytes bits)) = length (bits @ replicate ((length bits + 7) div 8 * 8 - length bits) False)"
    by (simp add: BytesToBits_def BitsToBytes_def)
next
  fix p assume "p < length (BytesToBits (BitsToBytes bits))"
  then have p: "p < (length bits + 7) div 8 * 8" by (simp add: BytesToBits_def BitsToBytes_def)
  then have k: "p div 8 < (length bits + 7) div 8" by (simp add: less_mult_imp_div_less)
  let ?w = "foldr (OR) (map (\<lambda>j. if bits ! (p div 8 * 8 + j) then push_bit j 1 else 0) [0..<min 8 (length bits - p div 8 * 8)]) (0 :: uint8)"
  have "BytesToBits (BitsToBytes bits) ! p \<longleftrightarrow> bit ?w (p mod 8)"
    using p k by (simp add: BytesToBits_def BitsToBytes_def push_bit_eq_mult and_exp_eq_0_iff_not_bit)
  also have "\<dots> \<longleftrightarrow> (\<exists>j < min 8 (length bits - p div 8 * 8). bits ! (p div 8 * 8 + j) \<and> bit (push_bit j 1 :: uint8) (p mod 8))"
    unfolding bit_foldr_or by (auto split: if_splits)
  also have "\<dots> \<longleftrightarrow> (\<exists>j < min 8 (length bits - p div 8 * 8). bits ! (p div 8 * 8 + j) \<and> j = p mod 8)"
    by (rule ex_cong1) (auto simp: bit_exp_iff push_bit_eq_mult)
  also have "\<dots> \<longleftrightarrow> p mod 8 < length bits - p div 8 * 8 \<and> bits ! (p div 8 * 8 + p mod 8)"
    by auto
  also have "\<dots> \<longleftrightarrow> (bits @ replicate ((length bits + 7) div 8 * 8 - length bits) False) ! p"
    using p by (auto simp: nth_append less_diff_conv)
  finally show "BytesToBits (BitsToBytes bits) ! p = (bits @ replicate ((length bits + 7) div 8 * 8 - length bits) False) ! p" by simp
qed

section \<open>Properties\<close>

text \<open>
  C21: Merkle roots bind the transactions of a block (CVE-2012-2459). Take two non-empty lists of
  hashes, neither with the mutation flag. If the hash function does not map two different pairs
  among those hashed for the two trees to the same value, and no leaf is the hash of one of these
  pairs, then the roots are equal exactly if the lists are.
\<close>

theorem merkle_root_binding:
  assumes "xs \<noteq> []" "ys \<noteq> []" "\<not> snd (ComputeMerkleRoot hash2 xs)" "\<not> snd (ComputeMerkleRoot hash2 ys)"
    and "inj_on (\<lambda>(a, b). hash2 a b) (set (tree_pairs hash2 xs) \<union> set (tree_pairs hash2 ys))"
    and "(set xs \<union> set ys) \<inter> (\<lambda>(a, b). hash2 a b) ` (set (tree_pairs hash2 xs) \<union> set (tree_pairs hash2 ys)) = {}"
  shows "fst (ComputeMerkleRoot hash2 xs) = fst (ComputeMerkleRoot hash2 ys) \<longleftrightarrow> xs = ys"
  using root_binding [OF assms(1,2) _ assms(3-5) _ _ assms(6)] by auto

definition example_hash2 :: "uint256 \<Rightarrow> uint256 \<Rightarrow> uint256" where
  "example_hash2 a b = [of_nat (length a), of_nat (length b)] @ a @ b"

lemma example_root: "ComputeMerkleRoot example_hash2 [[1], [2], [3]] = ([4, 4, 1, 1, 1, 2, 1, 1, 3, 3], False)"
  by (simp add: ComputeMerkleRoot_def merkle_loop.simps example_hash2_def)

lemma example_root_nonzero: "[4, 4, 1, 1, 1, 2, 1, 1, 3, 3] \<noteq> uint256_zero"
  by (auto dest: arg_cong [of _ _ length] simp: uint256_zero_def)

lemma example_height: "tree_height_from (Suc (Suc (Suc 0))) 0 = Suc (Suc 0)" "tree_height_from (Suc (Suc (Suc (Suc 0)))) 0 = Suc (Suc 0)"
  by (simp_all add: tree_height_step tree_height_small)

lemma example_tree_pairs:
  "tree_pairs example_hash2 [[1], [2], [3]] = [([1], [2]), ([3], [3]), ([1, 1, 1, 2], [1, 1, 3, 3])]"
  "tree_pairs example_hash2 [[1], [3], [2], [4]] = [([1], [3]), ([2], [4]), ([1, 1, 1, 3], [1, 1, 2, 4])]"
  by (simp_all add: tree_pairs_def example_height levels_Suc example_hash2_def)

theorem merkle_root_binding_witness:
  "\<not> snd (ComputeMerkleRoot example_hash2 [[1], [2], [3]]) \<and> \<not> snd (ComputeMerkleRoot example_hash2 [[1], [3], [2], [4]]) \<and>
   fst (ComputeMerkleRoot example_hash2 [[1], [2], [3]]) \<noteq> fst (ComputeMerkleRoot example_hash2 [[1], [3], [2], [4]])"
proof -
  have um: "\<not> snd (ComputeMerkleRoot example_hash2 [[1], [2], [3]])" "\<not> snd (ComputeMerkleRoot example_hash2 [[1], [3], [2], [4]])"
    by (simp_all add: ComputeMerkleRoot_def merkle_loop.simps example_hash2_def)
  with merkle_root_binding [of "[[1], [2], [3]]" "[[1], [3], [2], [4]]" example_hash2] show ?thesis
    by (simp add: example_tree_pairs example_hash2_def)
qed

text \<open>
  C37: Partial Merkle trees are complete. For an unmutated list of transaction ids within the
  bound of a block, extracting from the tree built for a selection gives the Merkle root, and as
  matches exactly the selected ids with their positions, in order.
\<close>

theorem partial_tree_round_trip:
  assumes "length vMatch = length vTxid" "vTxid \<noteq> []" "length vTxid \<le> MAX_BLOCK_WEIGHT div MIN_TRANSACTION_WEIGHT"
    "\<not> snd (ComputeMerkleRoot hash2 vTxid)"
  shows "\<exists>t'. ExtractMatches hash2 (mk_CPartialMerkleTree hash2 vTxid vMatch) [] =
     (fst (ComputeMerkleRoot hash2 vTxid), map ((!) vTxid) (filter ((!) vMatch) [0..<length vTxid]),
      filter ((!) vMatch) [0..<length vTxid], t')"
  using ExtractMatches_built [OF assms, of "[]"] by simp

theorem partial_tree_round_trip_witness:
  "\<exists>t'. ExtractMatches example_hash2 (mk_CPartialMerkleTree example_hash2 [[1], [2], [3]] [False, True, False]) [] =
     ([4, 4, 1, 1, 1, 2, 1, 1, 3, 3], [[2]], [1], t')"
proof -
  have e: "filter ((!) [False, True, False]) [0..<3] = [1]" by (simp add: upt_rec)
  show ?thesis
    using partial_tree_round_trip [of "[False, True, False]" "[[1], [2], [3]]" example_hash2] e
    by (simp add: example_root MAX_BLOCK_WEIGHT_def MIN_TRANSACTION_WEIGHT_def WITNESS_SCALE_FACTOR_def)
qed

text \<open>
  C22: Partial Merkle trees are sound. Whatever data a peer sends, if extraction succeeds with the
  Merkle root of an unmutated block and the number of transactions that is claimed gives a tree
  of the same height, then every extracted match is the transaction id of the block at the
  extracted position, and the positions increase; provided that the hash function does not map two
  different pairs, among those hashed for the block and for the proof, to the same value.
\<close>

theorem partial_tree_sound:
  assumes "ExtractMatches hash2 t [] = (root, matches, indices, t')" "root \<noteq> uint256_zero"
    and "vTxid \<noteq> []" "ComputeMerkleRoot hash2 vTxid = (root, False)"
    and "tree_height_from (nTransactions t) 0 = tree_height_from (length vTxid) 0"
    and "inj_on (\<lambda>(a, b). hash2 a b) (set (tree_pairs hash2 vTxid) \<union> set (proof_pairs hash2 t))"
  shows "sorted_wrt (<) indices \<and> list_all (\<lambda>i. i < length vTxid) indices \<and> matches = map ((!) vTxid) indices"
proof -
  let ?k = "tree_height_from (length vTxid) 0"
  let ?s = "\<lparr>ex_bad = fBad t, nBitsUsed = 0, nHashUsed = 0, ex_match = [], vnIndex = []\<rparr>"
  obtain r s where e: "TraverseAndExtract hash2 t ?k 0 ?s = (r, s)" by (metis surj_pair)
  have x: "r = root" "\<not> ex_bad s" "matches = ex_match s" "indices = vnIndex s"
    using assms(1,2,5) e by (auto simp: ExtractMatches_def split: if_splits)
  have r: "r = CalcHash hash2 vTxid ?k 0" and um: "\<not> (\<exists>k. level_mutated (levels hash2 k vTxid))"
    using x(1) assms(4) by (simp_all add: ComputeMerkleRoot_levels [OF assms(3)])
  have "right_matches vTxid (0 * 2 ^ ?k) ((0 + 1) * 2 ^ ?k) ?s s"
    by (rule extract_sound [OF um assms(6) _ e [unfolded r] x(2)])
      (use assms(3,5) in \<open>simp_all add: proof_pairs_def CalcTreeWidth_pos\<close>)
  then show ?thesis unfolding x(3,4) right_matches_def by (auto simp: list_all_iff)
qed

text \<open>A proof for the second of three transactions whose sender claims that there are four.\<close>

definition example_proof :: CPartialMerkleTree where
  "example_proof = \<lparr>nTransactions = 4, vBits = [True, True, False, True, False], vHash = [[1], [2], [1, 1, 3, 3]], fBad = False\<rparr>"

lemma example_traverse:
  "TraverseAndExtract example_hash2 example_proof (Suc (Suc 0)) 0
     \<lparr>ex_bad = False, nBitsUsed = 0, nHashUsed = 0, ex_match = [], vnIndex = []\<rparr> =
   ([4, 4, 1, 1, 1, 2, 1, 1, 3, 3], \<lparr>ex_bad = False, nBitsUsed = 5, nHashUsed = 3, ex_match = [[2]], vnIndex = [1]\<rparr>)"
  "extract_pairs example_hash2 example_proof (Suc (Suc 0)) 0
     \<lparr>ex_bad = False, nBitsUsed = 0, nHashUsed = 0, ex_match = [], vnIndex = []\<rparr> = [([1], [2]), ([1, 1, 1, 2], [1, 1, 3, 3])]"
  by code_simp+

lemma example_proof_fields:
  "nTransactions example_proof = Suc (Suc (Suc (Suc 0)))" "length (vBits example_proof) = 5" "length (vHash example_proof) = 3"
  "fBad example_proof = False"
  by (simp_all add: example_proof_def)

lemma example_extract:
  "ExtractMatches example_hash2 example_proof [] = ([4, 4, 1, 1, 1, 2, 1, 1, 3, 3], [[2]], [1], example_proof\<lparr>fBad := False\<rparr>)"
  by (simp add: ExtractMatches_def example_proof_fields example_height example_traverse
      MAX_BLOCK_WEIGHT_def MIN_TRANSACTION_WEIGHT_def WITNESS_SCALE_FACTOR_def del: TraverseAndExtract.simps)

lemma example_pairs:
  "set (tree_pairs example_hash2 [[1], [2], [3]]) \<union> set (proof_pairs example_hash2 example_proof) =
   {([1], [2]), ([3], [3]), ([1, 1, 1, 2], [1, 1, 3, 3])}"
  unfolding proof_pairs_def example_proof_fields example_height example_traverse example_tree_pairs by auto

lemma example_inj: "inj_on (\<lambda>(a, b). example_hash2 a b) {([1], [2]), ([3], [3]), ([1, 1, 1, 2], [1, 1, 3, 3])}"
  by (simp add: example_hash2_def)

theorem partial_tree_sound_witness:
  "ExtractMatches example_hash2 example_proof [] =
     (fst (ComputeMerkleRoot example_hash2 [[1], [2], [3]]), [[2]], [1], example_proof\<lparr>fBad := False\<rparr>) \<and>
   list_all (\<lambda>i. i < length [[1], [2], [3 :: 8 word]]) [1] \<and> [[2]] = map ((!) [[1], [2], [3 :: 8 word]]) [1]"
proof -
  have len: "tree_height_from (nTransactions example_proof) 0 = tree_height_from (length [[1], [2], [3 :: 8 word]]) 0"
    by (simp add: example_proof_fields example_height)
  show ?thesis
    using partial_tree_sound [OF example_extract example_root_nonzero _ example_root len example_inj [folded example_pairs]]
    unfolding example_root fst_conv example_extract by blast
qed

end
