(* ===== verification/Versionbits.thy ===== *)
theory Versionbits
  imports Active_Chain Consensus_Params
begin

text \<open>
  Soft-fork deployment by version bits (BIP 9): \<open>src/versionbits.h\<close>, \<open>src/versionbits.cpp\<close> and
  \<open>src/deploymentstatus.h\<close>. The state of a deployment is computed per period of blocks and
  memoised; the lemmas show that the memoised computation, which also stops early at blocks before
  the start time, is the step-by-step state machine run over the periods of the chain.
\<close>

section \<open>The threshold state machine\<close>

definition VERSIONBITS_TOP_BITS :: int where "VERSIONBITS_TOP_BITS = 0x20000000"
definition VERSIONBITS_TOP_MASK :: int where "VERSIONBITS_TOP_MASK = 0xE0000000 - 2 ^ 32"

datatype ThresholdState = DEFINED | STARTED | LOCKED_IN | ACTIVE | FAILED

type_synonym ThresholdConditionCache = "block_ptr option \<rightharpoonup> ThresholdState"

record BIP9Stats =
  st_period :: int
  st_threshold :: int
  st_elapsed :: int
  st_count :: int
  st_possible :: bool

text \<open>The virtual members of the abstract checker, for given parameters.\<close>

record AbstractThresholdConditionChecker =
  Condition :: "CBlockIndex \<Rightarrow> bool"
  BeginTime :: int
  EndTime :: int
  MinActivationHeight :: int
  Period :: int
  Threshold :: int

text \<open>
  The walk back in steps of a period. The argument pairs are the period and start time, and the
  cache with the vector \<open>vToCompute\<close>, whose back is the head of the list.
\<close>

partial_function (option) walk_back ::
  "block_map \<Rightarrow> int \<times> int \<Rightarrow> ThresholdConditionCache \<times> block_ptr list \<Rightarrow> block_ptr option \<Rightarrow>
   (ThresholdConditionCache \<times> block_ptr list \<times> block_ptr option) option" where
  "walk_back H per st pindexPrev =
     (if fst st pindexPrev \<noteq> None then Some (fst st, snd st, pindexPrev)
      else case pindexPrev of
             None \<Rightarrow> Some ((fst st)(None \<mapsto> DEFINED), snd st, None)
           | Some p \<Rightarrow> do {
               mtp \<leftarrow> GetMedianTimePast H p;
               if mtp < snd per then Some ((fst st)(Some p \<mapsto> DEFINED), snd st, Some p)
               else do {
                 b \<leftarrow> H p;
                 q \<leftarrow> GetAncestor H p (nHeight b - fst per);
                 walk_back H per (fst st, p # snd st) q
               }
             })"

primrec count_signals :: "block_map \<Rightarrow> (CBlockIndex \<Rightarrow> bool) \<Rightarrow> nat \<Rightarrow> block_ptr option \<Rightarrow> int option" where
  "count_signals H cond 0 pindexCount = Some 0"
| "count_signals H cond (Suc n) pindexCount = do {
     p \<leftarrow> pindexCount;
     b \<leftarrow> H p;
     count \<leftarrow> count_signals H cond n (pprev b);
     Some (if cond b then count + 1 else count)
   }"

definition state_next ::
  "block_map \<Rightarrow> AbstractThresholdConditionChecker \<Rightarrow> block_ptr \<Rightarrow> ThresholdState \<Rightarrow> ThresholdState option" where
  "state_next H c p state =
     (case state of
        DEFINED \<Rightarrow> do {
          mtp \<leftarrow> GetMedianTimePast H p;
          Some (if mtp \<ge> BeginTime c then STARTED else DEFINED)
        }
      | STARTED \<Rightarrow> do {
          count \<leftarrow> count_signals H (Condition c) (nat (Period c)) (Some p);
          if count \<ge> Threshold c then Some LOCKED_IN
          else do {
            mtp \<leftarrow> GetMedianTimePast H p;
            Some (if mtp \<ge> EndTime c then FAILED else STARTED)
          }
        }
      | LOCKED_IN \<Rightarrow> do {
          b \<leftarrow> H p;
          Some (if nHeight b + 1 \<ge> MinActivationHeight c then ACTIVE else LOCKED_IN)
        }
      | ACTIVE \<Rightarrow> Some ACTIVE
      | FAILED \<Rightarrow> Some FAILED)"

primrec walk_forward ::
  "block_map \<Rightarrow> AbstractThresholdConditionChecker \<Rightarrow> block_ptr list \<Rightarrow> ThresholdState \<Rightarrow> ThresholdConditionCache \<Rightarrow>
   (ThresholdState \<times> ThresholdConditionCache) option" where
  "walk_forward H c [] state cache = Some (state, cache)"
| "walk_forward H c (p # ps) state cache = do {
     stateNext \<leftarrow> state_next H c p state;
     walk_forward H c ps stateNext (cache(Some p \<mapsto> stateNext))
   }"

text \<open>A remainder by zero and a cache miss after the walk are \<open>None\<close>.\<close>

definition GetStateFor ::
  "block_map \<Rightarrow> AbstractThresholdConditionChecker \<Rightarrow> block_ptr option \<Rightarrow> ThresholdConditionCache \<Rightarrow>
   (ThresholdState \<times> ThresholdConditionCache) option" where
  "GetStateFor H c pindexPrev cache =
     (if BeginTime c = ALWAYS_ACTIVE then Some (ACTIVE, cache)
      else if BeginTime c = NEVER_ACTIVE then Some (FAILED, cache)
      else do {
        start \<leftarrow>
          (case pindexPrev of
             None \<Rightarrow> Some None
           | Some p \<Rightarrow> do {
               b \<leftarrow> H p;
               if Period c = 0 then None else GetAncestor H p (nHeight b - (nHeight b + 1) smod Period c)
             });
        (cache1, vToCompute, known) \<leftarrow> walk_back H (Period c, BeginTime c) (cache, []) start;
        state \<leftarrow> cache1 known;
        walk_forward H c vToCompute state cache1
      })"

primrec stats_loop :: "block_map \<Rightarrow> (CBlockIndex \<Rightarrow> bool) \<Rightarrow> nat \<Rightarrow> block_ptr option \<Rightarrow> (int \<times> bool list) option" where
  "stats_loop H cond 0 currentIndex = Some (0, [])"
| "stats_loop H cond (Suc n) currentIndex = do {
     p \<leftarrow> currentIndex;
     b \<leftarrow> H p;
     (count, signalling) \<leftarrow> stats_loop H cond n (pprev b);
     Some (if cond b then count + 1 else count, signalling @ [cond b])
   }"

text \<open>The statistics and the vector of signalling blocks; \<open>None\<close> for the vector is an untouched one.\<close>

definition GetStateStatisticsFor ::
  "block_map \<Rightarrow> AbstractThresholdConditionChecker \<Rightarrow> block_ptr option \<Rightarrow> (BIP9Stats \<times> bool list option) option" where
  "GetStateStatisticsFor H c pindex =
     (case pindex of
        None \<Rightarrow> Some (\<lparr>st_period = Period c, st_threshold = Threshold c, st_elapsed = 0, st_count = 0, st_possible = False\<rparr>, None)
      | Some p \<Rightarrow> do {
          b \<leftarrow> H p;
          if Period c = 0 then None
          else do {
            let blocks_in_period = 1 + nHeight b smod Period c;
            (count, signalling) \<leftarrow> stats_loop H (Condition c) (nat (max 1 blocks_in_period)) (Some p);
            Some (\<lparr>st_period = Period c, st_threshold = Threshold c, st_elapsed = max 1 blocks_in_period, st_count = count,
                   st_possible = (Period c - Threshold c \<ge> max 1 blocks_in_period - count)\<rparr>, Some signalling)
          }
        })"

partial_function (option) since_loop ::
  "block_map \<Rightarrow> AbstractThresholdConditionChecker \<times> ThresholdState \<Rightarrow> ThresholdConditionCache \<Rightarrow> block_ptr \<Rightarrow>
   (int \<times> ThresholdConditionCache) option" where
  "since_loop H ci cache p = do {
     b \<leftarrow> H p;
     previousPeriodParent \<leftarrow> GetAncestor H p (nHeight b - Period (fst ci));
     (case previousPeriodParent of
        None \<Rightarrow> Some (nHeight b + 1, cache)
      | Some q \<Rightarrow> do {
          (state, cache') \<leftarrow> GetStateFor H (fst ci) (Some q) cache;
          if state = snd ci then since_loop H ci cache' q
          else Some (nHeight b + 1, cache')
        })
   }"

definition GetStateSinceHeightFor ::
  "block_map \<Rightarrow> AbstractThresholdConditionChecker \<Rightarrow> block_ptr option \<Rightarrow> ThresholdConditionCache \<Rightarrow>
   (int \<times> ThresholdConditionCache) option" where
  "GetStateSinceHeightFor H c pindexPrev cache =
     (if BeginTime c = ALWAYS_ACTIVE \<or> BeginTime c = NEVER_ACTIVE then Some (0, cache)
      else do {
        (initialState, cache1) \<leftarrow> GetStateFor H c pindexPrev cache;
        if initialState = DEFINED then Some (0, cache1)
        else do {
          p \<leftarrow> pindexPrev;
          b \<leftarrow> H p;
          a \<leftarrow> (if Period c = 0 then None else GetAncestor H p (nHeight b - (nHeight b + 1) smod Period c));
          q \<leftarrow> a;
          since_loop H (c, initialState) cache1 q
        }
      })"

section \<open>Version bits\<close>

definition Mask :: "Params \<Rightarrow> DeploymentPos \<Rightarrow> uint32" where
  "Mask params pos = push_bit (dep_bit (vDeployments params pos)) 1"

definition VersionBitsConditionChecker :: "Params \<Rightarrow> DeploymentPos \<Rightarrow> AbstractThresholdConditionChecker" where
  "VersionBitsConditionChecker params pos =
     \<lparr>Condition = (\<lambda>b. nVersion b AND VERSIONBITS_TOP_MASK = VERSIONBITS_TOP_BITS \<and> word_of_int (nVersion b) AND Mask params pos \<noteq> 0),
      BeginTime = nStartTime (vDeployments params pos), EndTime = nTimeout (vDeployments params pos),
      MinActivationHeight = min_activation_height (vDeployments params pos),
      Period = nMinerConfirmationWindow params, Threshold = nRuleChangeActivationThreshold params\<rparr>"

record VersionBitsCache =
  m_caches :: "DeploymentPos \<Rightarrow> ThresholdConditionCache"

definition vb_State ::
  "block_map \<Rightarrow> VersionBitsCache \<Rightarrow> block_ptr option \<Rightarrow> Params \<Rightarrow> DeploymentPos \<Rightarrow> (ThresholdState \<times> VersionBitsCache) option" where
  "vb_State H vb pindexPrev params pos =
     map_option (\<lambda>(state, cache). (state, vb\<lparr>m_caches := (m_caches vb)(pos := cache)\<rparr>))
       (GetStateFor H (VersionBitsConditionChecker params pos) pindexPrev (m_caches vb pos))"

definition StateSinceHeight ::
  "block_map \<Rightarrow> VersionBitsCache \<Rightarrow> block_ptr option \<Rightarrow> Params \<Rightarrow> DeploymentPos \<Rightarrow> (int \<times> VersionBitsCache) option" where
  "StateSinceHeight H vb pindexPrev params pos =
     map_option (\<lambda>(height, cache). (height, vb\<lparr>m_caches := (m_caches vb)(pos := cache)\<rparr>))
       (GetStateSinceHeightFor H (VersionBitsConditionChecker params pos) pindexPrev (m_caches vb pos))"

definition Statistics ::
  "block_map \<Rightarrow> block_ptr option \<Rightarrow> Params \<Rightarrow> DeploymentPos \<Rightarrow> (BIP9Stats \<times> bool list option) option" where
  "Statistics H pindex params pos = GetStateStatisticsFor H (VersionBitsConditionChecker params pos) pindex"

primrec block_version_loop ::
  "block_map \<Rightarrow> block_ptr option \<Rightarrow> Params \<Rightarrow> DeploymentPos list \<Rightarrow> int \<Rightarrow> VersionBitsCache \<Rightarrow> (int \<times> VersionBitsCache) option" where
  "block_version_loop H pindexPrev params [] version vb = Some (version, vb)"
| "block_version_loop H pindexPrev params (pos # ps) version vb = do {
     (state, vb') \<leftarrow> vb_State H vb pindexPrev params pos;
     block_version_loop H pindexPrev params ps
       (if state = LOCKED_IN \<or> state = STARTED
        then to_int32 (uint (word_of_int version OR Mask params pos)) else version) vb'
   }"

definition ComputeBlockVersion ::
  "block_map \<Rightarrow> VersionBitsCache \<Rightarrow> block_ptr option \<Rightarrow> Params \<Rightarrow> (int \<times> VersionBitsCache) option" where
  "ComputeBlockVersion H vb pindexPrev params =
     block_version_loop H pindexPrev params [DEPLOYMENT_TESTDUMMY, DEPLOYMENT_TAPROOT] VERSIONBITS_TOP_BITS vb"

definition vb_Clear :: "VersionBitsCache \<Rightarrow> VersionBitsCache" where
  "vb_Clear vb = vb\<lparr>m_caches := (\<lambda>_. Map.empty)\<rparr>"

section \<open>Deployment status\<close>

definition DeploymentActiveAfter :: "block_map \<Rightarrow> block_ptr option \<Rightarrow> Params \<Rightarrow> BuriedDeployment \<Rightarrow> bool option" where
  "DeploymentActiveAfter H pindexPrev params dep =
     (case pindexPrev of
        None \<Rightarrow> Some (0 \<ge> DeploymentHeight params dep)
      | Some p \<Rightarrow> map_option (\<lambda>b. nHeight b + 1 \<ge> DeploymentHeight params dep) (H p))"

definition DeploymentActiveAt :: "CBlockIndex \<Rightarrow> Params \<Rightarrow> BuriedDeployment \<Rightarrow> bool" where
  "DeploymentActiveAt index params dep \<longleftrightarrow> nHeight index \<ge> DeploymentHeight params dep"

definition DeploymentActiveAfter_pos ::
  "block_map \<Rightarrow> VersionBitsCache \<Rightarrow> block_ptr option \<Rightarrow> Params \<Rightarrow> DeploymentPos \<Rightarrow> (bool \<times> VersionBitsCache) option" where
  "DeploymentActiveAfter_pos H vb pindexPrev params dep =
     map_option (\<lambda>(state, vb'). (ACTIVE = state, vb')) (vb_State H vb pindexPrev params dep)"

definition DeploymentEnabled :: "Params \<Rightarrow> BuriedDeployment \<Rightarrow> bool" where
  "DeploymentEnabled params dep \<longleftrightarrow> DeploymentHeight params dep \<noteq> 2147483647"

definition DeploymentEnabled_pos :: "Params \<Rightarrow> DeploymentPos \<Rightarrow> bool" where
  "DeploymentEnabled_pos params dep \<longleftrightarrow> nStartTime (vDeployments params dep) \<noteq> NEVER_ACTIVE"

section \<open>The state machine without a cache\<close>

text \<open>The state after the first \<open>k\<close> periods of the chain that ends in a block.\<close>

primrec period_state ::
  "block_map \<Rightarrow> AbstractThresholdConditionChecker \<Rightarrow> block_ptr \<Rightarrow> nat \<Rightarrow> ThresholdState option" where
  "period_state H c p 0 = Some DEFINED"
| "period_state H c p (Suc k) = do {
     state \<leftarrow> period_state H c p k;
     b \<leftarrow> H p;
     q \<leftarrow> prev_n H (nat (nHeight b + 1 - int (Suc k) * Period c)) p;
     state_next H c q state
   }"

text \<open>The time rule for headers, which makes the median time past monotone along the chain.\<close>

definition time_rule :: "block_map \<Rightarrow> bool" where
  "time_rule H \<longleftrightarrow>
     (\<forall>p b q m. H p = Some b \<and> pprev b = Some q \<and> GetMedianTimePast H q = Some m \<longrightarrow> m < GetBlockTime b)"

lemma mtp_total:
  assumes "wf_index H" "H p = Some b"
  obtains m where "GetMedianTimePast H p = Some m"
  using median_times_total [OF assms, of nMedianTimeSpan "[]"] that by (auto simp: GetMedianTimePast_def)

lemma mtp_ancestor:
  assumes wf: "wf_index H" and tr: "time_rule H"
  shows "H p = Some b \<Longrightarrow> prev_n H n p = Some q \<Longrightarrow> GetMedianTimePast H p = Some m \<Longrightarrow>
    \<exists>m'. GetMedianTimePast H q = Some m' \<and> m' \<le> m"
proof (induction n arbitrary: p b m)
  case (Suc n)
  then obtain r where r: "pprev b = Some r" "prev_n H n r = Some q" by (auto split: bind_splits)
  from wf_pprev_Some [OF wf Suc.prems(1) r(1)] obtain c where c: "H r = Some c" by blast
  from mtp_total [OF wf c] obtain mr where mr: "GetMedianTimePast H r = Some mr" .
  have "mr < GetBlockTime b" using tr Suc.prems(1) r(1) mr unfolding time_rule_def by blast
  from GetMedianTimePast_mono [OF wf Suc.prems(1) r(1) mr this] Suc.prems(3) have "mr \<le> m" by simp
  with Suc.IH [OF c r(2) mr] show ?case by fastforce
qed simp

lemma period_state_ancestor:
  assumes wf: "wf_index H" and p: "H p = Some b" and q: "prev_n H n p = Some q" "H q = Some d"
    and P: "0 < Period c"
  shows "int k * Period c \<le> nHeight d + 1 \<Longrightarrow> period_state H c q k = period_state H c p k"
proof (induction k)
  case (Suc k)
  have hd: "nHeight d = nHeight b - int n" using prev_n_entry [OF wf p q(1)] q(2) by auto
  have "nat (nHeight b + 1 - int (Suc k) * Period c) = n + nat (nHeight d + 1 - int (Suc k) * Period c)"
    using hd Suc.prems by linarith
  then have "prev_n H (nat (nHeight b + 1 - int (Suc k) * Period c)) p = prev_n H (nat (nHeight d + 1 - int (Suc k) * Period c)) q"
    by (simp only: prev_n_add q(1) bind.bind_lunit)
  moreover have "int k * Period c \<le> nHeight d + 1" using Suc.prems P by (simp add: algebra_simps)
  ultimately show ?case using Suc.IH p q(2) by (simp only: period_state.simps bind.bind_lunit)
qed simp

lemma period_boundary:
  assumes wf: "wf_index H" and p: "H p = Some b" and k: "0 < k" "int k * Period c \<le> nHeight b + 1" and P: "0 < Period c"
  obtains q d where "prev_n H (nat (nHeight b + 1 - int k * Period c)) p = Some q" "H q = Some d" "nHeight d + 1 = int k * Period c"
proof -
  have "1 * 1 \<le> int k * Period c" using k(1) P by (intro mult_mono) auto
  then have "int (nat (nHeight b + 1 - int k * Period c)) \<le> nHeight b" using k(2) by simp
  from prev_n_height [OF wf p this] obtain q d where
    "prev_n H (nat (nHeight b + 1 - int k * Period c)) p = Some q" "H q = Some d"
    "nHeight d = nHeight b - int (nat (nHeight b + 1 - int k * Period c))" .
  with k(2) that show ?thesis by simp
qed

lemma count_signals_total:
  assumes wf: "wf_index H"
  shows "H p = Some b \<Longrightarrow> int n \<le> nHeight b + 1 \<Longrightarrow> \<exists>count. count_signals H cond n (Some p) = Some count"
proof (induction n arbitrary: p b)
  case (Suc n)
  show ?case
  proof (cases "pprev b")
    case None
    then have "n = 0" using wf_pprev_None [OF wf Suc.prems(1)] Suc.prems(2) by simp
    with Suc.prems(1) show ?thesis by simp
  next
    case (Some q)
    from wf_pprev_Some [OF wf Suc.prems(1) Some] obtain d where d: "H q = Some d" "nHeight b = nHeight d + 1" by blast
    then have "int n \<le> nHeight d + 1" using Suc.prems(2) by simp
    from Suc.IH [OF d(1) this] Suc.prems(1) Some show ?thesis by auto
  qed
qed simp

lemma state_next_total:
  assumes wf: "wf_index H" and p: "H p = Some b" and h: "Period c \<le> nHeight b + 1"
  shows "\<exists>s'. state_next H c p s = Some s'"
proof -
  from mtp_total [OF wf p] obtain m where m: "GetMedianTimePast H p = Some m" .
  have "int (nat (Period c)) \<le> nHeight b + 1" using h wf_height_nonneg [OF wf p] by simp
  from count_signals_total [OF wf p this] obtain n where "count_signals H (Condition c) (nat (Period c)) (Some p) = Some n" by blast
  with m p show ?thesis by (cases s) (simp_all add: state_next_def)
qed

lemma period_state_total:
  assumes wf: "wf_index H" and p: "H p = Some b" and P: "0 < Period c"
  shows "int k * Period c \<le> nHeight b + 1 \<Longrightarrow> \<exists>s. period_state H c p k = Some s"
proof (induction k)
  case (Suc k)
  have "int k * Period c \<le> nHeight b + 1" using Suc.prems P by (simp add: algebra_simps)
  from Suc.IH [OF this] obtain s where s: "period_state H c p k = Some s" by blast
  from period_boundary [OF wf p _ Suc.prems P] obtain q d where q:
    "prev_n H (nat (nHeight b + 1 - int (Suc k) * Period c)) p = Some q" "H q = Some d" "nHeight d + 1 = int (Suc k) * Period c" by blast
  have "Period c \<le> nHeight d + 1" using q(3) P by (simp add: algebra_simps)
  from state_next_total [OF wf q(2) this] s q(1) p show ?case by (simp only: period_state.simps bind.bind_lunit)
qed simp

text \<open>The early exit: before the start time no period can have started.\<close>

lemma early_defined:
  assumes wf: "wf_index H" and tr: "time_rule H" and p: "H p = Some b" and P: "0 < Period c"
    and m: "GetMedianTimePast H p = Some m" "m < BeginTime c"
  shows "int k * Period c \<le> nHeight b + 1 \<Longrightarrow> period_state H c p k = Some DEFINED"
proof (induction k)
  case (Suc k)
  have "int k * Period c \<le> nHeight b + 1" using Suc.prems P by (simp add: algebra_simps)
  from Suc.IH [OF this] have s: "period_state H c p k = Some DEFINED" .
  from period_boundary [OF wf p _ Suc.prems P] obtain q d where q:
    "prev_n H (nat (nHeight b + 1 - int (Suc k) * Period c)) p = Some q" "H q = Some d" by blast
  from mtp_ancestor [OF wf tr p q(1) m(1)] obtain m' where m': "GetMedianTimePast H q = Some m'" "m' \<le> m" by blast
  with m(2) have "state_next H c q DEFINED = Some DEFINED" by (simp add: state_next_def)
  with s q(1) p show ?case by (simp only: period_state.simps bind.bind_lunit)
qed simp

section \<open>The memoised computation\<close>

text \<open>A block at the end of the first \<open>k\<close> periods; the null pointer ends none.\<close>

definition boundary :: "block_map \<Rightarrow> int \<Rightarrow> block_ptr option \<Rightarrow> nat \<Rightarrow> bool" where
  "boundary H period x k \<longleftrightarrow>
     (case x of None \<Rightarrow> k = 0 | Some p \<Rightarrow> 0 < k \<and> (\<exists>b. H p = Some b \<and> nHeight b + 1 = int k * period))"

definition state_at :: "block_map \<Rightarrow> AbstractThresholdConditionChecker \<Rightarrow> block_ptr option \<Rightarrow> nat \<Rightarrow> ThresholdState option" where
  "state_at H c x k = (case x of None \<Rightarrow> Some DEFINED | Some p \<Rightarrow> period_state H c p k)"

definition memo_ok :: "block_map \<Rightarrow> AbstractThresholdConditionChecker \<Rightarrow> ThresholdConditionCache \<Rightarrow> bool" where
  "memo_ok H c cache \<longleftrightarrow>
     (\<forall>x s. cache x = Some s \<longrightarrow> (\<exists>k. boundary H (Period c) x k \<and> state_at H c x k = Some s))"

lemma boundary_unique: "boundary H period x k \<Longrightarrow> boundary H period x j \<Longrightarrow> 0 < period \<Longrightarrow> j = k"
  by (auto simp: boundary_def split: option.splits)

lemma memo_ok_upd: "memo_ok H c cache \<Longrightarrow> boundary H (Period c) x k \<Longrightarrow> state_at H c x k = Some s \<Longrightarrow> memo_ok H c (cache(x \<mapsto> s))"
  by (auto simp: memo_ok_def)

lemma memo_hit: "memo_ok H c cache \<Longrightarrow> boundary H (Period c) x k \<Longrightarrow> 0 < Period c \<Longrightarrow> cache x = Some s \<Longrightarrow> state_at H c x k = Some s"
  using boundary_unique unfolding memo_ok_def by blast

lemma boundary_step:
  assumes wf: "wf_index H" and P: "0 < Period c" and p: "H p = Some b" "nHeight b + 1 = int (Suc k) * Period c"
  obtains q where "GetAncestor H p (nHeight b - Period c) = Some q" "boundary H (Period c) q k"
    "\<And>s. state_at H c q k = Some s \<Longrightarrow> state_at H c (Some p) (Suc k) = state_next H c p s"
proof (cases k)
  case 0
  then have "nHeight b - Period c < 0" using p(2) by simp
  moreover have "state_at H c (Some p) (Suc 0) = state_next H c p DEFINED" using 0 p by (simp add: state_at_def)
  ultimately show ?thesis using GetAncestor_null [of H p b, OF p(1)] that [of None] 0 by (auto simp: boundary_def state_at_def)
next
  case (Suc j)
  have k: "0 < k" "nHeight b - Period c + 1 = int k * Period c" using Suc p(2) by (simp_all add: algebra_simps)
  have "0 < int k * Period c" using k(1) P by simp
  then have "0 \<le> nHeight b - Period c" using k(2) by linarith
  from GetAncestor_prev_n [OF wf p(1) this] P obtain q d where q: "GetAncestor H p (nHeight b - Period c) = Some (Some q)"
    "prev_n H (nat (nHeight b - (nHeight b - Period c))) p = Some q" "H q = Some d" "nHeight d = nHeight b - Period c" by auto
  have b: "boundary H (Period c) (Some q) k" using q(3,4) k by (simp add: boundary_def)
  have "period_state H c q k = period_state H c p k"
    by (rule period_state_ancestor [OF wf p(1) q(2,3) P]) (use q(4) k(2) in simp)
  moreover have "nat (nHeight b + 1 - int (Suc k) * Period c) = 0" using p(2) by simp
  ultimately have "state_at H c (Some q) k = Some s \<Longrightarrow> state_at H c (Some p) (Suc k) = state_next H c p s" for s
    using p(1) by (simp add: state_at_def)
  with that [OF q(1) b] show ?thesis by blast
qed

lemma walk_ok:
  assumes wf: "wf_index H" and tr: "time_rule H" and P: "0 < Period c"
  shows "memo_ok H c cache \<Longrightarrow> boundary H (Period c) x k \<Longrightarrow>
    \<exists>cache1 vs' known s0 s cache2. walk_back H (Period c, BeginTime c) (cache, vs) x = Some (cache1, vs', known) \<and>
      cache1 known = Some s0 \<and> walk_forward H c vs' s0 cache1 = walk_forward H c vs s cache2 \<and>
      state_at H c x k = Some s \<and> memo_ok H c cache2"
proof (induction k arbitrary: x vs)
  case 0
  then have x: "x = None" by (auto simp: boundary_def split: option.splits)
  show ?case
  proof (cases "cache None")
    case None
    have "memo_ok H c (cache(None \<mapsto> DEFINED))" by (rule memo_ok_upd [OF 0(1), of _ 0]) (simp_all add: boundary_def state_at_def)
    with None x show ?thesis by (auto simp: walk_back.simps state_at_def)
  next
    case (Some s)
    with memo_hit [OF 0 P] x 0(1) show ?thesis by (auto simp: walk_back.simps)
  qed
next
  case (Suc k)
  then obtain p b where p: "x = Some p" "H p = Some b" "nHeight b + 1 = int (Suc k) * Period c"
    by (auto simp: boundary_def split: option.splits)
  from mtp_total [OF wf p(2)] obtain m where m: "GetMedianTimePast H p = Some m" .
  consider (hit) s where "cache x = Some s" | (early) "cache x = None" "m < BeginTime c" | (deep) "cache x = None" "\<not> m < BeginTime c"
    by (cases "cache x") auto
  then show ?case
  proof cases
    case hit
    with memo_hit [OF Suc.prems P] Suc.prems(1) show ?thesis by (auto simp: walk_back.simps)
  next
    case early
    have "int (Suc k) * Period c \<le> nHeight b + 1" using p(3) by simp
    from early_defined [OF wf tr p(2) P m early(2) this] have st: "state_at H c x (Suc k) = Some DEFINED"
      using p(1) by (simp add: state_at_def)
    from memo_ok_upd [OF Suc.prems(1,2) st] st early m p(1) show ?thesis by (auto simp: walk_back.simps)
  next
    case deep
    from boundary_step [OF wf P p(2,3)] obtain q where q: "GetAncestor H p (nHeight b - Period c) = Some q"
      "boundary H (Period c) q k" "\<And>s. state_at H c q k = Some s \<Longrightarrow> state_at H c (Some p) (Suc k) = state_next H c p s" by metis
    from Suc.IH [OF Suc.prems(1) q(2), of "p # vs"] obtain cache1 vs' known s0 s cache2 where IH:
      "walk_back H (Period c, BeginTime c) (cache, p # vs) q = Some (cache1, vs', known)" "cache1 known = Some s0"
      "walk_forward H c vs' s0 cache1 = walk_forward H c (p # vs) s cache2" "state_at H c q k = Some s" "memo_ok H c cache2" by blast
    have "Period c \<le> nHeight b + 1" using p(3) P by (simp add: algebra_simps)
    from state_next_total [OF wf p(2) this] obtain s' where s': "state_next H c p s = Some s'" by blast
    have st: "state_at H c x (Suc k) = Some s'" using q(3) [OF IH(4)] s' p(1) by simp
    have "walk_back H (Period c, BeginTime c) (cache, vs) x = Some (cache1, vs', known)"
      by (subst walk_back.simps) (use deep p m q(1) IH(1) in simp)
    moreover have "walk_forward H c vs' s0 cache1 = walk_forward H c vs s' (cache2(x \<mapsto> s'))" using IH(3) s' p(1) by simp
    ultimately show ?thesis using IH(2) st memo_ok_upd [OF IH(5) Suc.prems(2) st] by blast
  qed
qed

text \<open>The number of complete periods up to a block.\<close>

definition periods :: "AbstractThresholdConditionChecker \<Rightarrow> CBlockIndex \<Rightarrow> nat" where
  "periods c b = nat ((nHeight b + 1) div Period c)"

lemma GetStateFor_ok:
  assumes wf: "wf_index H" and tr: "time_rule H" and P: "0 < Period c" and memo: "memo_ok H c cache" and p: "H p = Some b"
    and start: "BeginTime c \<noteq> ALWAYS_ACTIVE" "BeginTime c \<noteq> NEVER_ACTIVE"
  obtains s cache' where "GetStateFor H c (Some p) cache = Some (s, cache')"
    "period_state H c p (periods c b) = Some s" "memo_ok H c cache'"
proof -
  let ?k = "periods c b"
  have h: "0 \<le> nHeight b" using wf_height_nonneg [OF wf p] .
  have k: "int ?k = (nHeight b + 1) div Period c" using h P by (simp add: periods_def pos_imp_zdiv_nonneg_iff)
  have sm: "(nHeight b + 1) smod Period c = (nHeight b + 1) mod Period c" using h P by (simp add: smod_nonneg)
  have at: "nHeight b - (nHeight b + 1) mod Period c = int ?k * Period c - 1"
    using div_mult_mod_eq [of "nHeight b + 1" "Period c"] unfolding k by linarith
  have le: "int ?k * Period c \<le> nHeight b + 1" using at P pos_mod_sign [of "Period c" "nHeight b + 1"] by linarith
  obtain x where x: "GetAncestor H p (int ?k * Period c - 1) = Some x" "boundary H (Period c) x ?k"
    "state_at H c x ?k = period_state H c p ?k"
  proof (cases "?k = 0")
    case True
    with GetAncestor_null [of H p b, OF p] that [of None] show ?thesis by (simp add: boundary_def state_at_def)
  next
    case False
    then have "0 < int ?k * Period c" using P by simp
    then have "0 \<le> int ?k * Period c - 1" by linarith
    from GetAncestor_prev_n [OF wf p this] le obtain q d where q: "GetAncestor H p (int ?k * Period c - 1) = Some (Some q)"
      "prev_n H (nat (nHeight b - (int ?k * Period c - 1))) p = Some q" "H q = Some d" "nHeight d = int ?k * Period c - 1" by auto
    have "period_state H c q ?k = period_state H c p ?k"
      by (rule period_state_ancestor [OF wf p q(2,3) P]) (use q(4) in simp)
    with q False that [of "Some q"] show ?thesis by (simp add: boundary_def state_at_def)
  qed
  from walk_ok [OF wf tr P memo x(2), of "[]"] obtain cache1 vs' known s0 s cache2 where w:
    "walk_back H (Period c, BeginTime c) (cache, []) x = Some (cache1, vs', known)" "cache1 known = Some s0"
    "walk_forward H c vs' s0 cache1 = walk_forward H c [] s cache2" "state_at H c x ?k = Some s" "memo_ok H c cache2" by blast
  have "GetStateFor H c (Some p) cache = Some (s, cache2)"
    using start p P x(1) w(1-3) unfolding at [symmetric] sm [symmetric] by (simp add: GetStateFor_def)
  with that w(4,5) x(3) show ?thesis by simp
qed

lemma periods_bound:
  assumes "wf_index H" "H p = Some b" "0 < Period c"
  shows "int k * Period c \<le> nHeight b + 1 \<longleftrightarrow> k \<le> periods c b"
proof -
  have "0 \<le> nHeight b" using wf_height_nonneg [OF assms(1,2)] .
  moreover have "int k \<le> (nHeight b + 1) div Period c \<longleftrightarrow> int k * Period c \<le> nHeight b + 1"
  proof
    assume "int k \<le> (nHeight b + 1) div Period c"
    then have "int k * Period c \<le> (nHeight b + 1) div Period c * Period c" using assms(3) by (intro mult_right_mono) auto
    also have "\<dots> \<le> nHeight b + 1" using assms(3) div_mult_mod_eq [of "nHeight b + 1" "Period c"] pos_mod_sign [of "Period c" "nHeight b + 1"] by linarith
    finally show "int k * Period c \<le> nHeight b + 1" .
  next
    assume "int k * Period c \<le> nHeight b + 1"
    from zdiv_mono1 [OF this assms(3)] assms(3) show "int k \<le> (nHeight b + 1) div Period c" by simp
  qed
  ultimately show ?thesis unfolding periods_def using assms(3) by (subst le_nat_iff) (simp_all add: pos_imp_zdiv_nonneg_iff)
qed

lemma state_next_final: "s \<in> {ACTIVE, FAILED} \<Longrightarrow> state_next H c p s = Some s"
  by (auto simp: state_next_def)

lemma period_state_step:
  assumes wf: "wf_index H" and p: "H p = Some b" and P: "0 < Period c" and k: "Suc k \<le> periods c b"
  obtains q d s s' where "prev_n H (nat (nHeight b + 1 - int (Suc k) * Period c)) p = Some q" "H q = Some d"
    "nHeight d + 1 = int (Suc k) * Period c" "period_state H c p k = Some s" "period_state H c p (Suc k) = Some s'"
    "state_next H c q s = Some s'"
proof -
  have le: "int (Suc k) * Period c \<le> nHeight b + 1" using periods_bound [OF wf p P] k by blast
  from period_boundary [OF wf p _ le P] obtain q d where q:
    "prev_n H (nat (nHeight b + 1 - int (Suc k) * Period c)) p = Some q" "H q = Some d" "nHeight d + 1 = int (Suc k) * Period c" by blast
  from period_state_total [OF wf p P, of "Suc k"] le obtain s' where s': "period_state H c p (Suc k) = Some s'" by blast
  then obtain s where "period_state H c p k = Some s" "state_next H c q s = Some s'"
    using q(1) p by (auto split: bind_splits)
  with that q s' show ?thesis by blast
qed

lemma period_state_final:
  assumes wf: "wf_index H" and p: "H p = Some b" and P: "0 < Period c" and s: "s \<in> {ACTIVE, FAILED}" "period_state H c p j = Some s"
  shows "k \<le> periods c b \<Longrightarrow> j \<le> k \<Longrightarrow> period_state H c p k = Some s"
proof (induction k)
  case (Suc k)
  show ?case
  proof (cases "j = Suc k")
    case False
    with Suc have k: "period_state H c p k = Some s" by simp
    from period_state_step [OF wf p P Suc.prems(1)] obtain q t t' where
      "period_state H c p k = Some t" "period_state H c p (Suc k) = Some t'" "state_next H c q t = Some t'" by metis
    with k state_next_final [OF s(1), of H c q] show ?thesis by simp
  qed (use s(2) in simp)
qed (use s(2) in simp)

text \<open>The three steps that decide a deployment once the timeout and the activation height have passed.\<close>

lemma state_next_decide:
  assumes "state_next H c q s = Some s'" "GetMedianTimePast H q = Some m" "H q = Some d"
  shows "m \<ge> BeginTime c \<Longrightarrow> s' \<noteq> DEFINED"
    and "m \<ge> EndTime c \<Longrightarrow> s \<noteq> DEFINED \<Longrightarrow> s' \<noteq> DEFINED \<and> s' \<noteq> STARTED"
    and "nHeight d + 1 \<ge> MinActivationHeight c \<Longrightarrow> s \<noteq> DEFINED \<Longrightarrow> s \<noteq> STARTED \<Longrightarrow> s' \<in> {ACTIVE, FAILED}"
  using assms by (cases s; auto simp: state_next_def split: bind_splits if_splits)+

lemma period_state_decided:
  assumes wf: "wf_index H" and tr: "time_rule H" and p: "H p = Some b" and P: "0 < Period c"
    and q: "prev_n H n p = Some q" "H q = Some d" "GetMedianTimePast H q = Some m" "m \<ge> BeginTime c" "m \<ge> EndTime c"
      "nHeight d + 1 \<ge> MinActivationHeight c"
    and j: "nHeight d + 1 \<le> int (Suc j) * Period c" "Suc (Suc (Suc j)) \<le> periods c b"
  shows "\<exists>s \<in> {ACTIVE, FAILED}. period_state H c p (periods c b) = Some s"
proof -
  have later: "\<exists>m'. GetMedianTimePast H r = Some m' \<and> m' \<ge> BeginTime c \<and> m' \<ge> EndTime c \<and> nHeight e + 1 \<ge> MinActivationHeight c"
    if r: "prev_n H (nat (nHeight b + 1 - int (Suc i) * Period c)) p = Some r" "H r = Some e" "nHeight e + 1 = int (Suc i) * Period c" "j \<le> i" for i r e
  proof -
    have hd: "nHeight d = nHeight b - int n" using prev_n_entry [OF wf p q(1)] q(2) by auto
    have he: "nHeight d \<le> nHeight e"
    proof -
      have "int (Suc j) * Period c \<le> int (Suc i) * Period c" using r(4) P by (intro mult_right_mono) auto
      then show ?thesis using j(1) r(3) by linarith
    qed
    let ?i = "nat (nHeight b + 1 - int (Suc i) * Period c)"
    from prev_n_entry [OF wf p r(1)] obtain e' where "H r = Some e'" "nHeight e' = nHeight b - int ?i" .
    with r(2) have hb: "nHeight e = nHeight b - int ?i" by simp
    have "n = ?i + nat (nHeight e - nHeight d)" using hd he hb by linarith
    then have "prev_n H (nat (nHeight e - nHeight d)) r = Some q" using q(1) r(1) by (metis prev_n_add bind.bind_lunit)
    moreover from mtp_total [OF wf r(2)] obtain m' where m': "GetMedianTimePast H r = Some m'" .
    ultimately have "m \<le> m'" using mtp_ancestor [OF wf tr r(2)] q(3) by fastforce
    with m' q(4-6) he show ?thesis by auto
  qed
  have i: "Suc j \<le> periods c b" "Suc (Suc j) \<le> periods c b" using j(2) by simp_all
  from period_state_step [OF wf p P i(1)] obtain r1 e1 s0 s1 where 1:
    "prev_n H (nat (nHeight b + 1 - int (Suc j) * Period c)) p = Some r1" "H r1 = Some e1" "nHeight e1 + 1 = int (Suc j) * Period c"
    "period_state H c p j = Some s0" "period_state H c p (Suc j) = Some s1" "state_next H c r1 s0 = Some s1" .
  from later [OF 1(1-3)] have s1: "s1 \<noteq> DEFINED" using state_next_decide(1) [OF 1(6) _ 1(2)] by blast
  from period_state_step [OF wf p P i(2)] obtain r2 e2 t1 s2 where 2:
    "prev_n H (nat (nHeight b + 1 - int (Suc (Suc j)) * Period c)) p = Some r2" "H r2 = Some e2" "nHeight e2 + 1 = int (Suc (Suc j)) * Period c"
    "period_state H c p (Suc j) = Some t1" "period_state H c p (Suc (Suc j)) = Some s2" "state_next H c r2 t1 = Some s2" .
  have "t1 = s1" using 1(5) 2(4) by simp
  with later [OF 2(1-3)] have s2: "s2 \<noteq> DEFINED" "s2 \<noteq> STARTED" using state_next_decide(2) [OF 2(6) _ 2(2)] s1 by auto
  from period_state_step [OF wf p P j(2)] obtain r3 e3 t2 s3 where 3:
    "prev_n H (nat (nHeight b + 1 - int (Suc (Suc (Suc j))) * Period c)) p = Some r3" "H r3 = Some e3" "nHeight e3 + 1 = int (Suc (Suc (Suc j))) * Period c"
    "period_state H c p (Suc (Suc j)) = Some t2" "period_state H c p (Suc (Suc (Suc j))) = Some s3" "state_next H c r3 t2 = Some s3" .
  have "t2 = s2" using 2(5) 3(4) by simp
  with later [OF 3(1-3)] have "s3 \<in> {ACTIVE, FAILED}" using state_next_decide(3) [OF 3(6) _ 3(2)] s2 by auto
  with period_state_final [OF wf p P _ 3(5) le_refl j(2)] show ?thesis by blast
qed

section \<open>Properties\<close>

text \<open>
  C24: \<open>GetStateFor\<close> computes the BIP 9 state machine. On a well-formed index whose headers satisfy
  the time rule, for a deployment that is neither always nor never active and any cache of earlier
  results, the walk back ends and the memoised computation, with its early exit, returns the state
  of the machine run period by period from the genesis block; the cache stays right.
\<close>

theorem GetStateFor_correct:
  assumes "wf_index H" "time_rule H" "0 < Period c" "memo_ok H c cache" "H p = Some b"
    "BeginTime c \<noteq> ALWAYS_ACTIVE" "BeginTime c \<noteq> NEVER_ACTIVE"
  shows "\<exists>s cache'. GetStateFor H c (Some p) cache = Some (s, cache') \<and>
     period_state H c p (periods c b) = Some s \<and> memo_ok H c cache'"
  using GetStateFor_ok [OF assms] by metis

definition example_index_3 :: block_map where
  "example_index_3 = example_index(example_hash 3 \<mapsto>
     (CBlockIndex_of_header (example_header (example_hash 2) 2200))\<lparr>pprev := Some (example_hash 2), nHeight := 2\<rparr>)"

lemma example_hash_3 [simp]: "example_hash 3 \<noteq> example_hash 1" "example_hash 3 \<noteq> example_hash 2"
  "example_hash 1 \<noteq> example_hash 3" "example_hash 2 \<noteq> example_hash 3"
  by (simp_all add: example_hash_def)

lemma example_index_3_entries:
  "example_index_3 (example_hash 1) = Some (CBlockIndex_of_header (example_header uint256_zero 1000))"
  "example_index_3 (example_hash 2) = Some ((CBlockIndex_of_header (example_header (example_hash 1) 1600))
     \<lparr>pprev := Some (example_hash 1), pskip := Some (example_hash 1), nHeight := 1\<rparr>)"
  "example_index_3 (example_hash 3) = Some ((CBlockIndex_of_header (example_header (example_hash 2) 2200))
     \<lparr>pprev := Some (example_hash 2), nHeight := 2\<rparr>)"
  by (simp_all add: example_index_3_def example_index_entries)

lemma wf_index_example_3: "wf_index example_index_3"
  unfolding example_index_3_def
  by (rule wf_index_insert [OF wf_index_example])
    (simp_all add: wf_entry_def CBlockIndex_of_header_def example_index_def)

lemma example_mtp_3:
  "GetMedianTimePast example_index_3 (example_hash 1) = Some 1000" "GetMedianTimePast example_index_3 (example_hash 2) = Some 1600"
proof -
  obtain n where n: "nMedianTimeSpan = Suc (Suc (Suc n))" by (rule that [of 8]) (simp add: nMedianTimeSpan_def)
  show "GetMedianTimePast example_index_3 (example_hash 1) = Some 1000" "GetMedianTimePast example_index_3 (example_hash 2) = Some 1600"
    unfolding GetMedianTimePast_def n
    by (simp_all add: example_index_3_entries CBlockIndex_of_header_def example_header_def GetBlockTime_def)
qed

lemma time_rule_example_3: "time_rule example_index_3"
  unfolding time_rule_def
proof (intro allI impI, elim conjE)
  fix p b q m assume p: "example_index_3 p = Some b" "pprev b = Some q" "GetMedianTimePast example_index_3 q = Some m"
  then have "p = example_hash 2 \<or> p = example_hash 3"
    by (auto simp: example_index_3_def example_index_def CBlockIndex_of_header_def split: if_splits)
  then show "m < GetBlockTime b" using p
    by (auto simp: example_index_3_entries example_mtp_3 CBlockIndex_of_header_def example_header_def GetBlockTime_def)
qed

text \<open>A deployment with periods of one block, started and timed out long ago.\<close>

definition example_checker :: AbstractThresholdConditionChecker where
  "example_checker = \<lparr>Condition = (\<lambda>_. False), BeginTime = 500, EndTime = 900, MinActivationHeight = 0, Period = 1, Threshold = 1\<rparr>"

lemma memo_ok_empty: "memo_ok H c Map.empty"
  by (simp add: memo_ok_def)

theorem GetStateFor_correct_witness:
  "\<exists>s cache'. GetStateFor example_index_3 example_checker (Some (example_hash 2)) Map.empty = Some (s, cache') \<and>
     period_state example_index_3 example_checker (example_hash 2) 2 = Some s \<and> memo_ok example_index_3 example_checker cache'"
  using GetStateFor_correct [OF wf_index_example_3 time_rule_example_3 _ memo_ok_empty example_index_3_entries(2), of example_checker]
  by (simp add: example_checker_def ALWAYS_ACTIVE_def NEVER_ACTIVE_def periods_def)

text \<open>
  Final states. Once a deployment is active or failed for the block after some block, it has
  the same state after every descendant of that block, whatever the caches of the two queries.
\<close>

theorem deployment_final:
  assumes "wf_index H" "time_rule H" "0 < Period c" "memo_ok H c cache" "memo_ok H c cache'"
    "H p = Some b" "prev_n H n p = Some q" "GetStateFor H c (Some q) cache = Some (s, cache1)" "s \<in> {ACTIVE, FAILED}"
  shows "\<exists>cache2. GetStateFor H c (Some p) cache' = Some (s, cache2)"
proof (cases "BeginTime c = ALWAYS_ACTIVE \<or> BeginTime c = NEVER_ACTIVE")
  case True
  then show ?thesis using assms(8) by (auto simp: GetStateFor_def split: if_splits)
next
  case False
  from prev_n_entry [OF assms(1,6,7)] obtain d where d: "H q = Some d" "nHeight d = nHeight b - int n" .
  from False have start: "BeginTime c \<noteq> ALWAYS_ACTIVE" "BeginTime c \<noteq> NEVER_ACTIVE" by auto
  from GetStateFor_ok [OF assms(1-4) d(1) start] assms(8) have s: "period_state H c q (periods c d) = Some s" by auto
  have le: "int (periods c d) * Period c \<le> nHeight d + 1" using periods_bound [OF assms(1) d(1) assms(3)] by blast
  then have k: "periods c d \<le> periods c b" using periods_bound [OF assms(1,6,3)] d(2) by fastforce
  have "period_state H c p (periods c d) = Some s" using s period_state_ancestor [OF assms(1,6,7) d(1) assms(3) le] by simp
  from period_state_final [OF assms(1,6,3,9) this le_refl k]
  have "period_state H c p (periods c b) = Some s" .
  with GetStateFor_ok [OF assms(1-3,5,6) start] show ?thesis by (metis option.inject)
qed

lemma example_period_state: "period_state example_index_3 example_checker (example_hash 2) 2 = Some FAILED"
  by (simp add: numeral_2_eq_2 example_index_3_entries CBlockIndex_of_header_def example_checker_def state_next_def example_mtp_3)

lemma example_state_failed:
  obtains cache1 where "GetStateFor example_index_3 example_checker (Some (example_hash 2)) Map.empty = Some (FAILED, cache1)"
proof -
  have start: "0 < Period example_checker" "BeginTime example_checker \<noteq> ALWAYS_ACTIVE" "BeginTime example_checker \<noteq> NEVER_ACTIVE"
    by (simp_all add: example_checker_def ALWAYS_ACTIVE_def NEVER_ACTIVE_def)
  from GetStateFor_ok [OF wf_index_example_3 time_rule_example_3 start(1) memo_ok_empty example_index_3_entries(2) start(2,3)]
  obtain s cache1 where "GetStateFor example_index_3 example_checker (Some (example_hash 2)) Map.empty = Some (s, cache1)"
    "period_state example_index_3 example_checker (example_hash 2)
      (periods example_checker ((CBlockIndex_of_header (example_header (example_hash 1) 1600))
        \<lparr>pprev := Some (example_hash 1), pskip := Some (example_hash 1), nHeight := 1\<rparr>)) = Some s" .
  then show ?thesis using that example_period_state by (simp add: periods_def example_checker_def)
qed

lemma example_prev_3: "prev_n example_index_3 1 (example_hash 3) = Some (example_hash 2)"
  "prev_n example_index_3 2 (example_hash 3) = Some (example_hash 1)"
  by (simp_all add: numeral_2_eq_2 example_index_3_entries CBlockIndex_of_header_def)

theorem deployment_final_witness:
  "\<exists>cache2. GetStateFor example_index_3 example_checker (Some (example_hash 3)) Map.empty = Some (FAILED, cache2)"
proof -
  obtain cache1 where "GetStateFor example_index_3 example_checker (Some (example_hash 2)) Map.empty = Some (FAILED, cache1)"
    by (rule example_state_failed)
  from deployment_final [OF wf_index_example_3 time_rule_example_3 _ memo_ok_empty memo_ok_empty example_index_3_entries(3)
      example_prev_3(1) this] show ?thesis by (simp add: example_checker_def)
qed

text \<open>
  C40: Deployments are decided. If some ancestor of a block has a median time past beyond the start
  time and the timeout and is beyond the minimum activation height, then after the end of its
  period and two more periods the deployment is active or failed: it does not stay defined,
  started or locked in.
\<close>

theorem deployment_decided:
  assumes "wf_index H" "time_rule H" "0 < Period c" "memo_ok H c cache"
    "BeginTime c \<noteq> ALWAYS_ACTIVE" "BeginTime c \<noteq> NEVER_ACTIVE"
    "H p = Some b" "prev_n H n p = Some q" "H q = Some d" "GetMedianTimePast H q = Some m"
    "m \<ge> BeginTime c" "m \<ge> EndTime c" "nHeight d + 1 \<ge> MinActivationHeight c"
    "nHeight d + 1 \<le> int (Suc j) * Period c" "int (j + 3) * Period c \<le> nHeight b + 1"
  shows "\<exists>s cache'. GetStateFor H c (Some p) cache = Some (s, cache') \<and> s \<in> {ACTIVE, FAILED}"
proof -
  have "Suc (Suc (Suc j)) \<le> periods c b" using periods_bound [OF assms(1,7,3), of "j + 3"] assms(15) by simp
  from period_state_decided [OF assms(1,2,7,3,8-14) this] obtain s where
    "s \<in> {ACTIVE, FAILED}" "period_state H c p (periods c b) = Some s" by blast
  with GetStateFor_ok [OF assms(1-4,7,5,6)] show ?thesis by (metis option.inject)
qed

theorem deployment_decided_witness:
  "\<exists>s cache'. GetStateFor example_index_3 example_checker (Some (example_hash 3)) Map.empty = Some (s, cache') \<and> s \<in> {ACTIVE, FAILED}"
  using deployment_decided [OF wf_index_example_3 time_rule_example_3 _ memo_ok_empty _ _ example_index_3_entries(3) example_prev_3(2)
      example_index_3_entries(1) example_mtp_3(1), of example_checker 0]
  by (simp add: example_checker_def ALWAYS_ACTIVE_def NEVER_ACTIVE_def CBlockIndex_of_header_def)

end
