(* ===== verification/Block_Check.thy ===== *)
theory Block_Check
  imports Merkle Versionbits Tx_Inputs Pow
begin

text \<open>
  Blocks (\<open>src/primitives/block.h\<close>) and the checks of blocks and headers that do not need the
  coins: \<open>CheckBlock\<close>, \<open>ContextualCheckBlockHeader\<close>, \<open>ContextualCheckBlock\<close> and the witness
  commitment, from \<open>src/validation.cpp\<close> and \<open>src/consensus/validation.h\<close>. The hash functions are
  arguments: \<open>Hash\<close> is double SHA-256, \<open>GetHash\<close> the proof-of-work hash of a header. A check that
  passes returns the block, whose mutable flags it may set; one that rejects returns the result
  code and the reject reason.
\<close>

section \<open>Blocks\<close>

record CBlock = CBlockHeader +
  vtx :: "CTransaction list"
  fChecked :: bool
  m_checked_witness_commitment :: bool
  m_checked_merkle_root :: bool

definition GetBlockHeader :: "CBlock \<Rightarrow> CBlockHeader" where
  "GetBlockHeader block =
     \<lparr>hdrVersion = hdrVersion block, hashPrevBlock = hashPrevBlock block, hdrMerkleRoot = hdrMerkleRoot block,
      hdrTime = hdrTime block, hdrBits = hdrBits block, hdrNonce = hdrNonce block\<rparr>"

definition CBlock_of_header :: "CBlockHeader \<Rightarrow> CBlock" where
  "CBlock_of_header h =
     \<lparr>hdrVersion = hdrVersion h, hashPrevBlock = hashPrevBlock h, hdrMerkleRoot = hdrMerkleRoot h,
      hdrTime = hdrTime h, hdrBits = hdrBits h, hdrNonce = hdrNonce h, vtx = [], fChecked = False,
      m_checked_witness_commitment = False, m_checked_merkle_root = False\<rparr>"

definition ser_header :: "CBlockHeader \<Rightarrow> bytes" where
  "ser_header h =
     ser_int32 (hdrVersion h) @ hashPrevBlock h @ hdrMerkleRoot h @ ser_word (hdrTime h) @ ser_word (hdrBits h) @ ser_word (hdrNonce h)"

definition unser_header :: "CBlockHeader reader" where
  "unser_header =
     rd_bind unser_int32 (\<lambda>v. rd_bind unser_uint256 (\<lambda>prev. rd_bind unser_uint256 (\<lambda>root.
     rd_bind unser_word (\<lambda>time. rd_bind unser_word (\<lambda>bits. rd_bind unser_word (\<lambda>nonce.
       rd_return \<lparr>hdrVersion = v, hashPrevBlock = prev, hdrMerkleRoot = root, hdrTime = time, hdrBits = bits, hdrNonce = nonce\<rparr>))))))"

definition SerializeBlock :: "bool \<Rightarrow> CBlock \<Rightarrow> bytes" where
  "SerializeBlock fAllowWitness block =
     ser_header (GetBlockHeader block) @ ser_vector (SerializeTransaction fAllowWitness) (vtx block)"

definition UnserializeBlock :: "bool \<Rightarrow> CBlock reader" where
  "UnserializeBlock fAllowWitness =
     rd_bind unser_header (\<lambda>h. rd_bind (unser_vector (UnserializeTransaction fAllowWitness)) (\<lambda>txs.
       rd_return ((CBlock_of_header h)\<lparr>vtx := txs\<rparr>)))"

definition GetBlockWeight :: "CBlock \<Rightarrow> nat" where
  "GetBlockWeight block =
     length (SerializeBlock False block) * (WITNESS_SCALE_FACTOR - 1) + length (SerializeBlock True block)"

datatype BlockValidationResult = BLOCK_RESULT_UNSET | BLOCK_CONSENSUS | BLOCK_RECENT_CONSENSUS_CHANGE
  | BLOCK_CACHED_INVALID | BLOCK_INVALID_HEADER | BLOCK_MUTATED | BLOCK_MISSING_PREV | BLOCK_INVALID_PREV
  | BLOCK_TIME_FUTURE | BLOCK_CHECKPOINT | BLOCK_HEADER_LOW_WORK

type_synonym 'a block_check = "BlockValidationResult \<times> string + 'a"

section \<open>Merkle roots of blocks\<close>

definition hash_pair :: "(bytes \<Rightarrow> uint256) \<Rightarrow> uint256 \<Rightarrow> uint256 \<Rightarrow> uint256" where
  "hash_pair Hash left right = Hash (left @ right)"

definition BlockMerkleRoot :: "(bytes \<Rightarrow> uint256) \<Rightarrow> CBlock \<Rightarrow> uint256 \<times> bool" where
  "BlockMerkleRoot Hash block = ComputeMerkleRoot (hash_pair Hash) (map (tx_GetHash Hash) (vtx block))"

text \<open>The leaf of the coinbase is zero; writing it into an empty vector is \<open>None\<close>.\<close>

definition BlockWitnessMerkleRoot :: "(bytes \<Rightarrow> uint256) \<Rightarrow> CBlock \<Rightarrow> uint256 option" where
  "BlockWitnessMerkleRoot Hash block =
     (case vtx block of
        [] \<Rightarrow> None
      | _ # txs \<Rightarrow> Some (fst (ComputeMerkleRoot (hash_pair Hash) (uint256_zero # map (GetWitnessHash Hash) txs))))"

definition CheckMerkleRoot :: "(bytes \<Rightarrow> uint256) \<Rightarrow> CBlock \<Rightarrow> CBlock block_check" where
  "CheckMerkleRoot Hash block =
     (if m_checked_merkle_root block then Inr block
      else let (merkle_root, mutated) = BlockMerkleRoot Hash block
           in if hdrMerkleRoot block \<noteq> merkle_root then Inl (BLOCK_MUTATED, ''bad-txnmrklroot'')
              else if mutated then Inl (BLOCK_MUTATED, ''bad-txns-duplicate'')
              else Inr (block\<lparr>m_checked_merkle_root := True\<rparr>))"

section \<open>Witness commitment\<close>

definition MINIMUM_WITNESS_COMMITMENT :: nat where "MINIMUM_WITNESS_COMMITMENT = 38"

definition is_commitment :: "CTxOut \<Rightarrow> bool" where
  "is_commitment t \<longleftrightarrow>
     length (scriptPubKey t) \<ge> MINIMUM_WITNESS_COMMITMENT \<and>
     take 6 (scriptPubKey t) = [OP_RETURN, 0x24, 0xaa, 0x21, 0xa9, 0xed]"

text \<open>The position of the last commitment; \<open>None\<close> is \<open>NO_WITNESS_COMMITMENT\<close>.\<close>

primrec commitment_loop :: "nat \<Rightarrow> nat option \<Rightarrow> CTxOut list \<Rightarrow> nat option" where
  "commitment_loop o' commitpos [] = commitpos"
| "commitment_loop o' commitpos (t # ts) = commitment_loop (Suc o') (if is_commitment t then Some o' else commitpos) ts"

definition GetWitnessCommitmentIndex :: "CBlock \<Rightarrow> nat option" where
  "GetWitnessCommitmentIndex block = (case vtx block of [] \<Rightarrow> None | cb # _ \<Rightarrow> commitment_loop 0 None (vout cb))"

definition unexpected_witness :: "CBlock \<Rightarrow> CBlock block_check" where
  "unexpected_witness block =
     (if list_ex HasWitness (vtx block) then Inl (BLOCK_MUTATED, ''unexpected-witness'') else Inr block)"

definition CheckWitnessMalleation :: "(bytes \<Rightarrow> uint256) \<Rightarrow> CBlock \<Rightarrow> bool \<Rightarrow> CBlock block_check option" where
  "CheckWitnessMalleation Hash block expect_witness_commitment =
     (if expect_witness_commitment
      then if m_checked_witness_commitment block then Some (Inr block)
           else case GetWitnessCommitmentIndex block of
                  None \<Rightarrow> Some (unexpected_witness block)
                | Some commitpos \<Rightarrow>
                    (case vtx block of
                       [] \<Rightarrow> None
                     | cb # _ \<Rightarrow>
                         (case vin cb of
                            [] \<Rightarrow> None
                          | i # _ \<Rightarrow>
                              (case scriptWitness i of
                                 [reserved] \<Rightarrow>
                                   if length reserved \<noteq> 32 then Some (Inl (BLOCK_MUTATED, ''bad-witness-nonce-size''))
                                   else do {
                                     root \<leftarrow> BlockWitnessMerkleRoot Hash block;
                                     Some (if Hash (root @ reserved) \<noteq> take 32 (drop 6 (scriptPubKey (vout cb ! commitpos)))
                                           then Inl (BLOCK_MUTATED, ''bad-witness-merkle-match'')
                                           else Inr (block\<lparr>m_checked_witness_commitment := True\<rparr>))
                                   }
                               | _ \<Rightarrow> Some (Inl (BLOCK_MUTATED, ''bad-witness-nonce-size'')))))
      else Some (unexpected_witness block))"

text \<open>The coinbase is replaced by the changed copy; indexing an empty vector is \<open>None\<close>.\<close>

definition UpdateUncommittedBlockStructures ::
  "block_map \<Rightarrow> Params \<Rightarrow> CBlock \<Rightarrow> block_ptr option \<Rightarrow> CBlock option" where
  "UpdateUncommittedBlockStructures H params block pindexPrev =
     (if GetWitnessCommitmentIndex block = None then Some block
      else do {
        active \<leftarrow> DeploymentActiveAfter H pindexPrev params DEPLOYMENT_SEGWIT;
        if \<not> active then Some block
        else (case vtx block of
                [] \<Rightarrow> None
              | cb # txs \<Rightarrow>
                  if HasWitness cb then Some block
                  else (case vin cb of
                          [] \<Rightarrow> None
                        | i # ins \<Rightarrow>
                            Some (block\<lparr>vtx := cb\<lparr>vin := i\<lparr>scriptWitness := [replicate 32 0]\<rparr> # ins\<rparr> # txs\<rparr>)))
      })"

definition commitment_script :: "uint256 \<Rightarrow> CScript" where
  "commitment_script h = [OP_RETURN, 0x24, 0xaa, 0x21, 0xa9, 0xed] @ h"

definition GenerateCoinbaseCommitment ::
  "(bytes \<Rightarrow> uint256) \<Rightarrow> block_map \<Rightarrow> Params \<Rightarrow> CBlock \<Rightarrow> block_ptr option \<Rightarrow> (bytes \<times> CBlock) option" where
  "GenerateCoinbaseCommitment Hash H params block pindexPrev =
     (case GetWitnessCommitmentIndex block of
        Some _ \<Rightarrow> map_option (\<lambda>block'. ([], block')) (UpdateUncommittedBlockStructures H params block pindexPrev)
      | None \<Rightarrow> do {
          witnessroot \<leftarrow> BlockWitnessMerkleRoot Hash block;
          let commitment = commitment_script (Hash (witnessroot @ replicate 32 0));
          (case vtx block of
             [] \<Rightarrow> None
           | cb # txs \<Rightarrow>
               map_option (\<lambda>block'. (commitment, block'))
                 (UpdateUncommittedBlockStructures H params
                    (block\<lparr>vtx := cb\<lparr>vout := vout cb @ [\<lparr>nValue = 0, scriptPubKey = commitment\<rparr>]\<rparr> # txs\<rparr>) pindexPrev))
        })"

section \<open>Context-free checks\<close>

definition CheckBlockHeader :: "(CBlockHeader \<Rightarrow> uint256) \<Rightarrow> CBlockHeader \<Rightarrow> Params \<Rightarrow> bool \<Rightarrow> unit block_check" where
  "CheckBlockHeader GetHash block params fCheckPOW =
     (if fCheckPOW \<and> \<not> CheckProofOfWork (GetHash block) (hdrBits block) params
      then Inl (BLOCK_INVALID_HEADER, ''high-hash'') else Inr ())"

primrec check_txs :: "CTransaction list \<Rightarrow> unit block_check option" where
  "check_txs [] = Some (Inr ())"
| "check_txs (tx # txs) =
     (case CheckTransaction tx of
        Inl (r, reason) \<Rightarrow> if r = TX_CONSENSUS then Some (Inl (BLOCK_CONSENSUS, reason)) else None
      | Inr _ \<Rightarrow> check_txs txs)"

text \<open>The size limits, the position of the coinbase, the transactions and the legacy signature operations.\<close>

definition check_block_txs :: "CBlock \<Rightarrow> unit block_check option" where
  "check_block_txs block =
     (if vtx block = [] \<or> length (vtx block) * WITNESS_SCALE_FACTOR > MAX_BLOCK_WEIGHT \<or>
         length (SerializeBlock False block) * WITNESS_SCALE_FACTOR > MAX_BLOCK_WEIGHT
      then Some (Inl (BLOCK_CONSENSUS, ''bad-blk-length''))
      else if vtx block = [] \<or> \<not> IsCoinBase (hd (vtx block)) then Some (Inl (BLOCK_CONSENSUS, ''bad-cb-missing''))
      else if list_ex IsCoinBase (tl (vtx block)) then Some (Inl (BLOCK_CONSENSUS, ''bad-cb-multiple''))
      else do {
        r \<leftarrow> check_txs (vtx block);
        (case r of
           Inl e \<Rightarrow> Some (Inl e)
         | Inr _ \<Rightarrow>
             let nSigOps = sum_list (map GetLegacySigOpCount (vtx block))
             in Some (if uint (nSigOps * of_nat WITNESS_SCALE_FACTOR) > MAX_BLOCK_SIGOPS_COST
                      then Inl (BLOCK_CONSENSUS, ''bad-blk-sigops'') else Inr ()))
      })"

definition CheckBlock ::
  "(bytes \<Rightarrow> uint256) \<Rightarrow> (CBlockHeader \<Rightarrow> uint256) \<Rightarrow> (CBlock \<Rightarrow> Params \<Rightarrow> bool) \<Rightarrow> CBlock \<Rightarrow> Params \<Rightarrow> bool \<Rightarrow> bool \<Rightarrow> CBlock block_check option" where
  "CheckBlock Hash GetHash CheckSignetBlockSolution block params fCheckPOW fCheckMerkleRoot =
     (if fChecked block then Some (Inr block)
      else case CheckBlockHeader GetHash (GetBlockHeader block) params fCheckPOW of
             Inl e \<Rightarrow> Some (Inl e)
           | Inr _ \<Rightarrow>
               if signet_blocks params \<and> fCheckPOW \<and> \<not> CheckSignetBlockSolution block params
               then Some (Inl (BLOCK_CONSENSUS, ''bad-signet-blksig''))
               else (case (if fCheckMerkleRoot then CheckMerkleRoot Hash block else Inr block) of
                       Inl e \<Rightarrow> Some (Inl e)
                     | Inr block' \<Rightarrow> do {
                         r \<leftarrow> check_block_txs block';
                         (case r of
                            Inl e \<Rightarrow> Some (Inl e)
                          | Inr _ \<Rightarrow> Some (Inr (if fCheckPOW \<and> fCheckMerkleRoot then block'\<lparr>fChecked := True\<rparr> else block')))
                       }))"

definition HasValidProofOfWork :: "(CBlockHeader \<Rightarrow> uint256) \<Rightarrow> CBlockHeader list \<Rightarrow> Params \<Rightarrow> bool" where
  "HasValidProofOfWork GetHash headers params = list_all (\<lambda>h. CheckProofOfWork (GetHash h) (hdrBits h) params) headers"

definition IsBlockMutated :: "(bytes \<Rightarrow> uint256) \<Rightarrow> CBlock \<Rightarrow> bool \<Rightarrow> bool option" where
  "IsBlockMutated Hash block check_witness_root =
     (case CheckMerkleRoot Hash block of
        Inl _ \<Rightarrow> Some True
      | Inr block' \<Rightarrow>
          if vtx block' = [] \<or> \<not> IsCoinBase (hd (vtx block'))
          then Some (list_ex (\<lambda>tx. length (SerializeTransaction False tx) = 64) (vtx block'))
          else map_option (\<lambda>r. case r of Inl _ \<Rightarrow> True | Inr _ \<Rightarrow> False) (CheckWitnessMalleation Hash block' check_witness_root))"

primrec CalculateHeadersWork :: "base_uint \<Rightarrow> CBlockHeader list \<Rightarrow> base_uint option" where
  "CalculateHeadersWork total_work [] = Some total_work"
| "CalculateHeadersWork total_work (h # hs) = do {
     work \<leftarrow> GetBlockProof (hdrBits h);
     CalculateHeadersWork (uint_add total_work work) hs
   }"

section \<open>Contextual checks\<close>

definition MAX_FUTURE_BLOCK_TIME :: int where "MAX_FUTURE_BLOCK_TIME = 2 * 60 * 60"

text \<open>The checkpoints in increasing order of height.\<close>

type_synonym CCheckpointData = "(int \<times> uint256) list"

definition GetLastCheckpoint :: "block_map \<Rightarrow> CCheckpointData \<Rightarrow> block_ptr option" where
  "GetLastCheckpoint H data = map_option snd (find (\<lambda>(h, hash). H hash \<noteq> None) (rev data))"

definition hex_digit :: "uint32 \<Rightarrow> char" where
  "hex_digit d = ''0123456789abcdef'' ! unat (d AND 0xf)"

definition bad_version :: "int \<Rightarrow> string" where
  "bad_version v =
     ''bad-version(0x'' @ map (\<lambda>i. hex_digit (drop_bit (4 * i) (word_of_int v))) (rev [0..<8]) @ '')''"

text \<open>
  The options, the current time in seconds and the checkpoints are arguments: no checkpoints are
  passed when they are disabled.
\<close>

definition ContextualCheckBlockHeader ::
  "block_map \<Rightarrow> Params \<Rightarrow> CCheckpointData \<Rightarrow> int \<Rightarrow> CBlockHeader \<Rightarrow> block_ptr option \<Rightarrow> unit block_check option" where
  "ContextualCheckBlockHeader H params checkpoints now block pindexPrev = do {
     prev \<leftarrow> pindexPrev;
     p \<leftarrow> H prev;
     let height = nHeight p + 1;
     required \<leftarrow> GetNextWorkRequired H pindexPrev block params;
     if hdrBits block \<noteq> required then Some (Inl (BLOCK_INVALID_HEADER, ''bad-diffbits''))
     else if (case GetLastCheckpoint H checkpoints of
                None \<Rightarrow> False
              | Some cp \<Rightarrow> (case H cp of None \<Rightarrow> False | Some c \<Rightarrow> height < nHeight c))
     then Some (Inl (BLOCK_CHECKPOINT, ''bad-fork-prior-to-checkpoint''))
     else do {
       mtp \<leftarrow> GetMedianTimePast H prev;
       if uint (hdrTime block) \<le> mtp then Some (Inl (BLOCK_INVALID_HEADER, ''time-too-old''))
       else if uint (hdrTime block) > now + MAX_FUTURE_BLOCK_TIME then Some (Inl (BLOCK_TIME_FUTURE, ''time-too-new''))
       else do {
         heightincb \<leftarrow> DeploymentActiveAfter H pindexPrev params DEPLOYMENT_HEIGHTINCB;
         dersig \<leftarrow> DeploymentActiveAfter H pindexPrev params DEPLOYMENT_DERSIG;
         cltv \<leftarrow> DeploymentActiveAfter H pindexPrev params DEPLOYMENT_CLTV;
         Some (if hdrVersion block < 2 \<and> heightincb \<or> hdrVersion block < 3 \<and> dersig \<or> hdrVersion block < 4 \<and> cltv
               then Inl (BLOCK_INVALID_HEADER, bad_version (hdrVersion block)) else Inr ())
       }
     }
   }"

text \<open>The rule that the coinbase starts with the serialised height (BIP 34).\<close>

definition height_in_coinbase :: "CBlock \<Rightarrow> int \<Rightarrow> bool option" where
  "height_in_coinbase block height =
     (case vtx block of
        [] \<Rightarrow> None
      | cb # _ \<Rightarrow>
          (case vin cb of
             [] \<Rightarrow> None
           | i # _ \<Rightarrow> Some (take (length (push_int64 height)) (scriptSig i) = push_int64 height)))"

definition ContextualCheckBlock ::
  "(bytes \<Rightarrow> uint256) \<Rightarrow> block_map \<Rightarrow> Params \<Rightarrow> CBlock \<Rightarrow> block_ptr option \<Rightarrow> CBlock block_check option" where
  "ContextualCheckBlock Hash H params block pindexPrev = do {
     height \<leftarrow> (case pindexPrev of None \<Rightarrow> Some 0 | Some p \<Rightarrow> map_option (\<lambda>b. nHeight b + 1) (H p));
     csv \<leftarrow> DeploymentActiveAfter H pindexPrev params DEPLOYMENT_CSV;
     nLockTimeCutoff \<leftarrow>
       (if csv then do { p \<leftarrow> pindexPrev; GetMedianTimePast H p } else Some (uint (hdrTime block)));
     if \<not> list_all (\<lambda>tx. IsFinalTx tx height nLockTimeCutoff) (vtx block)
     then Some (Inl (BLOCK_CONSENSUS, ''bad-txns-nonfinal''))
     else do {
       heightincb \<leftarrow> DeploymentActiveAfter H pindexPrev params DEPLOYMENT_HEIGHTINCB;
       ok \<leftarrow> (if heightincb then height_in_coinbase block height else Some True);
       if \<not> ok then Some (Inl (BLOCK_CONSENSUS, ''bad-cb-height''))
       else do {
         segwit \<leftarrow> DeploymentActiveAfter H pindexPrev params DEPLOYMENT_SEGWIT;
         r \<leftarrow> CheckWitnessMalleation Hash block segwit;
         (case r of
            Inl e \<Rightarrow> Some (Inl e)
          | Inr block' \<Rightarrow>
              Some (if GetBlockWeight block' > MAX_BLOCK_WEIGHT then Inl (BLOCK_CONSENSUS, ''bad-blk-weight'')
                    else Inr block'))
       }
     }
   }"

section \<open>Block serialisation\<close>

definition wf_header :: "CBlockHeader \<Rightarrow> bool" where
  "wf_header h \<longleftrightarrow> is_int32 (hdrVersion h) \<and> wf_uint256 (hashPrevBlock h) \<and> wf_uint256 (hdrMerkleRoot h)"

interpretation header: codec ser_header unser_header wf_header
proof unfold_locales
  fix s x r
  show "unser_header s = Inr (x, r) \<longleftrightarrow> wf_header x \<and> s = ser_header x @ r"
    by (cases x) (auto simp: unser_header_def ser_header_def wf_header_def ser_i32.unser_bind ser_u256.unser_bind ser32.unser_bind)
qed

definition wf_block :: "bool \<Rightarrow> CBlock \<Rightarrow> bool" where
  "wf_block w block \<longleftrightarrow> wf_header (GetBlockHeader block) \<and> length (vtx block) \<le> unat MAX_SIZE \<and> (\<forall>tx \<in> set (vtx block). wf_tx w tx) \<and>
     \<not> fChecked block \<and> \<not> m_checked_witness_commitment block \<and> \<not> m_checked_merkle_root block"

interpretation tx_list: codec "ser_vector (SerializeTransaction w)" "unser_vector (UnserializeTransaction w)"
  "\<lambda>txs. length txs \<le> unat MAX_SIZE \<and> (\<forall>tx \<in> set txs. wf_tx w tx)" for w
  by (rule codec.codec_vector) (unfold_locales, rule UnserializeTransaction_iff)

lemma block_of_parts:
  "\<not> fChecked block \<Longrightarrow> \<not> m_checked_witness_commitment block \<Longrightarrow> \<not> m_checked_merkle_root block \<Longrightarrow>
   block = (CBlock_of_header h)\<lparr>vtx := txs\<rparr> \<longleftrightarrow> GetBlockHeader block = h \<and> vtx block = txs"
  by (cases block; cases h) (auto simp: CBlock_of_header_def GetBlockHeader_def)

interpretation block: codec "SerializeBlock w" "UnserializeBlock w" "wf_block w" for w
proof unfold_locales
  fix s x r
  show "UnserializeBlock w s = Inr (x, r) \<longleftrightarrow> wf_block w x \<and> s = SerializeBlock w x @ r"
  proof (cases "fChecked x \<or> m_checked_witness_commitment x \<or> m_checked_merkle_root x")
    case True
    then show ?thesis
      by (auto simp: UnserializeBlock_def header.unser_bind tx_list.unser_bind wf_block_def CBlock_of_header_def)
  next
    case False
    then have e: "x = (CBlock_of_header h)\<lparr>vtx := txs\<rparr> \<longleftrightarrow> GetBlockHeader x = h \<and> vtx x = txs" for h txs
      using block_of_parts by blast
    show ?thesis unfolding UnserializeBlock_def header.unser_bind tx_list.unser_bind rd_return_Inr e
      using False by (auto simp: wf_block_def SerializeBlock_def)
  qed
qed

section \<open>The generated commitment\<close>

lemma commitment_loop_last:
  "commitment_loop n c (ts @ [t]) = (if is_commitment t then Some (n + length ts) else commitment_loop n c ts)"
  by (induction ts arbitrary: n c) auto

lemma is_commitment_script: "length h = 32 \<Longrightarrow> is_commitment \<lparr>nValue = v, scriptPubKey = commitment_script h\<rparr>"
  by (simp add: is_commitment_def commitment_script_def MINIMUM_WITNESS_COMMITMENT_def)

lemma commitment_verifies:
  assumes "vtx block = cb # txs" "vin cb = i # ins" "\<not> HasWitness cb" "\<not> m_checked_witness_commitment block"
    "GetWitnessCommitmentIndex block = None" "DeploymentActiveAfter H prev params DEPLOYMENT_SEGWIT = Some True"
    "\<And>x. length (Hash x) = 32"
  obtains commitment block' where "GenerateCoinbaseCommitment Hash H params block prev = Some (commitment, block')"
    "CheckWitnessMalleation Hash block' True = Some (Inr (block'\<lparr>m_checked_witness_commitment := True\<rparr>))"
    "tl (vtx block') = txs"
proof -
  obtain root where root: "BlockWitnessMerkleRoot Hash block = Some root" using assms(1) by (simp add: BlockWitnessMerkleRoot_def)
  let ?script = "commitment_script (Hash (root @ replicate 32 0))"
  let ?cb = "cb\<lparr>vout := vout cb @ [\<lparr>nValue = 0, scriptPubKey = ?script\<rparr>]\<rparr>"
  let ?b = "block\<lparr>vtx := ?cb\<lparr>vin := i\<lparr>scriptWitness := [replicate 32 0]\<rparr> # ins\<rparr> # txs\<rparr>"
  have idx: "GetWitnessCommitmentIndex (block\<lparr>vtx := ?cb # txs\<rparr>) = Some (length (vout cb))" "GetWitnessCommitmentIndex ?b = Some (length (vout cb))"
    using assms(7) by (simp_all add: GetWitnessCommitmentIndex_def commitment_loop_last is_commitment_script)
  have "\<not> HasWitness ?cb" using assms(3) by (simp add: HasWitness_def)
  then have "UpdateUncommittedBlockStructures H params (block\<lparr>vtx := ?cb # txs\<rparr>) prev = Some ?b"
    using idx(1) assms(2,6) by (simp add: UpdateUncommittedBlockStructures_def)
  then have "GenerateCoinbaseCommitment Hash H params block prev = Some (?script, ?b)"
    using assms(1,5) root by (simp add: GenerateCoinbaseCommitment_def Let_def)
  moreover have "BlockWitnessMerkleRoot Hash ?b = Some root" using root assms(1) by (simp add: BlockWitnessMerkleRoot_def)
  then have "CheckWitnessMalleation Hash ?b True = Some (Inr (?b\<lparr>m_checked_witness_commitment := True\<rparr>))"
    using idx(2) assms(4,7) by (simp add: CheckWitnessMalleation_def commitment_script_def)
  ultimately show ?thesis using that by simp
qed

section \<open>Signature operations of a block\<close>

text \<open>The counts of the scripts added without a bound on the sum.\<close>

definition legacy_sigops :: "CTransaction \<Rightarrow> nat" where
  "legacy_sigops tx =
     sum_list (map (\<lambda>i. unat (GetSigOpCount False (scriptSig i))) (vin tx)) +
     sum_list (map (\<lambda>t. unat (GetSigOpCount False (scriptPubKey t))) (vout tx))"

definition script_bytes :: "CTransaction \<Rightarrow> nat" where
  "script_bytes tx = sum_list (map (\<lambda>i. length (scriptSig i)) (vin tx)) + sum_list (map (\<lambda>t. length (scriptPubKey t)) (vout tx))"

lemma unat_sum_list: "sum_list (map unat ws) < 2 ^ 32 \<Longrightarrow> unat (sum_list (ws :: uint32 list)) = sum_list (map unat ws)"
proof (induction ws)
  case (Cons w ws)
  then have "unat (sum_list ws) = sum_list (map unat ws)" by simp
  with Cons.prems show ?case by (simp add: unat_word_ariths)
qed simp

lemma sum_list_sigops:
  assumes "20 * sum_list (map length ss) < 2 ^ 32"
  shows "sum_list (map (\<lambda>s. unat (GetSigOpCount False s)) ss) \<le> 20 * sum_list (map length ss)"
  using assms
proof (induction ss)
  case (Cons s ss)
  have "unat (GetSigOpCount False s) \<le> 20 * length s"
    using sigop_loop_bound [of 0 s False OP_INVALIDOPCODE] Cons.prems by (simp add: GetSigOpCount_def)
  with Cons show ?case by simp
qed simp

lemma legacy_sigops_bound:
  assumes "20 * script_bytes tx < 2 ^ 32"
  shows "legacy_sigops tx \<le> 20 * script_bytes tx" "unat (GetLegacySigOpCount tx) = legacy_sigops tx"
proof -
  let ?a = "map scriptSig (vin tx)" and ?b = "map scriptPubKey (vout tx)"
  have e: "script_bytes tx = sum_list (map length ?a) + sum_list (map length ?b)"
    "legacy_sigops tx = sum_list (map (\<lambda>s. unat (GetSigOpCount False s)) ?a) + sum_list (map (\<lambda>s. unat (GetSigOpCount False s)) ?b)"
    by (simp_all add: script_bytes_def legacy_sigops_def comp_def)
  have "sum_list (map (\<lambda>s. unat (GetSigOpCount False s)) ?a) \<le> 20 * sum_list (map length ?a)"
    "sum_list (map (\<lambda>s. unat (GetSigOpCount False s)) ?b) \<le> 20 * sum_list (map length ?b)"
    using assms e(1) by (intro sum_list_sigops; simp)+
  then show b: "legacy_sigops tx \<le> 20 * script_bytes tx" unfolding e by simp
  let ?ws = "map (\<lambda>i. GetSigOpCount False (scriptSig i)) (vin tx) @ map (\<lambda>t. GetSigOpCount False (scriptPubKey t)) (vout tx)"
  have "sum_list (map unat ?ws) = legacy_sigops tx" by (simp add: legacy_sigops_def comp_def)
  with unat_sum_list [of ?ws] b assms show "unat (GetLegacySigOpCount tx) = legacy_sigops tx"
    by (simp add: GetLegacySigOpCount_def)
qed

lemma length_concat_ge: "(\<And>x. f x \<le> length (g x)) \<Longrightarrow> sum_list (map f xs) \<le> length (concat (map g xs))"
  by (induction xs) (simp_all add: add_mono)

lemma script_bytes_le: "script_bytes tx \<le> length (SerializeTransaction False tx)"
proof -
  have "length (scriptSig i) \<le> length (ser_txin i)" "length (scriptPubKey t) \<le> length (ser_txout t)" for i t
    by (simp_all add: ser_txin_def ser_txout_def ser_bytes_def)
  from length_concat_ge [of "\<lambda>i. length (scriptSig i)" ser_txin "vin tx", OF this(1)]
    length_concat_ge [of "\<lambda>t. length (scriptPubKey t)" ser_txout "vout tx", OF this(2)]
  show ?thesis by (simp add: script_bytes_def SerializeTransaction_def ser_vector_def)
qed

lemma block_script_bytes_le: "sum_list (map script_bytes (vtx block)) \<le> length (SerializeBlock False block)"
  using length_concat_ge [of script_bytes "SerializeTransaction False" "vtx block", OF script_bytes_le]
  by (simp add: SerializeBlock_def ser_vector_def)

lemma block_sigops_exact:
  assumes "20 * sum_list (map script_bytes txs) < 2 ^ 32"
  shows "unat (sum_list (map GetLegacySigOpCount txs)) = sum_list (map legacy_sigops txs) \<and>
    sum_list (map legacy_sigops txs) \<le> 20 * sum_list (map script_bytes txs)"
  using assms
proof (induction txs)
  case (Cons tx txs)
  then have IH: "unat (sum_list (map GetLegacySigOpCount txs)) = sum_list (map legacy_sigops txs)"
    "sum_list (map legacy_sigops txs) \<le> 20 * sum_list (map script_bytes txs)" by simp_all
  have "20 * script_bytes tx < 2 ^ 32" using Cons.prems by simp
  from legacy_sigops_bound [OF this] IH Cons.prems show ?case by (simp add: unat_word_ariths)
qed simp

lemma check_txs_iff: "check_txs txs = Some (Inr ()) \<longleftrightarrow> (\<forall>tx \<in> set txs. CheckTransaction tx = Inr ())"
proof (induction txs)
  case (Cons tx txs)
  then show ?case by (cases "CheckTransaction tx") (auto split: if_splits)
qed simp

lemma check_block_txs_iff:
  "check_block_txs block = Some (Inr ()) \<longleftrightarrow>
     vtx block \<noteq> [] \<and> length (vtx block) * 4 \<le> 4000000 \<and> length (SerializeBlock False block) * 4 \<le> 4000000 \<and>
     IsCoinBase (hd (vtx block)) \<and> (\<forall>tx \<in> set (tl (vtx block)). \<not> IsCoinBase tx) \<and>
     (\<forall>tx \<in> set (vtx block). CheckTransaction tx = Inr ()) \<and>
     uint (sum_list (map GetLegacySigOpCount (vtx block)) * 4) \<le> 80000"
proof -
  let ?big = "vtx block = [] \<or> length (vtx block) * WITNESS_SCALE_FACTOR > MAX_BLOCK_WEIGHT \<or>
         length (SerializeBlock False block) * WITNESS_SCALE_FACTOR > MAX_BLOCK_WEIGHT"
  let ?pos = "IsCoinBase (hd (vtx block)) \<and> \<not> list_ex IsCoinBase (tl (vtx block))"
  let ?cost = "uint (sum_list (map GetLegacySigOpCount (vtx block)) * of_nat WITNESS_SCALE_FACTOR) > MAX_BLOCK_SIGOPS_COST"
  have "check_block_txs block = Some (Inr ()) \<longleftrightarrow> \<not> ?big \<and> ?pos \<and> check_txs (vtx block) = Some (Inr ()) \<and> \<not> ?cost"
  proof (cases "?big \<or> \<not> ?pos")
    case True
    then show ?thesis unfolding check_block_txs_def by (simp only: split: if_splits) auto
  next
    case False
    then have c: "?big = False" "(vtx block = [] \<or> \<not> IsCoinBase (hd (vtx block))) = False" "list_ex IsCoinBase (tl (vtx block)) = False" by blast+
    have "check_block_txs block = check_txs (vtx block) \<bind> (\<lambda>r. case r of Inl e \<Rightarrow> Some (Inl e)
         | Inr _ \<Rightarrow> Some (if ?cost then Inl (BLOCK_CONSENSUS, ''bad-blk-sigops'') else Inr ()))"
      unfolding check_block_txs_def Let_def c if_False ..
    then show ?thesis using False
      by (cases "check_txs (vtx block)"; cases "the (check_txs (vtx block))") simp_all
  qed
  then show ?thesis unfolding check_txs_iff
    by (simp add: WITNESS_SCALE_FACTOR_def MAX_BLOCK_WEIGHT_def MAX_BLOCK_SIGOPS_COST_def list_ex_iff not_less)
qed

lemma check_block_txs_sigops:
  assumes "check_block_txs block = Some (Inr ())"
  shows "sum_list (map legacy_sigops (vtx block)) \<le> 20000"
proof -
  let ?n = "sum_list (map GetLegacySigOpCount (vtx block))"
  have len: "length (SerializeBlock False block) \<le> 1000000" and cost: "uint (?n * 4) \<le> 80000"
    using assms unfolding check_block_txs_iff by auto
  have "20 * sum_list (map script_bytes (vtx block)) < 2 ^ 32" using len block_script_bytes_le [of block] by simp
  from block_sigops_exact [OF this] have e: "unat ?n = sum_list (map legacy_sigops (vtx block))"
    "unat ?n \<le> 20000000" using len block_script_bytes_le [of block] by simp_all
  have "unat (?n * 4) = unat ?n * 4" using e(2) by (simp add: unat_word_ariths)
  moreover have "int (unat (?n * 4)) = uint (?n * 4)" by simp
  ultimately show ?thesis using e(1) cost by linarith
qed

lemma CheckTransaction_consensus: "CheckTransaction tx = Inl (r, reason) \<Longrightarrow> r = TX_CONSENSUS"
proof -
  have "check_outputs n ts = Inl (r, reason) \<Longrightarrow> r = TX_CONSENSUS" for n ts
    by (induction ts arbitrary: n) (auto split: if_splits)
  then show "CheckTransaction tx = Inl (r, reason) \<Longrightarrow> r = TX_CONSENSUS"
    by (auto simp: CheckTransaction_def split: if_splits sum.splits)
qed

lemma check_txs_total: "\<exists>r. check_txs txs = Some r"
proof (induction txs)
  case (Cons tx txs)
  then show ?case using CheckTransaction_consensus [of tx] by (auto split: sum.split)
qed simp

lemma check_block_txs_total: "\<exists>r. check_block_txs block = Some r"
  using check_txs_total [of "vtx block"] by (auto simp: check_block_txs_def split: sum.split)

lemma check_block_txs_cases:
  obtains (ok) "check_block_txs block = Some (Inr ())" | (bad) e where "check_block_txs block = Some (Inl e)"
  using check_block_txs_total [of block] by (metis (full_types) old.unit.exhaust sum.exhaust)

section \<open>Properties\<close>

text \<open>
  C13: \<open>CheckBlock\<close>. On a block that was not checked before, with the proof of work and the Merkle
  root to be checked and outside a signet, no assertion fails, and the block is accepted exactly
  when its hash satisfies its target, its Merkle root matches without mutation, it is within the
  size limits, its first and only its first transaction is a coinbase, every transaction passes
  \<open>CheckTransaction\<close>, and its signature operations, whose 32-bit sum does not wrap, are at most
  20000.
\<close>

theorem CheckBlock_correct:
  assumes "\<not> fChecked block" "\<not> m_checked_merkle_root block" "\<not> signet_blocks params"
  shows "\<exists>r. CheckBlock Hash GetHash signet block params True True = Some r \<and>
     (\<forall>block'. r = Inr block' \<longleftrightarrow>
        block' = block\<lparr>m_checked_merkle_root := True, fChecked := True\<rparr> \<and>
        CheckProofOfWork (GetHash (GetBlockHeader block)) (hdrBits block) params \<and>
        BlockMerkleRoot Hash block = (hdrMerkleRoot block, False) \<and>
        vtx block \<noteq> [] \<and> length (SerializeBlock False block) \<le> 1000000 \<and>
        IsCoinBase (hd (vtx block)) \<and> (\<forall>tx \<in> set (tl (vtx block)). \<not> IsCoinBase tx) \<and>
        (\<forall>tx \<in> set (vtx block). CheckTransaction tx = Inr ()) \<and>
        sum_list (map legacy_sigops (vtx block)) \<le> 20000)"
  (is "\<exists>r. _ = Some r \<and> (\<forall>block'. _ \<longleftrightarrow> _ \<and> ?pow \<and> ?root \<and> ?txs)")
proof -
  let ?b = "block\<lparr>m_checked_merkle_root := True\<rparr>"
  have txs: "check_block_txs ?b = Some (Inr ()) \<longleftrightarrow> ?txs" (is "?l \<longleftrightarrow> ?r")
  proof
    assume ?l
    then show ?r using check_block_txs_sigops [of ?b]
      by (auto simp: check_block_txs_iff SerializeBlock_def GetBlockHeader_def)
  next
    assume r: ?r
    have "20 * sum_list (map script_bytes (vtx block)) < 2 ^ 32" using r block_script_bytes_le [of block] by simp
    from block_sigops_exact [OF this] r have "unat (sum_list (map GetLegacySigOpCount (vtx block))) \<le> 20000" by simp
    then have "unat (sum_list (map GetLegacySigOpCount (vtx block)) * 4) \<le> 80000" by (simp add: unat_word_ariths)
    moreover have "int (unat (sum_list (map GetLegacySigOpCount (vtx block)) * 4)) = uint (sum_list (map GetLegacySigOpCount (vtx block)) * 4)" by simp
    ultimately have "uint (sum_list (map GetLegacySigOpCount (vtx block)) * 4) \<le> 80000" by linarith
    moreover have "length (vtx block) \<le> 1000000"
      using r length_concat_ge [of "\<lambda>_. 1" "SerializeTransaction False" "vtx block"]
      by (simp add: SerializeBlock_def ser_vector_def SerializeTransaction_def ser_int32_def ser_word_def sum_list_triv)
    ultimately show ?l using r by (auto simp: check_block_txs_iff SerializeBlock_def GetBlockHeader_def)
  qed
  show ?thesis
  proof (cases "?pow \<and> ?root")
    case False
    then show ?thesis using assms
      by (cases "BlockMerkleRoot Hash block") (auto simp: CheckBlock_def CheckBlockHeader_def CheckMerkleRoot_def GetBlockHeader_def)
  next
    case True
    then have "CheckBlock Hash GetHash signet block params True True = check_block_txs ?b \<bind>
       (\<lambda>r. case r of Inl e \<Rightarrow> Some (Inl e) | Inr _ \<Rightarrow> Some (Inr (?b\<lparr>fChecked := True\<rparr>)))"
      using assms by (simp add: CheckBlock_def CheckBlockHeader_def CheckMerkleRoot_def GetBlockHeader_def)
    then show ?thesis using True txs by (cases rule: check_block_txs_cases [of ?b]) auto
  qed
qed

text \<open>A block with one coinbase, under a constant hash function.\<close>

definition example_block :: CBlock where
  "example_block = (CBlock_of_header ((example_header (example_hash 1) 2000)\<lparr>hdrMerkleRoot := example_hash 9\<rparr>))\<lparr>vtx := [example_coinbase]\<rparr>"

definition example_params :: Params where
  "example_params = CMainParams (example_hash 3)"

lemma example_block_parts:
  "vtx example_block = [example_coinbase]" "\<not> fChecked example_block" "\<not> m_checked_merkle_root example_block"
  "\<not> m_checked_witness_commitment example_block" "hdrMerkleRoot example_block = example_hash 9"
  by (simp_all add: example_block_def CBlock_of_header_def)

lemma example_block_checks:
  "IsCoinBase example_coinbase" "CheckTransaction example_coinbase = Inr ()" "length (SerializeBlock False example_block) = 143"
  "legacy_sigops example_coinbase \<le> 40"
proof -
  show cb: "IsCoinBase example_coinbase"
    by (simp add: IsCoinBase_def example_coinbase_def outpoint_IsNull_def IsNull_def uint256_zero_def list_all_iff)
  then show "CheckTransaction example_coinbase = Inr ()" unfolding CheckTransaction_iff length_example_coinbase
    by (simp add: example_coinbase_def MoneyRange_def MAX_MONEY_def COIN_def)
  show "length (SerializeBlock False example_block) = 143"
    using length_example_coinbase by (simp add: SerializeBlock_def ser_vector_def example_block_parts ser_header_def GetBlockHeader_def
      example_block_def CBlock_of_header_def example_header_def length_WriteCompactSize GetSizeOfCompactSize_def ser_word_def ser_int32_def example_hash_def)
  show "legacy_sigops example_coinbase \<le> 40"
    using legacy_sigops_bound(1) [of example_coinbase] by (simp add: script_bytes_def example_coinbase_def)
qed

theorem CheckBlock_correct_witness:
  "CheckBlock (\<lambda>_. example_hash 9) (\<lambda>_. example_hash 3) (\<lambda>_ _. False) example_block example_params True True =
     Some (Inr (example_block\<lparr>m_checked_merkle_root := True, fChecked := True\<rparr>))"
proof -
  have "BlockMerkleRoot (\<lambda>_. example_hash 9) example_block = (hdrMerkleRoot example_block, False)"
    by (simp add: BlockMerkleRoot_def example_block_parts ComputeMerkleRoot_def merkle_loop.simps tx_GetHash_def)
  moreover have "CheckProofOfWork (example_hash 3) (hdrBits example_block) example_params" "\<not> signet_blocks example_params"
    by (simp_all add: CheckProofOfWork_def example_params_def CMainParams_def)
  ultimately show ?thesis
    using CheckBlock_correct [OF example_block_parts(2,3), of example_params "\<lambda>_. example_hash 9" "\<lambda>_. example_hash 3" "\<lambda>_ _. False"]
      example_block_checks by (auto simp: example_block_parts(1))
qed

text \<open>
  The generated witness commitment verifies. For a block without a commitment and with a
  coinbase that has an input and no witness, when segregated witness is active for the block,
  \<open>GenerateCoinbaseCommitment\<close> returns a block with the same other transactions that passes
  \<open>CheckWitnessMalleation\<close>, for any hash function with 32-byte results.
\<close>

theorem commitment_round_trip:
  assumes "vtx block = cb # txs" "vin cb = i # ins" "\<not> HasWitness cb" "\<not> m_checked_witness_commitment block"
    "GetWitnessCommitmentIndex block = None" "DeploymentActiveAfter H prev params DEPLOYMENT_SEGWIT = Some True"
    "\<And>x. length (Hash x) = 32"
  shows "\<exists>commitment block'. GenerateCoinbaseCommitment Hash H params block prev = Some (commitment, block') \<and>
    CheckWitnessMalleation Hash block' True = Some (Inr (block'\<lparr>m_checked_witness_commitment := True\<rparr>)) \<and> tl (vtx block') = txs"
proof -
  from commitment_verifies [OF assms] obtain commitment block' where
    "GenerateCoinbaseCommitment Hash H params block prev = Some (commitment, block')"
    "CheckWitnessMalleation Hash block' True = Some (Inr (block'\<lparr>m_checked_witness_commitment := True\<rparr>))" "tl (vtx block') = txs" .
  then show ?thesis by blast
qed

theorem commitment_round_trip_witness:
  "\<exists>commitment block'. GenerateCoinbaseCommitment (\<lambda>_. example_hash 9) Map.empty example_params example_block None = Some (commitment, block') \<and>
    CheckWitnessMalleation (\<lambda>_. example_hash 9) block' True = Some (Inr (block'\<lparr>m_checked_witness_commitment := True\<rparr>)) \<and> tl (vtx block') = []"
proof (rule commitment_round_trip [OF example_block_parts(1) _ _ example_block_parts(4)])
  show "GetWitnessCommitmentIndex example_block = None"
    by (simp add: GetWitnessCommitmentIndex_def example_block_parts(1) example_coinbase_def is_commitment_def)
  show "DeploymentActiveAfter Map.empty None example_params DEPLOYMENT_SEGWIT = Some True"
    by (simp add: DeploymentActiveAfter_def example_params_def CMainParams_def)
qed (simp_all add: example_coinbase_def HasWitness_def example_hash_def)

text \<open>
  The block codec. With and without witness data \<open>UnserializeBlock\<close> accepts exactly the
  serialisations of well-formed blocks with cleared caching flags, followed by any rest.
\<close>

theorem block_codec:
  "UnserializeBlock w s = Inr (x, r) \<longleftrightarrow> wf_block w x \<and> s = SerializeBlock w x @ r"
  by (rule block.unser_iff)

end
