(* ===== verification/Header_Accept.thy ===== *)
theory Header_Accept
  imports Block_Check
begin

text \<open>
  Acceptance of headers into the block index: \<open>AcceptBlockHeader\<close> and
  \<open>ProcessNewBlockHeaders\<close> of the \<open>ChainstateManager\<close>, and \<open>InvalidBlockFound\<close> and
  \<open>InvalidChainFound\<close> of the \<open>Chainstate\<close>, from \<open>src/validation.cpp\<close>. The state of the manager is
  a record, the header chains that these operations can build are a step relation, and the
  invariant of the section on reachable states is what every index entry satisfies. Logging and
  notifications are left out.
\<close>

section \<open>State\<close>

text \<open>
  The members of \<open>ChainstateManager\<close> and of \<open>Chainstate\<close> that these operations use. The set
  \<open>m_failed_blocks\<close> is kept in the order of its iteration.
\<close>

record ChainstateManager =
  m_blockman :: BlockManager
  m_best_header :: "block_ptr option"
  m_failed_blocks :: "block_ptr list"
  m_best_invalid :: "block_ptr option"

record Chainstate =
  m_chain :: CChain
  setBlockIndexCandidates :: "block_ptr set"

definition IndexBlockHeader :: "CBlockIndex \<Rightarrow> CBlockHeader" where
  "IndexBlockHeader b =
     \<lparr>hdrVersion = nVersion b, hashPrevBlock = (case pprev b of None \<Rightarrow> uint256_zero | Some q \<Rightarrow> q),
      hdrMerkleRoot = hashMerkleRoot b, hdrTime = nTime b, hdrBits = nBits b, hdrNonce = nNonce b\<rparr>"

section \<open>Operations\<close>

text \<open>A bit of the status of an entry is set and the entry is marked as changed.\<close>

definition set_status :: "uint32 \<Rightarrow> block_ptr \<Rightarrow> BlockManager \<Rightarrow> BlockManager option" where
  "set_status flag p bm =
     map_option (\<lambda>b. bm\<lparr>m_block_index := (m_block_index bm)(p \<mapsto> b\<lparr>nStatus := nStatus b OR flag\<rparr>),
                        m_dirty_blockindex := insert p (m_dirty_blockindex bm)\<rparr>) (m_block_index bm p)"

text \<open>The blocks between a failed block and its descendant are marked.\<close>

partial_function (option) mark_failed_walk :: "block_ptr \<Rightarrow> BlockManager \<times> block_ptr \<Rightarrow> BlockManager option" where
  "mark_failed_walk failedit s =
     (case s of (bm, invalid_walk) \<Rightarrow>
        if invalid_walk = failedit then Some bm
        else do {
          bm' \<leftarrow> set_status BLOCK_FAILED_CHILD invalid_walk bm;
          b \<leftarrow> m_block_index bm' invalid_walk;
          q \<leftarrow> pprev b;
          mark_failed_walk failedit (bm', q)
        })"

text \<open>The search for a failed ancestor: the block manager with the marks, if there is one.\<close>

primrec failed_ancestor :: "BlockManager \<Rightarrow> block_ptr \<Rightarrow> block_ptr list \<Rightarrow> BlockManager option option" where
  "failed_ancestor bm pindexPrev [] = Some None"
| "failed_ancestor bm pindexPrev (failedit # fs) = do {
     f \<leftarrow> m_block_index bm failedit;
     a \<leftarrow> GetAncestor (m_block_index bm) pindexPrev (nHeight f);
     if a = Some failedit
     then if nStatus f AND BLOCK_FAILED_VALID = 0 then None
          else map_option Some (mark_failed_walk failedit (bm, pindexPrev))
     else failed_ancestor bm pindexPrev fs
   }"

text \<open>The checks of a new header other than the genesis header's.\<close>

definition check_new_header ::
  "(CBlockHeader \<Rightarrow> uint256) \<Rightarrow> Params \<Rightarrow> CCheckpointData \<Rightarrow> int \<Rightarrow> ChainstateManager \<Rightarrow> CBlockHeader \<Rightarrow>
   (unit block_check \<times> ChainstateManager) option" where
  "check_new_header GetHash params checkpoints now cm block =
     (let H = m_block_index (m_blockman cm) in
      case CheckBlockHeader GetHash block params True of
        Inl e \<Rightarrow> Some (Inl e, cm)
      | Inr _ \<Rightarrow>
          (case H (hashPrevBlock block) of
             None \<Rightarrow> Some (Inl (BLOCK_MISSING_PREV, ''prev-blk-not-found''), cm)
           | Some prev \<Rightarrow>
               if nStatus prev AND BLOCK_FAILED_MASK \<noteq> 0
               then Some (Inl (BLOCK_INVALID_PREV, ''bad-prevblk''), cm)
               else do {
                 r \<leftarrow> ContextualCheckBlockHeader H params checkpoints now block (Some (hashPrevBlock block));
                 (case r of
                    Inl e \<Rightarrow> Some (Inl e, cm)
                  | Inr _ \<Rightarrow> do {
                      valid \<leftarrow> IsValid prev BLOCK_VALID_SCRIPTS;
                      marked \<leftarrow> (if valid then Some None
                                else failed_ancestor (m_blockman cm) (hashPrevBlock block) (m_failed_blocks cm));
                      Some (case marked of
                              None \<Rightarrow> (Inr (), cm)
                            | Some bm \<Rightarrow> (Inl (BLOCK_INVALID_PREV, ''bad-prevblk''), cm\<lparr>m_blockman := bm\<rparr>))
                    })
               }))"

text \<open>The result is the entry that \<open>ppindex\<close> is set to, if it is, the verdict and the new state.\<close>

definition AcceptBlockHeader ::
  "(CBlockHeader \<Rightarrow> uint256) \<Rightarrow> Params \<Rightarrow> CCheckpointData \<Rightarrow> int \<Rightarrow> ChainstateManager \<Rightarrow> CBlockHeader \<Rightarrow> bool \<Rightarrow>
   (block_ptr option \<times> unit block_check \<times> ChainstateManager) option" where
  "AcceptBlockHeader GetHash params checkpoints now cm block min_pow_checked =
     (let hash = GetHash block in
      case (if hash \<noteq> hashGenesisBlock params then m_block_index (m_blockman cm) hash else None) of
        Some b \<Rightarrow>
          Some (Some hash,
                if nStatus b AND BLOCK_FAILED_MASK \<noteq> 0 then Inl (BLOCK_CACHED_INVALID, ''duplicate'') else Inr (), cm)
      | None \<Rightarrow> do {
          (r, cm') \<leftarrow> (if hash \<noteq> hashGenesisBlock params
                      then check_new_header GetHash params checkpoints now cm block else Some (Inr (), cm));
          (case r of
             Inl e \<Rightarrow> Some (None, Inl e, cm')
           | Inr _ \<Rightarrow>
               if \<not> min_pow_checked
               then Some (None, Inl (BLOCK_HEADER_LOW_WORK, ''too-little-chainwork''), cm')
               else do {
                 (pindex, bm, best) \<leftarrow> AddToBlockIndex GetHash (m_blockman cm') (m_best_header cm') block;
                 Some (Some pindex, Inr (), cm'\<lparr>m_blockman := bm, m_best_header := best\<rparr>)
               })
        })"

text \<open>The headers of a message in order, up to the first that is rejected.\<close>

primrec ProcessNewBlockHeaders ::
  "(CBlockHeader \<Rightarrow> uint256) \<Rightarrow> Params \<Rightarrow> CCheckpointData \<Rightarrow> int \<Rightarrow> bool \<Rightarrow> block_ptr option \<Rightarrow> ChainstateManager \<Rightarrow>
   CBlockHeader list \<Rightarrow> (block_ptr option \<times> unit block_check \<times> ChainstateManager) option" where
  "ProcessNewBlockHeaders GetHash params checkpoints now min_pow_checked ppindex cm [] = Some (ppindex, Inr (), cm)"
| "ProcessNewBlockHeaders GetHash params checkpoints now min_pow_checked ppindex cm (header # headers) = do {
     (pindex, r, cm') \<leftarrow> AcceptBlockHeader GetHash params checkpoints now cm header min_pow_checked;
     (case r of
        Inl e \<Rightarrow> Some (ppindex, Inl e, cm')
      | Inr _ \<Rightarrow> ProcessNewBlockHeaders GetHash params checkpoints now min_pow_checked pindex cm' headers)
   }"

definition InvalidChainFound :: "CChain \<Rightarrow> ChainstateManager \<Rightarrow> block_ptr \<Rightarrow> ChainstateManager option" where
  "InvalidChainFound chain cm pindexNew = do {
     let H = m_block_index (m_blockman cm);
     b \<leftarrow> H pindexNew;
     worse \<leftarrow> (case m_best_invalid cm of
                 None \<Rightarrow> Some True
               | Some p \<Rightarrow> map_option (\<lambda>x. uint_lt (nChainWork x) (nChainWork b)) (H p));
     on_best \<leftarrow> (case m_best_header cm of
                   None \<Rightarrow> Some False
                 | Some h \<Rightarrow> map_option (\<lambda>a. a = Some pindexNew) (GetAncestor H h (nHeight b)));
     tip \<leftarrow> Tip chain;
     Some (cm\<lparr>m_best_invalid := (if worse then Some pindexNew else m_best_invalid cm),
              m_best_header := (if on_best then Some tip else m_best_header cm)\<rparr>)
   }"

definition InvalidBlockFound ::
  "Chainstate \<Rightarrow> ChainstateManager \<Rightarrow> block_ptr \<Rightarrow> BlockValidationResult \<Rightarrow> (Chainstate \<times> ChainstateManager) option" where
  "InvalidBlockFound cs cm pindex result =
     (if result = BLOCK_MUTATED then Some (cs, cm)
      else do {
        bm \<leftarrow> set_status BLOCK_FAILED_VALID pindex (m_blockman cm);
        cm' \<leftarrow> InvalidChainFound (m_chain cs)
                (cm\<lparr>m_blockman := bm, m_failed_blocks := List.insert pindex (m_failed_blocks cm)\<rparr>) pindex;
        Some (cs\<lparr>setBlockIndexCandidates := setBlockIndexCandidates cs - {pindex}\<rparr>, cm')
      })"

section \<open>Growing indexes\<close>

text \<open>
  The members of an entry that no operation changes once the entry is in the index, and the
  order on indexes in which entries keep them: what a walk along the index has found stays true.
\<close>

definition core :: "CBlockIndex \<Rightarrow> CBlockIndex" where
  "core b = b\<lparr>nStatus := 0, nTx := 0, nChainTx := 0, nSequenceId := 0\<rparr>"

definition index_le :: "block_map \<Rightarrow> block_map \<Rightarrow> bool" where
  "index_le H H' \<longleftrightarrow> (\<forall>p b. H p = Some b \<longrightarrow> (\<exists>b'. H' p = Some b' \<and> core b' = core b))"

lemma core_eqD:
  assumes "core b' = core b"
  shows "pprev b' = pprev b" "pskip b' = pskip b" "nHeight b' = nHeight b" "nChainWork b' = nChainWork b"
    "nTime b' = nTime b" "nBits b' = nBits b" "GetBlockTime b' = GetBlockTime b"
    "IndexBlockHeader b' = IndexBlockHeader b"
  using assms by (cases b; cases b'; simp add: core_def GetBlockTime_def IndexBlockHeader_def)+

lemma core_status [simp]: "core (b\<lparr>nStatus := st\<rparr>) = core b"
  by (simp add: core_def)

lemma index_leD:
  assumes "index_le H H'" "H p = Some b"
  obtains b' where "H' p = Some b'" "core b' = core b"
  using assms unfolding index_le_def by blast

lemma index_le_refl [simp]: "index_le H H"
  by (simp add: index_le_def)

lemma index_le_trans: "index_le H H' \<Longrightarrow> index_le H' H'' \<Longrightarrow> index_le H H''"
  unfolding index_le_def by metis

lemma index_le_insert: "H p = None \<Longrightarrow> index_le H (H(p \<mapsto> b))"
  by (auto simp: index_le_def)

lemma prev_n_le: "index_le H H' \<Longrightarrow> prev_n H n p = Some q \<Longrightarrow> prev_n H' n p = Some q"
proof (induction n arbitrary: p)
  case (Suc n)
  then obtain b r where b: "H p = Some b" "pprev b = Some r" "prev_n H n r = Some q"
    by (auto split: bind_splits)
  from index_leD [OF Suc.prems(1) b(1)] obtain b' where b': "H' p = Some b'" "core b' = core b" .
  with Suc.IH [OF Suc.prems(1) b(3)] b(2) show ?case by (simp add: core_eqD(1) [OF b'(2)])
qed simp

lemma ancestor_walk_le:
  "index_le H H' \<Longrightarrow> ancestor_walk H p hw h = Some q \<Longrightarrow> ancestor_walk H' p hw h = Some q"
proof (induction H p hw h rule: ancestor_walk.induct)
  case (1 H p hw h)
  show ?case
  proof (cases "0 \<le> h \<and> hw > h")
    case False
    then have "ancestor_walk G p hw h = Some p" for G by (subst ancestor_walk.simps) (simp only: if_False)
    with 1(5) show ?thesis by simp
  next
    case True
    with 1(5) obtain b where b: "H p = Some b"
      by (auto simp: ancestor_walk.simps [of _ p hw h] split: option.splits)
    from index_leD [OF 1(4) b(1)] obtain b' where b': "H' p = Some b'" "core b' = core b" .
    let ?sk = "GetSkipHeight hw" and ?pv = "GetSkipHeight (hw - 1)"
    let ?c = "?sk = h \<or> (?sk > h \<and> \<not> (?pv < ?sk - 2 \<and> ?pv \<ge> h))"
    have walk: "ancestor_walk G p hw h =
        (case pskip b of
           Some s \<Rightarrow> if ?c then ancestor_walk G s ?sk h
                     else (case pprev b of None \<Rightarrow> None | Some q \<Rightarrow> ancestor_walk G q (hw - 1) h)
         | None \<Rightarrow> (case pprev b of None \<Rightarrow> None | Some q \<Rightarrow> ancestor_walk G q (hw - 1) h))"
      if "G p = Some c" "core c = core b" for G c
      using that True by (subst ancestor_walk.simps) (simp only: if_True Let_def option.case core_eqD [OF that(2)] simp_thms)
    show ?thesis
      using 1(5) 1(1) [OF True b refl refl _ _ 1(4)] 1(2) [OF True b refl refl _ _ 1(4)] 1(3) [OF True b refl refl _ _ _ 1(4)]
      unfolding walk [of H b, OF b refl] walk [of H' b', OF b']
      by (cases "pskip b"; cases "pprev b") (auto split: if_splits)
  qed
qed

lemma GetAncestor_le:
  assumes "index_le H H'" "GetAncestor H p h = Some a"
  shows "GetAncestor H' p h = Some a"
proof -
  from assms(2) obtain b where b: "H p = Some b" by (auto simp: GetAncestor_def split: option.splits)
  from index_leD [OF assms(1) b] obtain b' where b': "H' p = Some b'" "core b' = core b" .
  from assms(2) b b' ancestor_walk_le [OF assms(1), of p "nHeight b" h] show ?thesis
    by (auto simp: GetAncestor_def core_eqD [OF b'(2)] split: if_splits)
qed

lemma median_times_le:
  "index_le H H' \<Longrightarrow> median_times H n p acc = Some l \<Longrightarrow> median_times H' n p acc = Some l"
proof (induction n arbitrary: p acc)
  case (Suc n)
  show ?case
  proof (cases p)
    case (Some q)
    with Suc.prems(2) obtain b where b: "H q = Some b" by (auto split: bind_splits)
    from index_leD [OF Suc.prems(1) b] obtain b' where b': "H' q = Some b'" "core b' = core b" .
    with Suc.IH [OF Suc.prems(1), of "pprev b" "GetBlockTime b # acc"] Suc.prems(2) Some b show ?thesis
      by (simp add: core_eqD [OF b'(2)])
  qed (use Suc.prems in simp)
qed simp

lemma GetMedianTimePast_le:
  "index_le H H' \<Longrightarrow> GetMedianTimePast H p = Some m \<Longrightarrow> GetMedianTimePast H' p = Some m"
  using median_times_le [of H H' nMedianTimeSpan "Some p" "[]"]
  by (auto simp: GetMedianTimePast_def split: bind_splits)

lemma min_difficulty_walk_le:
  assumes "index_le H H'" "min_difficulty_walk H il p = Some r"
  shows "min_difficulty_walk H' il p = Some r"
proof -
  have "index_le H H' \<longrightarrow> min_difficulty_walk H' il p = Some r"
  proof (rule min_difficulty_walk.raw_induct [OF _ assms(2)], rule impI)
    fix f H il p r
    assume IH: "\<And>H il p r. f H il p = Some r \<Longrightarrow> index_le H H' \<longrightarrow> min_difficulty_walk H' il p = Some r"
      and step: "H p \<bind> (\<lambda>b. case pprev b of None \<Rightarrow> Some (nBits b)
        | Some q \<Rightarrow> if nHeight b smod fst il \<noteq> 0 \<and> nBits b = snd il then f H il q else Some (nBits b)) = Some r"
      and le: "index_le H H'"
    from step obtain b where b: "H p = Some b" by (auto split: bind_splits)
    from index_leD [OF le b] obtain b' where b': "H' p = Some b'" "core b' = core b" .
    show "min_difficulty_walk H' il p = Some r"
      using IH le step b b'(1)
      by (subst min_difficulty_walk.simps) (auto simp: core_eqD [OF b'(2)] split: option.splits if_splits)
  qed
  with assms(1) show ?thesis by blast
qed

lemma first_block_le:
  assumes "index_le H H'" "do { anc \<leftarrow> GetAncestor H p h; pf \<leftarrow> anc; f \<leftarrow> H pf; k (GetBlockTime f) } = Some r"
  shows "do { anc \<leftarrow> GetAncestor H' p h; pf \<leftarrow> anc; f \<leftarrow> H' pf; k (GetBlockTime f) } = Some r"
proof -
  from assms(2) obtain pf f where f: "GetAncestor H p h = Some (Some pf)" "H pf = Some f" "k (GetBlockTime f) = Some r"
    by (auto split: bind_splits)
  from index_leD [OF assms(1) f(2)] obtain f' where "H' pf = Some f'" "core f' = core f" .
  with GetAncestor_le [OF assms(1) f(1)] f(3) core_eqD(7) [of f' f] show ?thesis by simp
qed

lemma GetNextWorkRequired_le:
  assumes "index_le H H'" "GetNextWorkRequired H (Some q) block params = Some r"
  shows "GetNextWorkRequired H' (Some q) block params = Some r"
proof -
  from assms(2) obtain b where b: "H q = Some b" by (auto simp: GetNextWorkRequired_def split: bind_splits)
  from index_leD [OF assms(1) b] obtain b' where b': "H' q = Some b'" "core b' = core b" .
  have calc: "CalculateNextWorkRequired b' t params = CalculateNextWorkRequired b t params" for t
    by (simp add: CalculateNextWorkRequired_def core_eqD [OF b'(2)])
  from assms(2) obtain limit interval where li: "GetCompact (UintToArith256 (powLimit params)) False = Some limit"
    "BBGetRetargetInterval (nHeight b + 1) params = Some interval" "interval \<noteq> 0"
    using b by (auto simp: GetNextWorkRequired_def split: bind_splits if_splits)
  show ?thesis
    using assms(2) b b'(1) li first_block_le [OF assms(1), of q _ "\<lambda>t. CalculateNextWorkRequired b t params" r]
      min_difficulty_walk_le [OF assms(1), of "(interval, limit)" q r]
    by (simp add: GetNextWorkRequired_def calc core_eqD [OF b'(2)] Let_def split: if_splits)
qed

section \<open>Changes of the status\<close>

text \<open>Two indexes that differ in the status of entries and the other mutable members only.\<close>

definition index_eq :: "block_map \<Rightarrow> block_map \<Rightarrow> bool" where
  "index_eq H H' \<longleftrightarrow> (\<forall>p. map_option core (H' p) = map_option core (H p))"

lemma index_eq_refl [simp]: "index_eq H H"
  by (simp add: index_eq_def)

lemma index_eq_trans: "index_eq H H' \<Longrightarrow> index_eq H' H'' \<Longrightarrow> index_eq H H''"
  by (simp add: index_eq_def)

lemma index_eq_sym: "index_eq H H' \<Longrightarrow> index_eq H' H"
  by (simp add: index_eq_def)

lemma index_eq_le:
  assumes "index_eq H H'"
  shows "index_le H H'"
  unfolding index_le_def
proof (intro allI impI)
  fix p b assume b: "H p = Some b"
  show "\<exists>b'. H' p = Some b' \<and> core b' = core b"
    using assms [unfolded index_eq_def, rule_format, of p] b by (cases "H' p") auto
qed

lemma index_eqD:
  assumes "index_eq H H'" "H' p = Some b'"
  obtains b where "H p = Some b" "core b' = core b"
  using index_leD [OF index_eq_le [OF index_eq_sym [OF assms(1)]] assms(2)] by metis

lemma index_eq_None: "index_eq H H' \<Longrightarrow> H' p = None \<longleftrightarrow> H p = None"
  unfolding index_eq_def by (metis map_option_is_None)

lemma index_eq_prev_n: "index_eq H H' \<Longrightarrow> prev_n H' n p = prev_n H n p"
proof (rule prev_n_pprev_cong [symmetric])
  fix p assume e: "index_eq H H'"
  show "map_option pprev (H p) = map_option pprev (H' p)"
    using e [unfolded index_eq_def, rule_format, of p] by (cases "H p"; cases "H' p") (auto dest: core_eqD(1))
qed

lemma index_eq_wf:
  assumes eq: "index_eq H H'" and wf: "wf_index H"
  shows "wf_index H'"
  unfolding wf_index_def
proof (intro allI impI)
  fix p b' assume b': "H' p = Some b'"
  obtain b where b: "H p = Some b" "core b' = core b" by (rule index_eqD [OF eq b'])
  have h: "\<exists>c'. H' q = Some c' \<and> nHeight c' = nHeight c" if "H q = Some c" for q c
    using index_leD [OF index_eq_le [OF eq] that] core_eqD(3) by metis
  from wf_indexD [OF wf b(1)] h show "wf_entry H' p b'"
    by (fastforce simp: wf_entry_def core_eqD [OF b(2)] index_eq_prev_n [OF eq] split: option.splits)
qed

lemma index_eq_best_present: "index_eq H H' \<Longrightarrow> best_present H' best = best_present H best"
  by (auto simp: best_present_def index_eq_None split: option.split)

lemma is_ancestor_eq: "index_eq H H' \<Longrightarrow> is_ancestor H' a p = is_ancestor H a p"
  by (simp add: is_ancestor_def index_eq_prev_n)

lemma set_status_ok:
  assumes "m_block_index bm p = Some b"
  obtains bm' where "set_status flag p bm = Some bm'" "index_eq (m_block_index bm) (m_block_index bm')"
    "m_block_index bm' = (m_block_index bm)(p \<mapsto> b\<lparr>nStatus := nStatus b OR flag\<rparr>)"
  using assms that by (simp add: set_status_def index_eq_def)

lemma mark_failed_walk_ok:
  "prev_n (m_block_index bm) n p = Some f \<Longrightarrow>
   \<exists>bm'. mark_failed_walk f (bm, p) = Some bm' \<and> index_eq (m_block_index bm) (m_block_index bm') \<and>
     (\<forall>q b'. m_block_index bm' q = Some b' \<longrightarrow>
        (\<exists>b. m_block_index bm q = Some b \<and>
           (nStatus b' = nStatus b \<or> nStatus b' = nStatus b OR BLOCK_FAILED_CHILD \<and> is_ancestor (m_block_index bm) q f)))"
proof (induction n arbitrary: bm p)
  case 0
  then show ?case by (subst mark_failed_walk.simps) simp
next
  case (Suc n)
  show ?case
  proof (cases "p = f")
    case True
    then show ?thesis by (subst mark_failed_walk.simps) simp
  next
    case False
    let ?H = "m_block_index bm"
    from Suc.prems obtain b q where b: "?H p = Some b" "pprev b = Some q" "prev_n ?H n q = Some f"
      by (auto split: bind_splits)
    obtain bm' where bm': "set_status BLOCK_FAILED_CHILD p bm = Some bm'" "index_eq ?H (m_block_index bm')"
      "m_block_index bm' = ?H(p \<mapsto> b\<lparr>nStatus := nStatus b OR BLOCK_FAILED_CHILD\<rparr>)"
      by (rule set_status_ok [OF b(1)])
    from b(3) have "prev_n (m_block_index bm') n q = Some f" by (simp add: index_eq_prev_n [OF bm'(2)])
    from Suc.IH [OF this] obtain bm'' where bm'': "mark_failed_walk f (bm', q) = Some bm''"
      "index_eq (m_block_index bm') (m_block_index bm'')"
      "\<forall>q b'. m_block_index bm'' q = Some b' \<longrightarrow>
        (\<exists>b. m_block_index bm' q = Some b \<and>
           (nStatus b' = nStatus b \<or> nStatus b' = nStatus b OR BLOCK_FAILED_CHILD \<and> is_ancestor (m_block_index bm') q f))"
      by blast
    have anc: "is_ancestor ?H p f" using Suc.prems unfolding is_ancestor_def by blast
    have "mark_failed_walk f (bm, p) = Some bm''"
      using False b bm'(1,3) bm''(1) by (subst mark_failed_walk.simps) simp
    moreover have "index_eq ?H (m_block_index bm'')" by (rule index_eq_trans [OF bm'(2) bm''(2)])
    moreover have "\<exists>c. ?H r = Some c \<and>
        (nStatus b' = nStatus c \<or> nStatus b' = nStatus c OR BLOCK_FAILED_CHILD \<and> is_ancestor ?H r f)"
      if r: "m_block_index bm'' r = Some b'" for r b'
    proof -
      from bm''(3) r obtain c where c: "m_block_index bm' r = Some c"
        "nStatus b' = nStatus c \<or> nStatus b' = nStatus c OR BLOCK_FAILED_CHILD \<and> is_ancestor (m_block_index bm') r f"
        by blast
      with b(1) bm'(3) anc is_ancestor_eq [OF bm'(2), of r f] show ?thesis
        by (cases "r = p") (auto simp: or.assoc)
    qed
    ultimately show ?thesis by blast
  qed
qed

text \<open>The search along the skip list finds exactly the failed ancestors.\<close>

lemma GetAncestor_is_ancestor:
  assumes wf: "wf_index H" and p: "H p = Some b" and f: "H f = Some c"
  shows "\<exists>a. GetAncestor H p (nHeight c) = Some a \<and> (a = Some f \<longleftrightarrow> is_ancestor H p f)"
proof (cases "nHeight c \<le> nHeight b")
  case True
  obtain q d where q: "GetAncestor H p (nHeight c) = Some (Some q)"
    "prev_n H (nat (nHeight b - nHeight c)) p = Some q" "H q = Some d" "nHeight d = nHeight c"
    by (rule GetAncestor_prev_n [OF wf p wf_height_nonneg [OF wf f] True])
  have "q = f \<longleftrightarrow> is_ancestor H p f"
  proof
    assume "is_ancestor H p f"
    then obtain n where n: "prev_n H n p = Some f" unfolding is_ancestor_def by blast
    from prev_n_entry [OF wf p n] obtain d where "H f = Some d" "nHeight d = nHeight b - int n" .
    with f have "n = nat (nHeight b - nHeight c)" by simp
    with n q(2) show "q = f" by simp
  qed (use q(2) is_ancestor_def in blast)
  with q(1) show ?thesis by simp
next
  case False
  then have "GetAncestor H p (nHeight c) = Some None" using p by (intro GetAncestor_null) auto
  moreover have "\<not> is_ancestor H p f"
  proof
    assume "is_ancestor H p f"
    from is_ancestor_height [OF wf p this] obtain d where "H f = Some d" "nHeight d \<le> nHeight b" .
    with f False show "False" by simp
  qed
  ultimately show ?thesis by simp
qed

lemma failed_ancestor_ok:
  assumes wf: "wf_index (m_block_index bm)" and p: "m_block_index bm p = Some b"
    and fs: "\<forall>f \<in> set fs. \<exists>c. m_block_index bm f = Some c \<and> nStatus c AND BLOCK_FAILED_VALID \<noteq> 0"
  obtains (clean) "failed_ancestor bm p fs = Some None" "\<forall>f \<in> set fs. \<not> is_ancestor (m_block_index bm) p f"
  | (failed) f bm' where "failed_ancestor bm p fs = Some (Some bm')" "f \<in> set fs" "is_ancestor (m_block_index bm) p f"
      "index_eq (m_block_index bm) (m_block_index bm')"
      "\<forall>q b'. m_block_index bm' q = Some b' \<longrightarrow>
        (\<exists>b. m_block_index bm q = Some b \<and>
           (nStatus b' = nStatus b \<or> nStatus b' = nStatus b OR BLOCK_FAILED_CHILD \<and> is_ancestor (m_block_index bm) q f))"
  using fs
proof (induction fs arbitrary: thesis)
  case Nil
  then show ?case by simp
next
  case (Cons f fs)
  from Cons.prems(3) obtain c where c: "m_block_index bm f = Some c" "nStatus c AND BLOCK_FAILED_VALID \<noteq> 0" by auto
  from GetAncestor_is_ancestor [OF wf p c(1)] obtain a where
    a: "GetAncestor (m_block_index bm) p (nHeight c) = Some a" "a = Some f \<longleftrightarrow> is_ancestor (m_block_index bm) p f" by blast
  show ?case
  proof (cases "a = Some f")
    case True
    with a(2) obtain n where n: "prev_n (m_block_index bm) n p = Some f" unfolding is_ancestor_def by blast
    from mark_failed_walk_ok [OF n] obtain bm' where bm': "mark_failed_walk f (bm, p) = Some bm'"
      "index_eq (m_block_index bm) (m_block_index bm')"
      "\<forall>q b'. m_block_index bm' q = Some b' \<longrightarrow>
        (\<exists>b. m_block_index bm q = Some b \<and>
           (nStatus b' = nStatus b \<or> nStatus b' = nStatus b OR BLOCK_FAILED_CHILD \<and> is_ancestor (m_block_index bm) q f))"
      by blast
    have "failed_ancestor bm p (f # fs) = Some (Some bm')" using c a(1) True bm'(1) by simp
    then show ?thesis by (rule Cons.prems(2)) (use a(2) True bm'(2,3) in auto)
  next
    case False
    then have eq: "failed_ancestor bm p (f # fs) = failed_ancestor bm p fs" using c a(1) by simp
    have tl: "\<forall>f \<in> set fs. \<exists>c. m_block_index bm f = Some c \<and> nStatus c AND BLOCK_FAILED_VALID \<noteq> 0"
      using Cons.prems(3) by simp
    show ?thesis
    proof (rule Cons.IH [OF _ _ tl])
      assume "failed_ancestor bm p fs = Some None" "\<forall>f \<in> set fs. \<not> is_ancestor (m_block_index bm) p f"
      with False a(2) eq show ?thesis by (intro Cons.prems(1)) auto
    next
      fix g bm'
      assume "failed_ancestor bm p fs = Some (Some bm')" "g \<in> set fs" "is_ancestor (m_block_index bm) p g"
        "index_eq (m_block_index bm) (m_block_index bm')"
        "\<forall>q b'. m_block_index bm' q = Some b' \<longrightarrow>
        (\<exists>b. m_block_index bm q = Some b \<and>
           (nStatus b' = nStatus b \<or> nStatus b' = nStatus b OR BLOCK_FAILED_CHILD \<and> is_ancestor (m_block_index bm) q g))"
      with eq show ?thesis by (intro Cons.prems(2)) auto
    qed
  qed
qed

section \<open>The invariant of the index\<close>

text \<open>
  What holds of an entry: without a parent it is the genesis block; otherwise its key is the hash
  of the header that it stands for, which meets the target it claims, which is the target that the
  chain below it requires, and its time is after the median time past of its parent.
\<close>

definition valid_entry :: "(CBlockHeader \<Rightarrow> uint256) \<Rightarrow> Params \<Rightarrow> block_map \<Rightarrow> block_ptr \<Rightarrow> CBlockIndex \<Rightarrow> bool" where
  "valid_entry GetHash params H p b \<longleftrightarrow>
     (case pprev b of
        None \<Rightarrow> p = hashGenesisBlock params
      | Some q \<Rightarrow> GetHash (IndexBlockHeader b) = p \<and> CheckProofOfWork p (nBits b) params \<and>
          GetNextWorkRequired H (Some q) (IndexBlockHeader b) params = Some (nBits b) \<and>
          (\<exists>m. GetMedianTimePast H q = Some m \<and> m < GetBlockTime b))"

definition failed :: "uint32 \<Rightarrow> block_map \<Rightarrow> block_ptr \<Rightarrow> bool" where
  "failed flag H p \<longleftrightarrow> (\<exists>b. H p = Some b \<and> nStatus b AND flag \<noteq> 0)"

definition headers_inv :: "(CBlockHeader \<Rightarrow> uint256) \<Rightarrow> Params \<Rightarrow> ChainstateManager \<Rightarrow> bool" where
  "headers_inv GetHash params cm \<longleftrightarrow>
     (let H = m_block_index (m_blockman cm) in
      wf_index H \<and> H (hashGenesisBlock params) \<noteq> None \<and>
      best_present H (m_best_header cm) \<and> best_present H (m_best_invalid cm) \<and>
      (\<forall>p b. H p = Some b \<longrightarrow> valid_entry GetHash params H p b) \<and>
      (\<forall>f \<in> set (m_failed_blocks cm). failed BLOCK_FAILED_VALID H f) \<and>
      (\<forall>p. failed BLOCK_FAILED_CHILD H p \<longrightarrow> (\<exists>f. is_ancestor H p f \<and> failed BLOCK_FAILED_VALID H f)))"

lemma valid_entry_le:
  assumes le: "index_le H H'" and c: "core b' = core b" and v: "valid_entry GetHash params H p b"
  shows "valid_entry GetHash params H' p b'"
  using v GetMedianTimePast_le [OF le] GetNextWorkRequired_le [OF le]
  by (auto simp: valid_entry_def core_eqD [OF c] split: option.splits)

lemma valid_entries_eq:
  assumes eq: "index_eq H H'" and v: "\<forall>p b. H p = Some b \<longrightarrow> valid_entry GetHash params H p b"
  shows "\<forall>p b. H' p = Some b \<longrightarrow> valid_entry GetHash params H' p b"
proof (intro allI impI)
  fix p b' assume "H' p = Some b'"
  from index_eqD [OF eq this] obtain b where "H p = Some b" "core b' = core b" .
  with v valid_entry_le [OF index_eq_le [OF eq]] show "valid_entry GetHash params H' p b'" by blast
qed

lemma failed_or:
  "(s OR BLOCK_FAILED_CHILD) AND BLOCK_FAILED_VALID = s AND BLOCK_FAILED_VALID"
  "(s OR BLOCK_FAILED_VALID) AND BLOCK_FAILED_CHILD = s AND BLOCK_FAILED_CHILD"
  "(s OR BLOCK_FAILED_VALID) AND BLOCK_FAILED_VALID \<noteq> 0"
proof -
  show "(s OR BLOCK_FAILED_CHILD) AND BLOCK_FAILED_VALID = s AND BLOCK_FAILED_VALID"
    "(s OR BLOCK_FAILED_VALID) AND BLOCK_FAILED_CHILD = s AND BLOCK_FAILED_CHILD"
    by (simp_all add: bit.conj_disj_distrib2 block_status_defs)
  have "(s OR BLOCK_FAILED_VALID) AND BLOCK_FAILED_VALID = BLOCK_FAILED_VALID"
    by (rule bit_eqI) (auto simp: bit_simps)
  then show "(s OR BLOCK_FAILED_VALID) AND BLOCK_FAILED_VALID \<noteq> 0" by (simp add: block_status_defs)
qed

lemma headers_inv_status:
  assumes inv: "headers_inv GetHash params cm"
    and eq: "index_eq (m_block_index (m_blockman cm)) (m_block_index (m_blockman cm'))"
    and mono: "\<And>q. failed BLOCK_FAILED_VALID (m_block_index (m_blockman cm)) q \<Longrightarrow>
      failed BLOCK_FAILED_VALID (m_block_index (m_blockman cm')) q"
    and child: "\<And>q. failed BLOCK_FAILED_CHILD (m_block_index (m_blockman cm')) q \<Longrightarrow>
      failed BLOCK_FAILED_CHILD (m_block_index (m_blockman cm)) q \<or>
      (\<exists>f. is_ancestor (m_block_index (m_blockman cm)) q f \<and> failed BLOCK_FAILED_VALID (m_block_index (m_blockman cm)) f)"
    and "\<forall>f \<in> set (m_failed_blocks cm'). failed BLOCK_FAILED_VALID (m_block_index (m_blockman cm')) f"
    and "best_present (m_block_index (m_blockman cm)) (m_best_header cm')"
    and "best_present (m_block_index (m_blockman cm)) (m_best_invalid cm')"
  shows "headers_inv GetHash params cm'"
proof -
  let ?H = "m_block_index (m_blockman cm)" and ?H' = "m_block_index (m_blockman cm')"
  have "\<exists>f. is_ancestor ?H' p f \<and> failed BLOCK_FAILED_VALID ?H' f" if "failed BLOCK_FAILED_CHILD ?H' p" for p
    using child [OF that] inv mono is_ancestor_eq [OF eq] unfolding headers_inv_def Let_def by blast
  moreover have "wf_index ?H'" "\<forall>p b. ?H' p = Some b \<longrightarrow> valid_entry GetHash params ?H' p b"
    using inv index_eq_wf [OF eq] valid_entries_eq [OF eq] by (simp_all add: headers_inv_def Let_def)
  moreover have "?H' (hashGenesisBlock params) \<noteq> None"
    using inv unfolding index_eq_None [OF eq] by (simp add: headers_inv_def Let_def)
  ultimately show ?thesis
    using inv assms(5-7) by (simp add: headers_inv_def Let_def index_eq_best_present [OF eq])
qed

lemma headers_inv_insert:
  assumes inv: "headers_inv GetHash params cm" and fresh: "m_block_index (m_blockman cm) p = None"
    and H': "m_block_index (m_blockman cm') = (m_block_index (m_blockman cm))(p \<mapsto> b)"
    and wf: "wf_index (m_block_index (m_blockman cm'))" and st: "nStatus b AND BLOCK_FAILED_CHILD = 0"
    and v: "valid_entry GetHash params (m_block_index (m_blockman cm)) p b"
    and "best_present (m_block_index (m_blockman cm')) (m_best_header cm')"
    and "m_best_invalid cm' = m_best_invalid cm" "m_failed_blocks cm' = m_failed_blocks cm"
  shows "headers_inv GetHash params cm'"
proof -
  let ?H = "m_block_index (m_blockman cm)" and ?H' = "m_block_index (m_blockman cm')"
  have le: "index_le ?H ?H'" unfolding H' by (rule index_le_insert) (rule fresh)
  have mono: "failed flag ?H q \<Longrightarrow> failed flag ?H' q" for flag q using fresh by (auto simp: failed_def H')
  have "valid_entry GetHash params ?H' q c" if "?H' q = Some c" for q c
    using that v inv valid_entry_le [OF le refl] by (cases "q = p") (simp_all add: H' headers_inv_def Let_def)
  moreover have "\<exists>f. is_ancestor ?H' q f \<and> failed BLOCK_FAILED_VALID ?H' f" if "failed BLOCK_FAILED_CHILD ?H' q" for q
  proof -
    have "failed BLOCK_FAILED_CHILD ?H q" using that st by (cases "q = p") (simp_all add: failed_def H')
    with inv obtain f where "is_ancestor ?H q f" "failed BLOCK_FAILED_VALID ?H f" by (auto simp: headers_inv_def Let_def)
    with mono prev_n_le [OF le] show ?thesis unfolding is_ancestor_def by blast
  qed
  ultimately show ?thesis
    using inv wf assms(7-9) mono fresh
    by (auto simp: headers_inv_def Let_def best_present_def H' split: option.splits)
qed

lemma ContextualCheckBlockHeader_InrD:
  assumes "ContextualCheckBlockHeader H params checkpoints now block (Some q) = Some (Inr u)"
  shows "GetNextWorkRequired H (Some q) block params = Some (hdrBits block)"
    "\<exists>m. GetMedianTimePast H q = Some m \<and> m < uint (hdrTime block)"
    "uint (hdrTime block) \<le> now + MAX_FUTURE_BLOCK_TIME"
  using assms by (auto simp: ContextualCheckBlockHeader_def Let_def split: bind_splits if_splits)

text \<open>What the checks of a new header establish, and what they leave in the state.\<close>

lemma check_new_header_Inr:
  assumes "check_new_header GetHash params checkpoints now cm block = Some (Inr u, cm')"
  obtains c where "cm' = cm" "CheckProofOfWork (GetHash block) (hdrBits block) params"
    "m_block_index (m_blockman cm) (hashPrevBlock block) = Some c" "nStatus c AND BLOCK_FAILED_MASK = 0"
    "ContextualCheckBlockHeader (m_block_index (m_blockman cm)) params checkpoints now block (Some (hashPrevBlock block)) = Some (Inr ())"
  using assms that
  by (auto simp: check_new_header_def CheckBlockHeader_def Let_def split: option.splits sum.splits if_splits bind_splits)

lemma check_new_header_Inl:
  assumes inv: "headers_inv GetHash params cm"
    and r: "check_new_header GetHash params checkpoints now cm block = Some (Inl e, cm')"
  shows "headers_inv GetHash params cm'"
proof -
  let ?H = "m_block_index (m_blockman cm)" and ?q = "hashPrevBlock block"
  from r consider "cm' = cm"
    | c bm where "cm' = cm\<lparr>m_blockman := bm\<rparr>" "?H ?q = Some c"
      "failed_ancestor (m_blockman cm) ?q (m_failed_blocks cm) = Some (Some bm)"
    by (auto simp: check_new_header_def Let_def split: option.splits sum.splits if_splits bind_splits)
  then show ?thesis
  proof cases
    case 2
    let ?H' = "m_block_index bm"
    have fs: "\<forall>f \<in> set (m_failed_blocks cm). \<exists>c. ?H f = Some c \<and> nStatus c AND BLOCK_FAILED_VALID \<noteq> 0"
      and wf: "wf_index ?H" using inv by (simp_all add: headers_inv_def Let_def failed_def)
    obtain f where f: "f \<in> set (m_failed_blocks cm)" "index_eq ?H ?H'"
      "\<forall>q b'. ?H' q = Some b' \<longrightarrow> (\<exists>b. ?H q = Some b \<and>
           (nStatus b' = nStatus b \<or> nStatus b' = nStatus b OR BLOCK_FAILED_CHILD \<and> is_ancestor ?H q f))"
      by (rule failed_ancestor_ok [OF wf 2(2) fs]) (use 2(3) in auto)
    have ff: "failed BLOCK_FAILED_VALID ?H f" using fs f(1) by (auto simp: failed_def)
    have mono: "failed BLOCK_FAILED_VALID ?H' q" if q: "failed BLOCK_FAILED_VALID ?H q" for q
    proof -
      from q index_eq_None [OF f(2), of q] obtain b' where b': "?H' q = Some b'" by (auto simp: failed_def)
      with f(3) q show ?thesis by (fastforce simp: failed_def failed_or)
    qed
    show ?thesis
    proof (rule headers_inv_status [OF inv])
      show "failed BLOCK_FAILED_CHILD ?H q \<or> (\<exists>f. is_ancestor ?H q f \<and> failed BLOCK_FAILED_VALID ?H f)"
        if "failed BLOCK_FAILED_CHILD (m_block_index (m_blockman cm')) q" for q
        using that f(3) ff 2(1) by (fastforce simp: failed_def)
    qed (use inv f(1,2) mono fs 2(1) in \<open>auto simp: headers_inv_def Let_def failed_def\<close>)
  qed (use inv in simp)
qed

lemma IndexBlockHeader_new:
  assumes "nVersion b = hdrVersion block \<and> hashMerkleRoot b = hdrMerkleRoot block \<and> nNonce b = hdrNonce block"
    "nBits b = hdrBits block" "nTime b = hdrTime block" "pprev b = Some (hashPrevBlock block)"
  shows "IndexBlockHeader b = block"
  using assms by (cases block) (simp add: IndexBlockHeader_def)

text \<open>A header that passes the checks is added, and the invariant holds again.\<close>

lemma accept_new_header:
  assumes inv: "headers_inv GetHash params cm" and fresh: "m_block_index (m_blockman cm) (GetHash block) = None"
    and ok: "check_new_header GetHash params checkpoints now cm block = Some (Inr u, cm1)"
  obtains b bm best where
    "AddToBlockIndex GetHash (m_blockman cm) (m_best_header cm) block = Some (GetHash block, bm, best)"
    "m_block_index bm = (m_block_index (m_blockman cm))(GetHash block \<mapsto> b)" "IndexBlockHeader b = block"
    "nStatus b = BLOCK_VALID_TREE" "headers_inv GetHash params (cm\<lparr>m_blockman := bm, m_best_header := best\<rparr>)"
proof -
  let ?H = "m_block_index (m_blockman cm)" and ?p = "GetHash block" and ?q = "hashPrevBlock block"
  obtain c where c: "CheckProofOfWork ?p (hdrBits block) params" "?H ?q = Some c"
    "ContextualCheckBlockHeader ?H params checkpoints now block (Some ?q) = Some (Inr ())"
    by (rule check_new_header_Inr [OF ok])
  note ctx = ContextualCheckBlockHeader_InrD [OF c(3)]
  have ns: "?q \<noteq> ?p" using c(2) fresh by auto
  have wf: "wf_index ?H" and best: "best_present ?H (m_best_header cm)" using inv by (simp_all add: headers_inv_def Let_def)
  obtain b best' where b: "AddToBlockIndex GetHash (m_blockman cm) (m_best_header cm) block =
       Some (?p, (m_blockman cm)\<lparr>m_block_index := ?H(?p \<mapsto> b),
                m_dirty_blockindex := insert ?p (m_dirty_blockindex (m_blockman cm))\<rparr>, best')"
    "wf_index (?H(?p \<mapsto> b))" "best_present (?H(?p \<mapsto> b)) best'"
    "nStatus b = BLOCK_VALID_TREE" "nBits b = hdrBits block" "nTime b = hdrTime block"
    "nVersion b = hdrVersion block \<and> hashMerkleRoot b = hdrMerkleRoot block \<and> nNonce b = hdrNonce block"
    "pprev b = (case ?H ?q of None \<Rightarrow> None | Some c \<Rightarrow> Some ?q)"
    by (rule AddToBlockIndex_new [of "m_blockman cm" GetHash block "m_best_header cm", OF wf fresh ns best])
  have pp: "pprev b = Some ?q" using b(8) c(2) by simp
  have hdr: "IndexBlockHeader b = block" by (rule IndexBlockHeader_new [OF b(7,5,6) pp])
  let ?bm = "(m_blockman cm)\<lparr>m_block_index := ?H(?p \<mapsto> b), m_dirty_blockindex := insert ?p (m_dirty_blockindex (m_blockman cm))\<rparr>"
  have v: "valid_entry GetHash params ?H ?p b"
    using c(1) ctx(1,2) by (simp add: valid_entry_def pp hdr b(5) b(6) GetBlockTime_def)
  have st: "nStatus b AND BLOCK_FAILED_CHILD = 0" using b(4) by (simp add: block_status_defs)
  have "headers_inv GetHash params (cm\<lparr>m_blockman := ?bm, m_best_header := best'\<rparr>)"
    by (rule headers_inv_insert [OF inv fresh _ _ st v]) (use b(2,3) in simp_all)
  then show ?thesis using that [OF b(1)] hdr b(4) by simp
qed

lemma AcceptBlockHeader_inv:
  assumes inv: "headers_inv GetHash params cm"
    and r: "AcceptBlockHeader GetHash params checkpoints now cm block min_pow_checked = Some (pp, r, cm')"
  shows "headers_inv GetHash params cm'"
proof -
  let ?H = "m_block_index (m_blockman cm)" and ?p = "GetHash block"
  show ?thesis
  proof (cases "?p = hashGenesisBlock params")
    case True
    with inv obtain b where "?H ?p = Some b" by (auto simp: headers_inv_def Let_def)
    then have "AddToBlockIndex GetHash (m_blockman cm) (m_best_header cm) block = Some (?p, m_blockman cm, m_best_header cm)"
      by (rule AddToBlockIndex_known)
    with True r inv show ?thesis by (auto simp: AcceptBlockHeader_def Let_def split: if_splits)
  next
    case False
    show ?thesis
    proof (cases "?H ?p")
      case (Some b)
      with False r inv show ?thesis by (simp add: AcceptBlockHeader_def Let_def)
    next
      case None
      with False r obtain x cm1 where c: "check_new_header GetHash params checkpoints now cm block = Some (x, cm1)"
        by (auto simp: AcceptBlockHeader_def Let_def split: bind_splits)
      show ?thesis
      proof (cases x)
        case (Inl e)
        with c r False None have "cm' = cm1" by (simp add: AcceptBlockHeader_def Let_def)
        with check_new_header_Inl [OF inv] c Inl show ?thesis by simp
      next
        case (Inr u)
        have cm1: "cm1 = cm" by (rule check_new_header_Inr [OF c [unfolded Inr]])
        obtain bm best where b: "AddToBlockIndex GetHash (m_blockman cm) (m_best_header cm) block = Some (?p, bm, best)"
          "headers_inv GetHash params (cm\<lparr>m_blockman := bm, m_best_header := best\<rparr>)"
          by (rule accept_new_header [OF inv None c [unfolded Inr]])
        with c r False None Inr cm1 inv show ?thesis by (auto simp: AcceptBlockHeader_def Let_def split: if_splits)
      qed
    qed
  qed
qed

lemma ProcessNewBlockHeaders_inv:
  "headers_inv GetHash params cm \<Longrightarrow>
   ProcessNewBlockHeaders GetHash params checkpoints now min_pow_checked pp cm hs = Some (pp', r, cm') \<Longrightarrow>
   headers_inv GetHash params cm'"
proof (induction hs arbitrary: cm pp)
  case (Cons h hs)
  from Cons.prems(2) obtain p x cm1 where a: "AcceptBlockHeader GetHash params checkpoints now cm h min_pow_checked = Some (p, x, cm1)"
    by (auto split: bind_splits)
  note inv = AcceptBlockHeader_inv [OF Cons.prems(1) a]
  show ?case using Cons.IH [OF inv] Cons.prems(2) a inv by (cases x) auto
qed simp

lemma InvalidBlockFound_inv:
  assumes inv: "headers_inv GetHash params cm"
    and r: "InvalidBlockFound cs cm p result = Some (cs', cm')"
    and tip: "best_present (m_block_index (m_blockman cm)) (Tip (m_chain cs))"
  shows "headers_inv GetHash params cm'"
proof (cases "result = BLOCK_MUTATED")
  case True
  with r inv show ?thesis by (simp add: InvalidBlockFound_def)
next
  case False
  let ?H = "m_block_index (m_blockman cm)"
  from r False obtain b where b: "?H p = Some b"
    by (auto simp: InvalidBlockFound_def set_status_def split: bind_splits)
  obtain bm where bm: "set_status BLOCK_FAILED_VALID p (m_blockman cm) = Some bm"
    "index_eq ?H (m_block_index bm)"
    "m_block_index bm = ?H(p \<mapsto> b\<lparr>nStatus := nStatus b OR BLOCK_FAILED_VALID\<rparr>)"
    by (rule set_status_ok [OF b])
  from r False bm(1) have cm': "m_blockman cm' = bm" "m_failed_blocks cm' = List.insert p (m_failed_blocks cm)"
    "m_best_invalid cm' = Some p \<or> m_best_invalid cm' = m_best_invalid cm"
    "m_best_header cm' = Tip (m_chain cs) \<or> m_best_header cm' = m_best_header cm"
    by (auto simp: InvalidBlockFound_def InvalidChainFound_def Let_def split: bind_splits)
  have mono: "failed BLOCK_FAILED_VALID (m_block_index bm) q" if "q = p \<or> failed BLOCK_FAILED_VALID ?H q" for q
    using that b failed_or(3) [of 0] by (auto simp: bm(3) failed_def failed_or)
  show ?thesis
  proof (rule headers_inv_status [OF inv])
    show "failed BLOCK_FAILED_CHILD ?H q \<or> (\<exists>f. is_ancestor ?H q f \<and> failed BLOCK_FAILED_VALID ?H f)"
      if "failed BLOCK_FAILED_CHILD (m_block_index (m_blockman cm')) q" for q
      using that b by (auto simp: cm'(1) bm(3) failed_def failed_or split: if_splits)
    show "best_present ?H (m_best_header cm')" "best_present ?H (m_best_invalid cm')"
      using inv tip cm'(3,4) b by (auto simp: headers_inv_def Let_def best_present_def)
  qed (use inv mono bm(2) cm' in \<open>auto simp: headers_inv_def Let_def\<close>)
qed

section \<open>Reachable states\<close>

text \<open>
  The states of a node that starts with the genesis block in an empty index, receives header
  messages at any time, and finds blocks invalid while its active chain is in the index.
\<close>

inductive header_reach :: "(CBlockHeader \<Rightarrow> uint256) \<Rightarrow> Params \<Rightarrow> CCheckpointData \<Rightarrow> CBlockHeader \<Rightarrow> ChainstateManager \<Rightarrow> bool"
  for GetHash params checkpoints genesis where
  start: "AddToBlockIndex GetHash \<lparr>m_block_index = Map.empty, m_dirty_blockindex = {}\<rparr> None genesis = Some (p, bm, best) \<Longrightarrow>
    header_reach GetHash params checkpoints genesis
      \<lparr>m_blockman = bm, m_best_header = best, m_failed_blocks = [], m_best_invalid = None\<rparr>"
| headers: "header_reach GetHash params checkpoints genesis cm \<Longrightarrow>
    ProcessNewBlockHeaders GetHash params checkpoints now min_pow_checked pp cm hs = Some (pp', r, cm') \<Longrightarrow>
    header_reach GetHash params checkpoints genesis cm'"
| invalid: "header_reach GetHash params checkpoints genesis cm \<Longrightarrow>
    best_present (m_block_index (m_blockman cm)) (Tip (m_chain cs)) \<Longrightarrow>
    InvalidBlockFound cs cm p result = Some (cs', cm') \<Longrightarrow>
    header_reach GetHash params checkpoints genesis cm'"

lemma start_inv:
  assumes g: "GetHash genesis = hashGenesisBlock params" "hashPrevBlock genesis \<noteq> hashGenesisBlock params"
    and a: "AddToBlockIndex GetHash \<lparr>m_block_index = Map.empty, m_dirty_blockindex = {}\<rparr> None genesis = Some (p, bm, best)"
  shows "headers_inv GetHash params \<lparr>m_blockman = bm, m_best_header = best, m_failed_blocks = [], m_best_invalid = None\<rparr>"
proof -
  let ?bm = "\<lparr>m_block_index = Map.empty, m_dirty_blockindex = {}\<rparr>"
  have pre: "wf_index (m_block_index ?bm)" "m_block_index ?bm (GetHash genesis) = None" "hashPrevBlock genesis \<noteq> GetHash genesis"
    "best_present (m_block_index ?bm) None" using g by (simp_all add: best_present_def)
  obtain b best' where b: "AddToBlockIndex GetHash ?bm None genesis = Some (GetHash genesis, ?bm\<lparr>m_block_index := (m_block_index ?bm)(GetHash genesis \<mapsto> b),
        m_dirty_blockindex := insert (GetHash genesis) (m_dirty_blockindex ?bm)\<rparr>, best')"
    "wf_index ((m_block_index ?bm)(GetHash genesis \<mapsto> b))" "best_present ((m_block_index ?bm)(GetHash genesis \<mapsto> b)) best'"
    "nStatus b = BLOCK_VALID_TREE"
    "pprev b = (case m_block_index ?bm (hashPrevBlock genesis) of None \<Rightarrow> None | Some c \<Rightarrow> Some (hashPrevBlock genesis))"
    by (rule AddToBlockIndex_new [of ?bm GetHash genesis None, OF pre])
  have "nStatus b AND BLOCK_FAILED_CHILD = 0" using b(4) by (simp add: block_status_defs)
  with a b g(1) show ?thesis
    by (auto simp: headers_inv_def valid_entry_def failed_def best_present_def)
qed

lemma header_reach_inv:
  assumes "header_reach GetHash params checkpoints genesis cm"
    and "GetHash genesis = hashGenesisBlock params" "hashPrevBlock genesis \<noteq> hashGenesisBlock params"
  shows "headers_inv GetHash params cm"
  using assms(1)
proof induction
  case start
  then show ?case by (rule start_inv [of GetHash genesis params, OF assms(2,3)])
qed (blast intro: ProcessNewBlockHeaders_inv InvalidBlockFound_inv)+

text \<open>When a new header is accepted.\<close>

lemma IsValid_scripts: "\<exists>v. IsValid c BLOCK_VALID_SCRIPTS = Some v"
  by (auto simp: IsValid_def block_status_defs)

lemma check_new_header_iff:
  assumes inv: "headers_inv GetHash params cm"
  shows "(\<exists>cm'. check_new_header GetHash params checkpoints now cm block = Some (Inr (), cm')) \<longleftrightarrow>
    CheckProofOfWork (GetHash block) (hdrBits block) params \<and>
    (\<exists>c. m_block_index (m_blockman cm) (hashPrevBlock block) = Some c \<and> nStatus c AND BLOCK_FAILED_MASK = 0 \<and>
       ContextualCheckBlockHeader (m_block_index (m_blockman cm)) params checkpoints now block (Some (hashPrevBlock block)) = Some (Inr ()) \<and>
       (IsValid c BLOCK_VALID_SCRIPTS = Some True \<or>
        (\<forall>f \<in> set (m_failed_blocks cm). \<not> is_ancestor (m_block_index (m_blockman cm)) (hashPrevBlock block) f)))"
proof (cases "m_block_index (m_blockman cm) (hashPrevBlock block)")
  case None
  then show ?thesis by (auto simp: check_new_header_def CheckBlockHeader_def Let_def split: sum.splits)
next
  case (Some c)
  have fs: "\<forall>f \<in> set (m_failed_blocks cm). \<exists>c. m_block_index (m_blockman cm) f = Some c \<and> nStatus c AND BLOCK_FAILED_VALID \<noteq> 0"
    and wf: "wf_index (m_block_index (m_blockman cm))" using inv by (simp_all add: headers_inv_def Let_def failed_def)
  obtain v where v: "IsValid c BLOCK_VALID_SCRIPTS = Some v" using IsValid_scripts by blast
  show ?thesis
    by (rule failed_ancestor_ok [OF wf Some fs])
      (auto simp: check_new_header_def CheckBlockHeader_def Let_def Some v split: sum.splits if_splits bind_splits)
qed

section \<open>Properties\<close>

text \<open>
  C18: What is in the index. In every reachable state the index is well-formed and has the genesis
  block; every other entry is stored under the hash of its header, has a parent in the index,
  meets its target by \<open>CheckProofOfWork\<close>, has the target that \<open>GetNextWorkRequired\<close> computes on the
  chain below it, and a time after the median time past of its parent; the best header is an
  entry; and every block marked as the descendant of an invalid block has an ancestor that was found invalid.
\<close>

theorem headers_reachable:
  assumes "header_reach GetHash params checkpoints genesis cm"
    "GetHash genesis = hashGenesisBlock params" "hashPrevBlock genesis \<noteq> hashGenesisBlock params"
  shows "headers_inv GetHash params cm"
  by (rule header_reach_inv [OF assms])

text \<open>
  C19: When a header is accepted. In a state that satisfies the invariant, for a header that is not
  in the index and is not the genesis header, \<open>AcceptBlockHeader\<close> accepts exactly when the hash
  meets the target, the parent is in the index and not marked as failed, the contextual checks
  pass, no block known to be invalid is an ancestor of the parent (unless the parent has been
  fully validated), and the caller has checked the work. Then exactly one entry is added, which
  stands for the header.
\<close>

theorem AcceptBlockHeader_correct:
  assumes inv: "headers_inv GetHash params cm" and new: "GetHash block \<noteq> hashGenesisBlock params"
    "m_block_index (m_blockman cm) (GetHash block) = None"
  shows "(\<exists>cm' b. AcceptBlockHeader GetHash params checkpoints now cm block min_pow_checked = Some (Some (GetHash block), Inr (), cm') \<and>
      m_block_index (m_blockman cm') = (m_block_index (m_blockman cm))(GetHash block \<mapsto> b) \<and> IndexBlockHeader b = block) \<longleftrightarrow>
    CheckProofOfWork (GetHash block) (hdrBits block) params \<and> min_pow_checked \<and>
    (\<exists>c. m_block_index (m_blockman cm) (hashPrevBlock block) = Some c \<and> nStatus c AND BLOCK_FAILED_MASK = 0 \<and>
       ContextualCheckBlockHeader (m_block_index (m_blockman cm)) params checkpoints now block (Some (hashPrevBlock block)) = Some (Inr ()) \<and>
       (IsValid c BLOCK_VALID_SCRIPTS = Some True \<or>
        (\<forall>f \<in> set (m_failed_blocks cm). \<not> is_ancestor (m_block_index (m_blockman cm)) (hashPrevBlock block) f)))"
    (is "?acc \<longleftrightarrow> ?pow \<and> min_pow_checked \<and> ?ctx")
proof -
  have "?acc \<longleftrightarrow> (\<exists>cm'. check_new_header GetHash params checkpoints now cm block = Some (Inr (), cm')) \<and> min_pow_checked"
  proof
    assume ?acc
    then show "(\<exists>cm'. check_new_header GetHash params checkpoints now cm block = Some (Inr (), cm')) \<and> min_pow_checked"
      using new by (auto simp: AcceptBlockHeader_def Let_def split: bind_splits sum.splits if_splits)
  next
    assume r: "(\<exists>cm'. check_new_header GetHash params checkpoints now cm block = Some (Inr (), cm')) \<and> min_pow_checked"
    then obtain cm1 where c: "check_new_header GetHash params checkpoints now cm block = Some (Inr (), cm1)" by blast
    have cm1: "cm1 = cm" by (rule check_new_header_Inr [OF c])
    obtain b bm best where b: "AddToBlockIndex GetHash (m_blockman cm) (m_best_header cm) block = Some (GetHash block, bm, best)"
      "m_block_index bm = (m_block_index (m_blockman cm))(GetHash block \<mapsto> b)" "IndexBlockHeader b = block"
      by (rule accept_new_header [OF inv new(2) c])
    with r c cm1 new show ?acc by (auto simp: AcceptBlockHeader_def)
  qed
  with check_new_header_iff [OF inv, of checkpoints now block] show ?thesis by blast
qed

definition example_GetHash :: "CBlockHeader \<Rightarrow> uint256" where
  "example_GetHash h = (if hashPrevBlock h = uint256_zero then example_hash 1 else example_hash 2)"

lemma example_start:
  obtains b bm best where
    "AddToBlockIndex example_GetHash \<lparr>m_block_index = Map.empty, m_dirty_blockindex = {}\<rparr> None (example_header uint256_zero 1000) =
       Some (example_hash 1, bm, best)"
    "m_block_index bm = [example_hash 1 \<mapsto> b]" "nHeight b = 0" "pprev b = None" "nStatus b = BLOCK_VALID_TREE"
    "nBits b = 0x1d00ffff" "nTime b = 1000"
proof -
  let ?bm = "\<lparr>m_block_index = Map.empty, m_dirty_blockindex = {}\<rparr>" and ?g = "example_header uint256_zero 1000"
  have g: "example_GetHash ?g = example_hash 1" "hashPrevBlock ?g = uint256_zero" "hdrBits ?g = 0x1d00ffff" "hdrTime ?g = 1000"
    by (simp_all add: example_GetHash_def example_header_def)
  have pre: "wf_index (m_block_index ?bm)" "m_block_index ?bm (example_GetHash ?g) = None"
    "hashPrevBlock ?g \<noteq> example_GetHash ?g" "best_present (m_block_index ?bm) None"
    using example_hash_nonzero by (simp_all add: g best_present_def)
  show ?thesis
    by (rule AddToBlockIndex_new [of ?bm example_GetHash ?g None, OF pre]) (rule that, (simp add: g)+)
qed

lemma example_start_hyps:
  "example_GetHash (example_header uint256_zero 1000) = hashGenesisBlock (CMainParams (example_hash 1))"
  "hashPrevBlock (example_header uint256_zero 1000) \<noteq> hashGenesisBlock (CMainParams (example_hash 1))"
  using example_hash_nonzero by (simp_all add: example_GetHash_def example_header_def)

lemma example_hash_value: "hash_value (example_hash 2) = 2"
proof -
  have "UintToArith256 (example_hash 2) = [2, 0, 0, 0, 0, 0, 0, 0]"
    by (simp add: UintToArith256_def WIDTH_def upt_rec example_hash_def ReadLE32_def nth_Cons')
  then show ?thesis by (simp add: hash_value_def)
qed

theorem headers_reachable_witness:
  "\<exists>bm best. header_reach example_GetHash (CMainParams (example_hash 1)) [] (example_header uint256_zero 1000)
       \<lparr>m_blockman = bm, m_best_header = best, m_failed_blocks = [], m_best_invalid = None\<rparr> \<and>
     headers_inv example_GetHash (CMainParams (example_hash 1))
       \<lparr>m_blockman = bm, m_best_header = best, m_failed_blocks = [], m_best_invalid = None\<rparr>"
proof -
  obtain bm best where "AddToBlockIndex example_GetHash \<lparr>m_block_index = Map.empty, m_dirty_blockindex = {}\<rparr> None
      (example_header uint256_zero 1000) = Some (example_hash 1, bm, best)" by (rule example_start)
  then have "header_reach example_GetHash (CMainParams (example_hash 1)) [] (example_header uint256_zero 1000)
       \<lparr>m_blockman = bm, m_best_header = best, m_failed_blocks = [], m_best_invalid = None\<rparr>" by (rule header_reach.start)
  with headers_reachable [OF this example_start_hyps] show ?thesis by blast
qed

theorem AcceptBlockHeader_correct_witness:
  "\<exists>bm best cm' b. headers_inv example_GetHash (CMainParams (example_hash 1))
       \<lparr>m_blockman = bm, m_best_header = best, m_failed_blocks = [], m_best_invalid = None\<rparr> \<and>
     AcceptBlockHeader example_GetHash (CMainParams (example_hash 1)) [] 5000
       \<lparr>m_blockman = bm, m_best_header = best, m_failed_blocks = [], m_best_invalid = None\<rparr>
       ((example_header (example_hash 1) 1100)\<lparr>hdrVersion := 4\<rparr>) True = Some (Some (example_hash 2), Inr (), cm') \<and>
     m_block_index (m_blockman cm') = (m_block_index bm)(example_hash 2 \<mapsto> b)"
proof -
  obtain b bm best where s: "AddToBlockIndex example_GetHash \<lparr>m_block_index = Map.empty, m_dirty_blockindex = {}\<rparr> None
      (example_header uint256_zero 1000) = Some (example_hash 1, bm, best)"
    "m_block_index bm = [example_hash 1 \<mapsto> b]" "nHeight b = 0" "pprev b = None" "nStatus b = BLOCK_VALID_TREE"
    "nBits b = 0x1d00ffff" "nTime b = 1000" by (rule example_start)
  let ?cm = "\<lparr>m_blockman = bm, m_best_header = best, m_failed_blocks = [], m_best_invalid = None\<rparr>"
  let ?h = "(example_header (example_hash 1) 1100)\<lparr>hdrVersion := 4\<rparr>" and ?params = "CMainParams (example_hash 1)"
  have inv: "headers_inv example_GetHash ?params ?cm"
    by (rule start_inv [of example_GetHash "example_header uint256_zero 1000", OF example_start_hyps s(1)])
  have hash: "example_GetHash ?h = example_hash 2" "hashPrevBlock ?h = example_hash 1" "hdrBits ?h = 0x1d00ffff" "hdrTime ?h = 1100"
    "hdrVersion ?h = 4"
    using example_hash_nonzero by (simp_all add: example_GetHash_def example_header_def)
  have new: "example_GetHash ?h \<noteq> hashGenesisBlock ?params" "m_block_index (m_blockman ?cm) (example_GetHash ?h) = None"
    using s(2) unfolding hash(1) by (simp_all add: example_hash_def)
  have pow: "CheckProofOfWork (example_GetHash ?h) (hdrBits ?h) ?params"
    by (simp add: hash CheckProofOfWork_iff compact_neg_def example_compact_value main_powLimit_value example_hash_value)
  obtain n where n: "nMedianTimeSpan = Suc (Suc n)" by (rule that [of 9]) (simp add: nMedianTimeSpan_def)
  have mtp: "GetMedianTimePast (m_block_index bm) (example_hash 1) = Some 1000"
    unfolding GetMedianTimePast_def n by (simp add: s GetBlockTime_def)
  have wf: "wf_index (m_block_index bm)" using inv by (simp add: headers_inv_def Let_def)
  obtain new where "GetNextWorkRequired (m_block_index bm) (Some (example_hash 1)) ?h ?params = Some new"
    using main_permitted [OF wf, of "example_hash 1" b ?h "example_hash 1"] s by (auto simp: example_compact_value)
  then have "GetNextWorkRequired (m_block_index bm) (Some (example_hash 1)) ?h ?params = Some 0x1d00ffff"
    by (auto simp: GetNextWorkRequired_def s main_schedule smod_nonneg split: bind_splits)
  moreover have "BIP34Height ?params = 17" "BIP65Height ?params = 1" "BIP66Height ?params = 1" by (simp_all add: CMainParams_def)
  ultimately have ctx: "ContextualCheckBlockHeader (m_block_index bm) ?params [] 5000 ?h (Some (hashPrevBlock ?h)) = Some (Inr ())"
    by (simp add: ContextualCheckBlockHeader_def s hash mtp [unfolded s(2)] GetLastCheckpoint_def DeploymentActiveAfter_def
        MAX_FUTURE_BLOCK_TIME_def)
  have "nStatus b AND BLOCK_FAILED_MASK = 0" using s(5) by (simp add: block_status_defs)
  moreover have "m_block_index (m_blockman ?cm) (hashPrevBlock ?h) = Some b" by (simp add: s(2) hash(2))
  ultimately obtain cm' b' where
    "AcceptBlockHeader example_GetHash ?params [] 5000 ?cm ?h True = Some (Some (example_GetHash ?h), Inr (), cm')"
    "m_block_index (m_blockman cm') = (m_block_index (m_blockman ?cm))(example_GetHash ?h \<mapsto> b')"
    using AcceptBlockHeader_correct [OF inv new, of "[]" 5000 True] pow ctx by auto
  with inv show ?thesis unfolding hash(1) by fastforce
qed

end
