(* ===== verification/Connect_Block.thy ===== *)
theory Connect_Block
  imports Subsidy Header_Accept
begin

text \<open>
  Connecting a block to the set of unspent coins and disconnecting it again: \<open>UpdateCoins\<close>,
  \<open>CheckInputScripts\<close>, \<open>ConnectBlock\<close>, \<open>ApplyTxInUndo\<close> and \<open>DisconnectBlock\<close> of
  \<open>src/validation.cpp\<close>, with the undo data of \<open>src/undo.h\<close>. The coins are the cache and the view
  below it of the theory of coins. What the code takes from elsewhere is the record of the
  environment: the hash functions, script verification, the cache of verified scripts, the writing
  of undo data, and the configuration.
\<close>

section \<open>Environment\<close>

text \<open>
  \<open>env_VerifyScript tx spent i flags\<close> runs the script check of input \<open>i\<close> of a transaction that
  spends the outputs \<open>spent\<close>; an error is the text of the script error. \<open>env_script_cached\<close> are
  the transactions and flags in the cache of script executions. \<open>env_write_undo\<close> returns the index
  after undo data has been written, or nothing if that fails. \<open>env_founder_script\<close> is the script
  of the founder address, or nothing if the address does not decode.
\<close>

record ConnectEnv =
  env_Hash :: "bytes \<Rightarrow> uint256"
  env_GetHash :: "CBlockHeader \<Rightarrow> uint256"
  env_signet :: "CBlock \<Rightarrow> Params \<Rightarrow> bool"
  env_usage :: "Coin \<Rightarrow> uint64"
  env_VerifyScript :: "CTransaction \<Rightarrow> CTxOut list \<Rightarrow> nat \<Rightarrow> uint32 \<Rightarrow> string + unit"
  env_script_cached :: "CTransaction \<Rightarrow> uint32 \<Rightarrow> bool"
  env_write_undo :: "Coin list list \<Rightarrow> BlockManager \<Rightarrow> block_ptr \<Rightarrow> BlockManager option"
  env_params :: Params
  env_founder_script :: "CScript option"
  env_assumed_valid :: uint256
  env_minimum_chain_work :: base_uint
  env_parallel :: bool

type_synonym CTxUndo = "Coin list"
type_synonym CBlockUndo = "CTxUndo list"

text \<open>The outcome of connecting: success, an invalid block, or an error that is not the block's fault.\<close>

datatype 'a validation = Valid 'a | Invalid BlockValidationResult string | SystemError string

section \<open>Updating the coins\<close>

primrec spend_inputs :: "(Coin \<Rightarrow> uint64) \<Rightarrow> coins_state \<Rightarrow> CTxIn list \<Rightarrow> (CTxUndo \<times> coins_state) option" where
  "spend_inputs usage s [] = Some ([], s)"
| "spend_inputs usage s (i # ins) =
     (case SpendCoin usage (fst s) (snd s) (prevout i) of
        (None, s') \<Rightarrow> None
      | (Some coin, s') \<Rightarrow> map_option (\<lambda>(undo, s''). (coin # undo, s'')) (spend_inputs usage s' ins))"

definition UpdateCoins ::
  "(Coin \<Rightarrow> uint64) \<Rightarrow> (bytes \<Rightarrow> uint256) \<Rightarrow> CTransaction \<Rightarrow> coins_state \<Rightarrow> int \<Rightarrow> (CTxUndo \<times> coins_state) option" where
  "UpdateCoins usage Hash tx s height = do {
     (txundo, s') \<leftarrow> (if \<not> IsCoinBase tx then spend_inputs usage s (vin tx) else Some ([], s));
     s'' \<leftarrow> AddCoins usage Hash (fst s') (snd s') tx height False;
     Some (txundo, s'')
   }"

section \<open>Script checks\<close>

definition MANDATORY_SCRIPT_VERIFY_FLAGS :: uint32 where
  "MANDATORY_SCRIPT_VERIFY_FLAGS =
     SCRIPT_VERIFY_P2SH OR SCRIPT_VERIFY_DERSIG OR SCRIPT_VERIFY_NULLDUMMY OR SCRIPT_VERIFY_CHECKLOCKTIMEVERIFY OR
     SCRIPT_VERIFY_CHECKSEQUENCEVERIFY OR SCRIPT_VERIFY_WITNESS OR SCRIPT_VERIFY_TAPROOT"

definition STANDARD_SCRIPT_VERIFY_FLAGS :: uint32 where
  "STANDARD_SCRIPT_VERIFY_FLAGS =
     MANDATORY_SCRIPT_VERIFY_FLAGS OR SCRIPT_VERIFY_STRICTENC OR SCRIPT_VERIFY_MINIMALDATA OR
     SCRIPT_VERIFY_DISCOURAGE_UPGRADABLE_NOPS OR SCRIPT_VERIFY_CLEANSTACK OR SCRIPT_VERIFY_MINIMALIF OR
     SCRIPT_VERIFY_NULLFAIL OR SCRIPT_VERIFY_LOW_S OR SCRIPT_VERIFY_DISCOURAGE_UPGRADABLE_WITNESS_PROGRAM OR
     SCRIPT_VERIFY_WITNESS_PUBKEYTYPE OR SCRIPT_VERIFY_CONST_SCRIPTCODE OR
     SCRIPT_VERIFY_DISCOURAGE_UPGRADABLE_TAPROOT_VERSION OR SCRIPT_VERIFY_DISCOURAGE_OP_SUCCESS OR
     SCRIPT_VERIFY_DISCOURAGE_UPGRADABLE_PUBKEYTYPE"

definition STANDARD_NOT_MANDATORY_VERIFY_FLAGS :: uint32 where
  "STANDARD_NOT_MANDATORY_VERIFY_FLAGS = STANDARD_SCRIPT_VERIFY_FLAGS AND NOT MANDATORY_SCRIPT_VERIFY_FLAGS"

text \<open>A deferred check: the transaction, the outputs it spends, the input and the flags.\<close>

type_synonym CScriptCheck = "CTransaction \<times> CTxOut list \<times> nat \<times> uint32"

definition run_check :: "ConnectEnv \<Rightarrow> CScriptCheck \<Rightarrow> string + unit" where
  "run_check env check = (case check of (tx, spent, i, flags) \<Rightarrow> env_VerifyScript env tx spent i flags)"

primrec spent_outputs :: "(Coin \<Rightarrow> uint64) \<Rightarrow> coins_state \<Rightarrow> CTxIn list \<Rightarrow> (CTxOut list \<times> coins_state) option" where
  "spent_outputs usage s [] = Some ([], s)"
| "spent_outputs usage s (i # ins) =
     (let (coin, s') = AccessCoin usage (fst s) (snd s) (prevout i)
      in if IsSpent coin then None
         else map_option (\<lambda>(outs, s''). (coin_out coin # outs, s'')) (spent_outputs usage s' ins))"

primrec run_input_checks :: "ConnectEnv \<Rightarrow> CTransaction \<Rightarrow> CTxOut list \<Rightarrow> uint32 \<Rightarrow> nat list \<Rightarrow> unit tx_check" where
  "run_input_checks env tx spent flags [] = Inr ()"
| "run_input_checks env tx spent flags (i # ins) =
     (case run_check env (tx, spent, i, flags) of
        Inr _ \<Rightarrow> run_input_checks env tx spent flags ins
      | Inl err \<Rightarrow>
          if flags AND STANDARD_NOT_MANDATORY_VERIFY_FLAGS \<noteq> 0 \<and>
             run_check env (tx, spent, i, flags AND NOT STANDARD_NOT_MANDATORY_VERIFY_FLAGS) = Inr ()
          then Inl (TX_NOT_STANDARD, ''non-mandatory-script-verify-flag ('' @ err @ '')'')
          else Inl (TX_CONSENSUS, ''mandatory-script-verify-flag-failed ('' @ err @ '')''))"

text \<open>With \<open>defer\<close> the checks are returned and not run.\<close>

definition CheckInputScripts ::
  "ConnectEnv \<Rightarrow> CTransaction \<Rightarrow> coins_state \<Rightarrow> uint32 \<Rightarrow> bool \<Rightarrow>
   (unit tx_check \<times> CScriptCheck list \<times> coins_state) option" where
  "CheckInputScripts env tx s flags defer =
     (if IsCoinBase tx then Some (Inr (), [], s)
      else if env_script_cached env tx flags then Some (Inr (), [], s)
      else do {
        (spent, s') \<leftarrow> spent_outputs (env_usage env) s (vin tx);
        Some (if defer then (Inr (), map (\<lambda>i. (tx, spent, i, flags)) [0..<length (vin tx)], s')
              else (run_input_checks env tx spent flags [0..<length (vin tx)], [], s'))
      })"

definition GetBlockScriptFlags :: "block_ptr \<Rightarrow> CBlockIndex \<Rightarrow> Params \<Rightarrow> uint32" where
  "GetBlockScriptFlags hash block_index params =
     (case script_flag_exceptions params hash of
        None \<Rightarrow> SCRIPT_VERIFY_P2SH OR SCRIPT_VERIFY_WITNESS OR SCRIPT_VERIFY_TAPROOT
      | Some flags \<Rightarrow> flags) OR
     (if DeploymentActiveAt block_index params DEPLOYMENT_DERSIG then SCRIPT_VERIFY_DERSIG else 0) OR
     (if DeploymentActiveAt block_index params DEPLOYMENT_CLTV then SCRIPT_VERIFY_CHECKLOCKTIMEVERIFY else 0) OR
     (if DeploymentActiveAt block_index params DEPLOYMENT_CSV then SCRIPT_VERIFY_CHECKSEQUENCEVERIFY else 0) OR
     (if DeploymentActiveAt block_index params DEPLOYMENT_SEGWIT then SCRIPT_VERIFY_NULLDUMMY else 0)"

definition GetBlockProofEquivalentTime :: "CBlockIndex \<Rightarrow> CBlockIndex \<Rightarrow> CBlockIndex \<Rightarrow> Params \<Rightarrow> int option" where
  "GetBlockProofEquivalentTime to from tip params =
     (let (r, sign) = (if uint_gt (nChainWork to) (nChainWork from)
                       then (uint_sub (nChainWork to) (nChainWork from), 1)
                       else (uint_sub (nChainWork from) (nChainWork to), -1))
      in do {
        work \<leftarrow> GetBlockProof (nBits tip);
        q \<leftarrow> uint_div (uint_mul r (base_uint_of_u64 (word_of_int (nPowTargetSpacing params)))) work;
        Some (if uint_bits q > 63 then sign * (2 ^ 63 - 1) else sign * sint (GetLow64 q))
      })"

text \<open>Scripts below a block that is assumed valid are not checked when it is buried deeply enough.\<close>

definition script_checks_needed :: "ConnectEnv \<Rightarrow> ChainstateManager \<Rightarrow> block_ptr \<Rightarrow> CBlockIndex \<Rightarrow> bool option" where
  "script_checks_needed env cm pindex b =
     (let H = m_block_index (m_blockman cm) in
      if IsNull (env_assumed_valid env) then Some True
      else case H (env_assumed_valid env) of
             None \<Rightarrow> Some True
           | Some _ \<Rightarrow> do {
               a \<leftarrow> GetAncestor H (env_assumed_valid env) (nHeight b);
               if a \<noteq> Some pindex then Some True
               else do {
                 best \<leftarrow> m_best_header cm;
                 a' \<leftarrow> GetAncestor H best (nHeight b);
                 x \<leftarrow> H best;
                 if a' = Some pindex \<and> uint_ge (nChainWork x) (env_minimum_chain_work env)
                 then map_option (\<lambda>t. t \<le> 60 * 60 * 24 * 7 * 2) (GetBlockProofEquivalentTime x b x (env_params env))
                 else Some True
               }
             })"

section \<open>Overwriting transactions\<close>

definition bip30_block_91842 :: uint256 where
  "bip30_block_91842 =
     [0xec, 0xca, 0xe0, 0, 0xe3, 0xc8, 0xe4, 0xe0, 0x93, 0x93, 0x63, 0x60, 0x43, 0x1f, 0x3b, 0x76,
     0x03, 0xc5, 0x63, 0xc1, 0xff, 0x61, 0x81, 0x39, 0x0a, 0x4d, 0x0a, 0, 0, 0, 0, 0]"

definition bip30_block_91880 :: uint256 where
  "bip30_block_91880 =
     [0x21, 0xd7, 0x7c, 0xcb, 0x4c, 0x08, 0x38, 0x6a, 0x04, 0xac, 0x01, 0x96, 0xae, 0x10, 0xf6, 0xa1,
     0xd2, 0xc2, 0xa3, 0x77, 0x55, 0x8c, 0xa1, 0x90, 0xf1, 0x43, 0x07, 0, 0, 0, 0, 0]"

definition bip30_block_91722 :: uint256 where
  "bip30_block_91722 =
     [0x8e, 0xd0, 0x4d, 0x57, 0xf2, 0xf3, 0xcd, 0xc6, 0xa6, 0xe5, 0x55, 0x69, 0xdc, 0x16, 0x54, 0xe1,
     0xf2, 0x19, 0x84, 0x7f, 0x66, 0xe7, 0x26, 0xdc, 0xa2, 0x71, 0x02, 0, 0, 0, 0, 0]"

definition bip30_block_91812 :: uint256 where
  "bip30_block_91812 =
     [0x2f, 0x6f, 0x30, 0xf9, 0xd6, 0x83, 0xde, 0xb8, 0x5d, 0x93, 0x14, 0xef, 0x5d, 0xcf, 0x36, 0xaf,
     0x66, 0xd9, 0xe3, 0xce, 0x1a, 0x2b, 0x79, 0xd4, 0xae, 0xf0, 0x0a, 0, 0, 0, 0, 0]"

definition IsBIP30Repeat :: "block_ptr \<Rightarrow> CBlockIndex \<Rightarrow> bool" where
  "IsBIP30Repeat hash b \<longleftrightarrow>
     nHeight b = 91842 \<and> hash = bip30_block_91842 \<or> nHeight b = 91880 \<and> hash = bip30_block_91880"

definition IsBIP30Unspendable :: "block_ptr \<Rightarrow> CBlockIndex \<Rightarrow> bool" where
  "IsBIP30Unspendable hash b \<longleftrightarrow>
     nHeight b = 91722 \<and> hash = bip30_block_91722 \<or> nHeight b = 91812 \<and> hash = bip30_block_91812"

definition BIP34_IMPLIES_BIP30_LIMIT :: int where "BIP34_IMPLIES_BIP30_LIMIT = 1983702"

definition bip30_enforced :: "block_map \<Rightarrow> Params \<Rightarrow> block_ptr \<Rightarrow> CBlockIndex \<Rightarrow> bool option" where
  "bip30_enforced H params hash b = do {
     prev \<leftarrow> pprev b;
     pindexBIP34height \<leftarrow> GetAncestor H prev (BIP34Height params);
     let fEnforceBIP30 = (\<not> IsBIP30Repeat hash b \<and> pindexBIP34height \<noteq> Some (BIP34Hash params));
     Some (fEnforceBIP30 \<or> nHeight b \<ge> BIP34_IMPLIES_BIP30_LIMIT)
   }"

primrec have_any :: "(Coin \<Rightarrow> uint64) \<Rightarrow> coins_state \<Rightarrow> COutPoint list \<Rightarrow> bool \<times> coins_state" where
  "have_any usage s [] = (False, s)"
| "have_any usage s (p # ps) =
     (let (b, s') = HaveCoin usage (fst s) (snd s) p in if b then (True, s') else have_any usage s' ps)"

definition tx_outpoints :: "(bytes \<Rightarrow> uint256) \<Rightarrow> CTransaction \<Rightarrow> COutPoint list" where
  "tx_outpoints Hash tx = map (\<lambda>o'. \<lparr>op_hash = tx_GetHash Hash tx, op_n = of_nat o'\<rparr>) [0..<length (vout tx)]"

section \<open>Connecting\<close>

primrec prev_heights :: "(Coin \<Rightarrow> uint64) \<Rightarrow> coins_state \<Rightarrow> CTxIn list \<Rightarrow> int list \<times> coins_state" where
  "prev_heights usage s [] = ([], s)"
| "prev_heights usage s (i # ins) =
     (let (coin, s') = AccessCoin usage (fst s) (snd s) (prevout i);
          (hs, s'') = prev_heights usage s' ins
      in (coin_height coin # hs, s''))"

text \<open>The inputs of one transaction: the fees so far, or why the block is invalid.\<close>

definition connect_inputs ::
  "ConnectEnv \<Rightarrow> block_map \<Rightarrow> block_ptr \<Rightarrow> int \<Rightarrow> uint32 \<Rightarrow> int \<Rightarrow> coins_state \<Rightarrow> CTransaction \<Rightarrow>
   (int block_check \<times> coins_state) option" where
  "connect_inputs env H pindex height nLockTimeFlags nFees s tx =
     (if IsCoinBase tx then Some (Inr nFees, s)
      else do {
        (r, s1) \<leftarrow> CheckTxInputs (env_usage env) s tx height;
        (case r of
           Inl (_, reason) \<Rightarrow> Some (Inl (BLOCK_CONSENSUS, reason), s1)
         | Inr txfee \<Rightarrow>
             if \<not> MoneyRange (nFees + txfee)
             then Some (Inl (BLOCK_CONSENSUS, ''bad-txns-accumulated-fee-outofrange''), s1)
             else let (prevheights, s2) = prev_heights (env_usage env) s1 (vin tx)
                  in do {
                    ok \<leftarrow> SequenceLocks H tx nLockTimeFlags prevheights pindex;
                    Some (if ok then Inr (nFees + txfee) else Inl (BLOCK_CONSENSUS, ''bad-txns-nonfinal''), s2)
                  })
      })"

text \<open>What the loop over the transactions carries along; the undo data includes that of the coinbase.\<close>

record connect_acc =
  acc_nFees :: int
  acc_nSigOpsCost :: int
  acc_checks :: "CScriptCheck list"
  acc_undo :: CBlockUndo

definition connect_tx ::
  "ConnectEnv \<Rightarrow> block_map \<Rightarrow> block_ptr \<Rightarrow> int \<Rightarrow> uint32 \<Rightarrow> uint32 \<Rightarrow> bool \<Rightarrow> connect_acc \<Rightarrow> coins_state \<Rightarrow> CTransaction \<Rightarrow>
   (connect_acc block_check \<times> coins_state) option" where
  "connect_tx env H pindex height nLockTimeFlags flags fScriptChecks acc s tx = do {
     (r, s1) \<leftarrow> connect_inputs env H pindex height nLockTimeFlags (acc_nFees acc) s tx;
     (case r of
        Inl e \<Rightarrow> Some (Inl e, s1)
      | Inr nFees \<Rightarrow> do {
          (cost, s2) \<leftarrow> GetTransactionSigOpCost (env_usage env) s1 tx flags;
          let nSigOpsCost = acc_nSigOpsCost acc + cost;
          if nSigOpsCost > MAX_BLOCK_SIGOPS_COST then Some (Inl (BLOCK_CONSENSUS, ''bad-blk-sigops''), s2)
          else do {
            (r', checks, s3) \<leftarrow>
              (if \<not> IsCoinBase tx \<and> fScriptChecks then CheckInputScripts env tx s2 flags (env_parallel env)
               else Some (Inr (), [], s2));
            (case r' of
               Inl (_, reason) \<Rightarrow> Some (Inl (BLOCK_CONSENSUS, reason), s3)
             | Inr _ \<Rightarrow> do {
                 (txundo, s4) \<leftarrow> UpdateCoins (env_usage env) (env_Hash env) tx s3 height;
                 Some (Inr \<lparr>acc_nFees = nFees, acc_nSigOpsCost = nSigOpsCost, acc_checks = acc_checks acc @ checks,
                            acc_undo = acc_undo acc @ [txundo]\<rparr>, s4)
               })
          }
        })
   }"

primrec connect_txs ::
  "ConnectEnv \<Rightarrow> block_map \<Rightarrow> block_ptr \<Rightarrow> int \<Rightarrow> uint32 \<Rightarrow> uint32 \<Rightarrow> bool \<Rightarrow> connect_acc \<Rightarrow> coins_state \<Rightarrow> CTransaction list \<Rightarrow>
   (connect_acc block_check \<times> coins_state) option" where
  "connect_txs env H pindex height nLockTimeFlags flags fScriptChecks acc s [] = Some (Inr acc, s)"
| "connect_txs env H pindex height nLockTimeFlags flags fScriptChecks acc s (tx # txs) = do {
     (r, s') \<leftarrow> connect_tx env H pindex height nLockTimeFlags flags fScriptChecks acc s tx;
     (case r of
        Inl e \<Rightarrow> Some (Inl e, s')
      | Inr acc' \<Rightarrow> connect_txs env H pindex height nLockTimeFlags flags fScriptChecks acc' s' txs)
   }"

text \<open>The rules on the coinbase and the outcome of the deferred script checks.\<close>

definition check_coinbase :: "ConnectEnv \<Rightarrow> int \<Rightarrow> connect_acc \<Rightarrow> CTransaction list \<Rightarrow> unit block_check option" where
  "check_coinbase env height acc txs =
     (case txs of
        [] \<Rightarrow> None
      | cb # _ \<Rightarrow> do {
          amount_ok \<leftarrow> coinbase_amount_ok (acc_nFees acc) height (env_params env) cb;
          if \<not> amount_ok then Some (Inl (BLOCK_CONSENSUS, ''bad-cb-amount''))
          else do {
            expectedFounderReward \<leftarrow> GetFounderRewardForBlock height (env_params env);
            founder \<leftarrow>
              (if expectedFounderReward > 0
               then (case env_founder_script env of
                       None \<Rightarrow> Some (Inl (BLOCK_CONSENSUS, ''bad-cb-founder-config''))
                     | Some founderScript \<Rightarrow>
                         map_option (\<lambda>ok. if ok then Inr () else Inl (BLOCK_CONSENSUS, ''bad-cb-founder-reward''))
                           (founder_output_ok height (env_params env) founderScript cb))
               else Some (Inr ()));
            (case founder of
               Inl e \<Rightarrow> Some (Inl e)
             | Inr _ \<Rightarrow> Some (if list_all (\<lambda>c. run_check env c = Inr ()) (acc_checks acc) then Inr ()
                             else Inl (BLOCK_CONSENSUS, ''block-validation-failed'')))
          }
        })"

text \<open>The status of the connected block.\<close>

definition raise_scripts :: "BlockManager \<Rightarrow> block_ptr \<Rightarrow> BlockManager option" where
  "raise_scripts bm pindex = do {
     b \<leftarrow> m_block_index bm pindex;
     valid \<leftarrow> IsValid b BLOCK_VALID_SCRIPTS;
     if valid then Some bm
     else do {
       (_, b') \<leftarrow> RaiseValidity b BLOCK_VALID_SCRIPTS;
       Some (bm\<lparr>m_block_index := (m_block_index bm)(pindex \<mapsto> b'),
                m_dirty_blockindex := insert pindex (m_dirty_blockindex bm)\<rparr>)
     }
   }"

definition cache_GetBestBlock :: "coins_state \<Rightarrow> uint256 \<times> coins_state" where
  "cache_GetBestBlock s =
     (if IsNull (hashBlock (fst s))
      then let (h, base') = GetBestBlock (snd s) in (h, ((fst s)\<lparr>hashBlock := h\<rparr>, base'))
      else (hashBlock (fst s), s))"

text \<open>
  The block after \<open>CheckBlock\<close> and the genesis case. The undo data is part of the result; it is
  what is written.
\<close>

definition connect_checked ::
  "ConnectEnv \<Rightarrow> ChainstateManager \<Rightarrow> CBlock \<Rightarrow> block_ptr \<Rightarrow> CBlockIndex \<Rightarrow> coins_state \<Rightarrow> bool \<Rightarrow>
   (CBlockUndo validation \<times> coins_state \<times> ChainstateManager) option" where
  "connect_checked env cm block pindex b s fJustCheck = do {
     let H = m_block_index (m_blockman cm);
     fScriptChecks \<leftarrow> script_checks_needed env cm pindex b;
     bip30 \<leftarrow> bip30_enforced H (env_params env) pindex b;
     let (repeated, s1) =
       (if bip30 then have_any (env_usage env) s (concat (map (tx_outpoints (env_Hash env)) (vtx block))) else (False, s));
     if repeated then Some (Invalid BLOCK_CONSENSUS ''bad-txns-BIP30'', s1, cm)
     else do {
       (r, s2) \<leftarrow>
         connect_txs env H pindex (nHeight b)
           (if DeploymentActiveAt b (env_params env) DEPLOYMENT_CSV then LOCKTIME_VERIFY_SEQUENCE else 0)
           (GetBlockScriptFlags pindex b (env_params env)) fScriptChecks
           \<lparr>acc_nFees = 0, acc_nSigOpsCost = 0, acc_checks = [], acc_undo = []\<rparr> s1 (vtx block);
       (case r of
          Inl (res, reason) \<Rightarrow> Some (Invalid res reason, s2, cm)
        | Inr acc \<Rightarrow> do {
            c \<leftarrow> check_coinbase env (nHeight b) acc (vtx block);
            (case c of
               Inl (res, reason) \<Rightarrow> Some (Invalid res reason, s2, cm)
             | Inr _ \<Rightarrow>
                 let blockundo = tl (acc_undo acc) in
                 if fJustCheck then Some (Valid blockundo, s2, cm)
                 else (case env_write_undo env blockundo (m_blockman cm) pindex of
                         None \<Rightarrow> Some (SystemError ''WriteUndoDataForBlock'', s2, cm)
                       | Some bm \<Rightarrow> do {
                           bm' \<leftarrow> raise_scripts bm pindex;
                           Some (Valid blockundo, (SetBestBlock (fst s2) pindex, snd s2), cm\<lparr>m_blockman := bm'\<rparr>)
                         }))
          })
     }
   }"

definition ConnectBlock ::
  "ConnectEnv \<Rightarrow> ChainstateManager \<Rightarrow> CBlock \<Rightarrow> block_ptr \<Rightarrow> coins_state \<Rightarrow> bool \<Rightarrow>
   (CBlockUndo validation \<times> coins_state \<times> ChainstateManager) option" where
  "ConnectBlock env cm block pindex s fJustCheck = do {
     b \<leftarrow> m_block_index (m_blockman cm) pindex;
     if env_GetHash env (GetBlockHeader block) \<noteq> pindex then None
     else do {
       r \<leftarrow> CheckBlock (env_Hash env) (env_GetHash env) (env_signet env) block (env_params env) (\<not> fJustCheck) (\<not> fJustCheck);
       (case r of
          Inl (res, reason) \<Rightarrow>
            Some (if res = BLOCK_MUTATED
                  then SystemError ''Corrupt block found indicating potential hardware failure; shutting down''
                  else Invalid res reason, s, cm)
        | Inr block' \<Rightarrow>
            let (best, s1) = cache_GetBestBlock s in
            if (case pprev b of None \<Rightarrow> uint256_zero | Some q \<Rightarrow> q) \<noteq> best then None
            else if pindex = hashGenesisBlock (env_params env)
            then Some (Valid [], if fJustCheck then s1 else (SetBestBlock (fst s1) pindex, snd s1), cm)
            else connect_checked env cm block' pindex b s1 fJustCheck)
     }
   }"

section \<open>Disconnecting\<close>

datatype DisconnectResult = DISCONNECT_OK | DISCONNECT_UNCLEAN | DISCONNECT_FAILED

definition ApplyTxInUndo :: "(Coin \<Rightarrow> uint64) \<Rightarrow> Coin \<Rightarrow> coins_state \<Rightarrow> COutPoint \<Rightarrow> (DisconnectResult \<times> coins_state) option" where
  "ApplyTxInUndo usage undo s out =
     (let (have_it, s1) = HaveCoin usage (fst s) (snd s) out;
          fClean = (\<not> have_it);
          (undo', s2) =
            (if coin_height undo = 0
             then let (alternate, s2) = AccessByTxid usage (fst s1) (snd s1) (op_hash out)
                  in (if \<not> IsSpent alternate
                      then Some (undo\<lparr>coin_height := coin_height alternate, fCoinBase := fCoinBase alternate\<rparr>)
                      else None, s2)
             else (Some undo, s1))
      in case undo' of
           None \<Rightarrow> Some (DISCONNECT_FAILED, s2)
         | Some coin \<Rightarrow>
             map_option (\<lambda>cache. (if fClean then DISCONNECT_OK else DISCONNECT_UNCLEAN, (cache, snd s2)))
               (AddCoin usage (fst s2) out coin (\<not> fClean)))"

text \<open>The outputs of a transaction are spent in order; the result says whether all were as the block has them.\<close>

primrec spend_outputs ::
  "(Coin \<Rightarrow> uint64) \<Rightarrow> uint256 \<Rightarrow> int \<Rightarrow> bool \<Rightarrow> nat \<Rightarrow> CTxOut list \<Rightarrow> coins_state \<Rightarrow> bool \<times> coins_state" where
  "spend_outputs usage hash height is_coinbase o' [] s = (True, s)"
| "spend_outputs usage hash height is_coinbase o' (t # ts) s =
     (let (clean, s1) =
        (if IsUnspendable (scriptPubKey t) then (True, s)
         else let (r, s1) = SpendCoin usage (fst s) (snd s) \<lparr>op_hash = hash, op_n = of_nat o'\<rparr>
              in (case r of
                    None \<Rightarrow> False
                  | Some coin \<Rightarrow> t = coin_out coin \<and> height = coin_height coin \<and> is_coinbase = fCoinBase coin, s1));
          (clean', s2) = spend_outputs usage hash height is_coinbase (Suc o') ts s1
      in (clean \<and> clean', s2))"

text \<open>The inputs are restored in the order given, which is from the last to the first.\<close>

primrec restore_inputs :: "(Coin \<Rightarrow> uint64) \<Rightarrow> bool \<Rightarrow> (Coin \<times> COutPoint) list \<Rightarrow> coins_state \<Rightarrow> (bool option \<times> coins_state) option" where
  "restore_inputs usage clean [] s = Some (Some clean, s)"
| "restore_inputs usage clean (u # us) s = do {
     (res, s') \<leftarrow> ApplyTxInUndo usage (fst u) s (snd u);
     if res = DISCONNECT_FAILED then Some (None, s')
     else restore_inputs usage (clean \<and> res \<noteq> DISCONNECT_UNCLEAN) us s'
   }"

text \<open>
  The transactions in the order given, from the last to the first, each with its undo data; the
  coinbase has none. The result is the flag \<open>fClean\<close>, or nothing on failure.
\<close>

primrec disconnect_txs ::
  "(Coin \<Rightarrow> uint64) \<Rightarrow> (bytes \<Rightarrow> uint256) \<Rightarrow> int \<Rightarrow> bool \<Rightarrow> bool \<Rightarrow> (CTransaction \<times> CTxUndo option) list \<Rightarrow> coins_state \<Rightarrow>
   (bool option \<times> coins_state) option" where
  "disconnect_txs usage Hash height fEnforceBIP30 clean [] s = Some (Some clean, s)"
| "disconnect_txs usage Hash height fEnforceBIP30 clean (tu # tus) s =
     (let tx = fst tu;
          (ok, s1) = spend_outputs usage (tx_GetHash Hash tx) height (IsCoinBase tx) 0 (vout tx) s;
          clean1 = (clean \<and> (ok \<or> IsCoinBase tx \<and> \<not> fEnforceBIP30))
      in case snd tu of
           None \<Rightarrow> disconnect_txs usage Hash height fEnforceBIP30 clean1 tus s1
         | Some vprevout \<Rightarrow>
             if length vprevout \<noteq> length (vin tx) then Some (None, s1)
             else do {
               (r, s2) \<leftarrow> restore_inputs usage clean1 (rev (zip vprevout (map prevout (vin tx)))) s1;
               (case r of
                  None \<Rightarrow> Some (None, s2)
                | Some clean2 \<Rightarrow> disconnect_txs usage Hash height fEnforceBIP30 clean2 tus s2)
             })"

text \<open>The undo data read from disk is an argument; nothing is there if it cannot be read.\<close>

definition DisconnectBlock ::
  "(Coin \<Rightarrow> uint64) \<Rightarrow> (bytes \<Rightarrow> uint256) \<Rightarrow> CBlockUndo option \<Rightarrow> CBlock \<Rightarrow> block_ptr \<Rightarrow> CBlockIndex \<Rightarrow> coins_state \<Rightarrow>
   (DisconnectResult \<times> coins_state) option" where
  "DisconnectBlock usage Hash undo_read block pindex b s =
     (case undo_read of
        None \<Rightarrow> Some (DISCONNECT_FAILED, s)
      | Some blockUndo \<Rightarrow>
          if length blockUndo + 1 \<noteq> length (vtx block) then Some (DISCONNECT_FAILED, s)
          else do {
            (r, s1) \<leftarrow> disconnect_txs usage Hash (nHeight b) (\<not> IsBIP30Unspendable pindex b) True
                        (rev (zip (vtx block) (None # map Some blockUndo))) s;
            (case r of
               None \<Rightarrow> Some (DISCONNECT_FAILED, s1)
             | Some clean \<Rightarrow> do {
                 q \<leftarrow> pprev b;
                 Some (if clean then DISCONNECT_OK else DISCONNECT_UNCLEAN, (SetBestBlock (fst s1) q, snd s1))
               })
          })"

section \<open>What a transaction does to the coins\<close>

text \<open>
  The coins that a list of outputs creates, from index \<open>i\<close> on, and the effect of a transaction on
  the map of unspent coins: its inputs are removed and its spendable outputs are added.
\<close>

definition outs_map :: "uint256 \<Rightarrow> int \<Rightarrow> bool \<Rightarrow> nat \<Rightarrow> CTxOut list \<Rightarrow> COutPoint \<rightharpoonup> Coin" where
  "outs_map txid height cb i ts = (\<lambda>p.
     let k = unat (op_n p) in
     if op_hash p = txid \<and> i \<le> k \<and> k < i + length ts \<and> \<not> IsUnspendable (scriptPubKey (ts ! (k - i)))
     then Some (mk_Coin (ts ! (k - i)) height cb) else None)"

definition tx_outs :: "(bytes \<Rightarrow> uint256) \<Rightarrow> int \<Rightarrow> CTransaction \<Rightarrow> COutPoint \<rightharpoonup> Coin" where
  "tx_outs Hash height tx = outs_map (tx_GetHash Hash tx) height (IsCoinBase tx) 0 (vout tx)"

definition tx_spends :: "CTransaction \<Rightarrow> COutPoint list" where
  "tx_spends tx = (if IsCoinBase tx then [] else map prevout (vin tx))"

definition tx_effect :: "(bytes \<Rightarrow> uint256) \<Rightarrow> int \<Rightarrow> CTransaction \<Rightarrow> (COutPoint \<rightharpoonup> Coin) \<Rightarrow> (COutPoint \<rightharpoonup> Coin)" where
  "tx_effect Hash height tx m = (m |` (- set (tx_spends tx))) ++ tx_outs Hash height tx"

definition tx_undo :: "CTransaction \<Rightarrow> (COutPoint \<rightharpoonup> Coin) \<Rightarrow> CTxUndo" where
  "tx_undo tx m = map (\<lambda>p. the (m p)) (tx_spends tx)"

lemma outs_map_Nil [simp]: "outs_map txid height cb i [] = Map.empty"
  by (rule ext) (simp add: outs_map_def Let_def)

lemma outpoint_index:
  assumes "i < 2 ^ 32"
  shows "p = \<lparr>op_hash = h, op_n = of_nat i\<rparr> \<longleftrightarrow> op_hash p = h \<and> unat (op_n p) = i"
proof -
  have "unat (of_nat i :: uint32) = i" using assms by (simp add: unat_of_nat take_bit_nat_eq_self)
  then have "op_n p = of_nat i \<longleftrightarrow> unat (op_n p) = i" by (metis unsigned_word_eqI)
  then show ?thesis by (cases p) auto
qed

lemma outs_map_Cons:
  assumes "i < 2 ^ 32"
  shows "outs_map txid height cb i (t # ts) =
    (if IsUnspendable (scriptPubKey t) then Map.empty else [\<lparr>op_hash = txid, op_n = of_nat i\<rparr> \<mapsto> mk_Coin t height cb]) ++
    outs_map txid height cb (Suc i) ts"
proof (rule ext)
  fix p :: COutPoint
  let ?k = "unat (op_n p)"
  consider "op_hash p = txid" "?k = i" | "op_hash p \<noteq> txid \<or> ?k < i" | "op_hash p = txid" "i < ?k" by linarith
  then show "outs_map txid height cb i (t # ts) p =
    ((if IsUnspendable (scriptPubKey t) then Map.empty else [\<lparr>op_hash = txid, op_n = of_nat i\<rparr> \<mapsto> mk_Coin t height cb]) ++
    outs_map txid height cb (Suc i) ts) p"
  proof cases
    case 3
    then obtain j where "?k - i = Suc j" "j = ?k - Suc i" by (cases "?k - i") auto
    with 3 outpoint_index [OF assms, of p txid] show ?thesis by (auto simp: outs_map_def Let_def map_add_def)
  qed (use outpoint_index [OF assms, of p txid] in \<open>auto simp: outs_map_def Let_def map_add_def\<close>)
qed

lemma outs_map_not_null:
  assumes "outs_map txid height cb i ts p = Some c" "\<forall>t \<in> set ts. \<not> txout_IsNull t" "0 < height" "height < 2 ^ 31"
  shows "\<not> IsSpent c \<and> \<not> IsUnspendable (scriptPubKey (coin_out c)) \<and> 0 < coin_height c"
proof -
  let ?k = "unat (op_n p) - i"
  have "?k < length ts" "c = mk_Coin (ts ! ?k) height cb" "\<not> IsUnspendable (scriptPubKey (ts ! ?k))"
    using assms(1) by (auto simp: outs_map_def Let_def split: if_splits)
  with assms(2-4) nth_mem [of ?k ts] show ?thesis
    by (simp add: mk_Coin_def IsSpent_def take_bit_int_eq_self)
qed

lemma disjoint_insert: "A \<inter> D = {} \<Longrightarrow> B \<subseteq> A \<Longrightarrow> p \<notin> B \<Longrightarrow> B \<inter> insert p D = {}"
  by blast

lemma add_coins_loop_ok:
  "cache_inv usage (cache, base) \<Longrightarrow> i + length ts \<le> 2 ^ 32 \<Longrightarrow> \<forall>t \<in> set ts. \<not> txout_IsNull t \<Longrightarrow>
   dom (outs_map txid height cb i ts) \<inter> dom (cache_coins (cache, base)) = {} \<Longrightarrow>
   \<exists>s'. add_coins_loop usage txid height cb False i ts cache base = Some s' \<and> cache_inv usage s' \<and>
     cache_coins s' = cache_coins (cache, base) ++ outs_map txid height cb i ts"
proof (induction ts arbitrary: i cache)
  case Nil
  then show ?case by simp
next
  case (Cons t ts)
  let ?p = "\<lparr>op_hash = txid, op_n = of_nat i :: uint32\<rparr>" and ?c = "mk_Coin t height cb"
  have i: "i < 2 ^ 32" "Suc i + length ts \<le> 2 ^ 32" using Cons.prems(2) by simp_all
  note split = outs_map_Cons [OF i(1), of txid height cb t ts]
  have nn: "\<not> IsSpent ?c" using Cons.prems(3) by (simp add: mk_Coin_def IsSpent_def)
  have outs: "dom (outs_map txid height cb (Suc i) ts) \<subseteq> dom (outs_map txid height cb i (t # ts))"
    unfolding split by auto
  show ?case
  proof (cases "IsUnspendable (scriptPubKey t)")
    case True
    then have "AddCoin usage cache ?p ?c cb = Some cache" using nn by (simp add: AddCoin_def mk_Coin_def)
    moreover have "\<exists>s'. add_coins_loop usage txid height cb False (Suc i) ts cache base = Some s' \<and> cache_inv usage s' \<and>
     cache_coins s' = cache_coins (cache, base) ++ outs_map txid height cb (Suc i) ts"
      using Cons.prems(3,4) outs by (intro Cons.IH [OF Cons.prems(1) i(2)]) (simp, blast)
    ultimately show ?thesis using True split by simp
  next
    case False
    have "?p \<in> dom (outs_map txid height cb i (t # ts))" using False unfolding split by simp
    then have none: "cache_coins (cache, base) ?p = None" using Cons.prems(4) by blast
    have us: "\<not> IsUnspendable (scriptPubKey (coin_out ?c))" using False by (simp add: mk_Coin_def)
    from coins_cache.add_law [of usage "(cache, base)" ?c cb ?p, OF Cons.prems(1) nn us disjI2 [OF none]]
    obtain s1 where s1: "add_op usage (cache, base) ?p ?c cb = Some s1" "cache_inv usage s1"
      "cache_coins s1 = (cache_coins (cache, base))(?p \<mapsto> ?c)" by blast
    from s1(1) obtain cache1 where c1: "AddCoin usage cache ?p ?c cb = Some cache1" "s1 = (cache1, base)"
      by (auto simp: add_op_def)
    have pn: "?p \<notin> dom (outs_map txid height cb (Suc i) ts)"
      using outpoint_index [OF i(1), of ?p txid] by (auto simp: outs_map_def Let_def split: if_splits)
    have "dom (outs_map txid height cb (Suc i) ts) \<inter> dom (cache_coins (cache1, base)) = {}"
    proof -
      have "dom (cache_coins (cache1, base)) = insert ?p (dom (cache_coins (cache, base)))" using s1(3) c1(2) by simp
      then show ?thesis using disjoint_insert [OF Cons.prems(4) outs pn] by simp
    qed
    from Cons.IH [OF _ i(2) _ this] s1(2) c1(2) Cons.prems(3)
    obtain s' where s': "add_coins_loop usage txid height cb False (Suc i) ts cache1 base = Some s'" "cache_inv usage s'"
      "cache_coins s' = cache_coins (cache1, base) ++ outs_map txid height cb (Suc i) ts" by auto
    have "cache_coins (cache1, base) ++ outs_map txid height cb (Suc i) ts = cache_coins (cache, base) ++ outs_map txid height cb i (t # ts)"
      using False s1(3) c1(2) unfolding split by (simp add: fun_eq_iff map_add_def split: option.splits)
    with s' c1(1) show ?thesis by simp
  qed
qed

lemma spend_inputs_each: "spend_inputs usage s ins = spend_each (spend_op usage) s (map prevout ins)"
  by (induction ins arbitrary: s) (simp_all add: spend_op_def split: prod.split option.split)

text \<open>When a transaction can be applied to a map of coins.\<close>

definition tx_applies :: "(bytes \<Rightarrow> uint256) \<Rightarrow> int \<Rightarrow> CTransaction \<Rightarrow> (COutPoint \<rightharpoonup> Coin) \<Rightarrow> bool" where
  "tx_applies Hash height tx m \<longleftrightarrow>
     distinct (tx_spends tx) \<and> set (tx_spends tx) \<subseteq> dom m \<and> dom (tx_outs Hash height tx) \<inter> dom m = {} \<and>
     length (vout tx) \<le> 2 ^ 32 \<and> (\<forall>t \<in> set (vout tx). \<not> txout_IsNull t)"

lemma UpdateCoins_ok:
  assumes inv: "cache_inv usage s" and ap: "tx_applies Hash height tx (cache_coins s)"
  obtains s' where "UpdateCoins usage Hash tx s height = Some (tx_undo tx (cache_coins s), s')" "cache_inv usage s'"
    "cache_coins s' = tx_effect Hash height tx (cache_coins s)"
proof -
  let ?m = "cache_coins s"
  have ps: "\<forall>p \<in> set (tx_spends tx). ?m p \<noteq> None" using ap by (auto simp: tx_applies_def)
  obtain s1 where s1: "(if \<not> IsCoinBase tx then spend_inputs usage s (vin tx) else Some ([], s)) = Some (tx_undo tx ?m, s1)"
    "cache_inv usage s1" "cache_coins s1 = ?m |` (- set (tx_spends tx))"
  proof (cases "IsCoinBase tx")
    case True
    then show ?thesis using that [of s] inv by (simp add: tx_undo_def tx_spends_def restrict_map_def)
  next
    case False
    from coins_cache.spend_each_ok [OF inv _ ps] ap obtain s1 where
      "spend_each (spend_op usage) s (tx_spends tx) = Some (map (\<lambda>p. the (?m p)) (tx_spends tx), s1)" "cache_inv usage s1"
      "cache_coins s1 = (\<lambda>p. if p \<in> set (tx_spends tx) then None else ?m p)" by (auto simp: tx_applies_def)
    with False that [of s1] show ?thesis
      by (simp add: spend_inputs_each tx_undo_def tx_spends_def restrict_map_def fun_eq_iff)
  qed
  have "dom (outs_map (tx_GetHash Hash tx) height (IsCoinBase tx) 0 (vout tx)) \<inter> dom (cache_coins (fst s1, snd s1)) = {}"
    using ap s1(3) by (auto simp: tx_applies_def tx_outs_def)
  with add_coins_loop_ok [of usage "fst s1" "snd s1" 0 "vout tx" "tx_GetHash Hash tx" height "IsCoinBase tx"] s1(2) ap
  obtain s2 where "AddCoins usage Hash (fst s1) (snd s1) tx height False = Some s2" "cache_inv usage s2"
    "cache_coins s2 = cache_coins s1 ++ tx_outs Hash height tx"
    by (auto simp: tx_applies_def AddCoins_def tx_outs_def)
  with s1 that [of s2] show ?thesis by (simp add: UpdateCoins_def tx_effect_def)
qed

lemma spend_law:
  assumes "cache_inv usage s"
  obtains r s' where "SpendCoin usage (fst s) (snd s) p = (r, s')" "cache_inv usage s'"
    "cache_coins s' = (cache_coins s)(p := None)" "\<forall>coin. cache_coins s p = Some coin \<longrightarrow> r = Some coin"
proof -
  obtain r s' where "SpendCoin usage (fst s) (snd s) p = (r, s')" by (metis surj_pair)
  with coins_cache.spend_law [OF assms, of p r s'] that show ?thesis by (simp add: spend_op_def)
qed

lemma have_coin_law:
  assumes "cache_inv usage s"
  obtains s' where "HaveCoin usage (fst s) (snd s) p = (cache_coins s p \<noteq> None, s')" "cache_inv usage s'"
    "cache_coins s' = cache_coins s"
proof -
  have "wf_view usage (ViewCache (fst s) (snd s))" using assms by (simp add: cache_inv_def)
  from HaveCoin_ok [OF this, of p] obtain cache' base' where
    "HaveCoin usage (fst s) (snd s) p = (view_coins (ViewCache (fst s) (snd s)) p \<noteq> None, cache', base')"
    "wf_view usage (ViewCache cache' base')"
    "view_coins (ViewCache cache' base') = view_coins (ViewCache (fst s) (snd s))" .
  with that [of "(cache', base')"] assms show ?thesis by (simp add: cache_inv_def cache_coins_def)
qed

text \<open>Taking the outputs of a transaction back finds them as they were added.\<close>

lemma spend_outputs_ok:
  assumes h: "0 < height" "height < 2 ^ 31"
  shows "cache_inv usage s \<Longrightarrow> i + length ts \<le> 2 ^ 32 \<Longrightarrow> outs_map txid height cb i ts \<subseteq>\<^sub>m cache_coins s \<Longrightarrow>
   \<exists>s'. spend_outputs usage txid height cb i ts s = (True, s') \<and> cache_inv usage s' \<and>
     cache_coins s' = cache_coins s |` (- dom (outs_map txid height cb i ts))"
proof (induction ts arbitrary: i s)
  case Nil
  then show ?case by simp
next
  case (Cons t ts)
  let ?p = "\<lparr>op_hash = txid, op_n = of_nat i :: uint32\<rparr>" and ?c = "mk_Coin t height cb"
  have i: "i < 2 ^ 32" "Suc i + length ts \<le> 2 ^ 32" using Cons.prems(2) by simp_all
  note split = outs_map_Cons [OF i(1), of txid height cb t ts]
  have pn: "outs_map txid height cb (Suc i) ts ?p = None"
    using outpoint_index [OF i(1), of ?p txid] by (auto simp: outs_map_def Let_def)
  have sub: "outs_map txid height cb (Suc i) ts \<subseteq>\<^sub>m cache_coins s"
    using Cons.prems(3) unfolding split by (rule map_le_trans [rotated]) (rule map_le_map_add)
  show ?case
  proof (cases "IsUnspendable (scriptPubKey t)")
    case True
    with Cons.IH [OF Cons.prems(1) i(2) sub] split show ?thesis by auto
  next
    case False
    obtain r s1 where s1: "SpendCoin usage (fst s) (snd s) ?p = (r, s1)" "cache_inv usage s1"
      "cache_coins s1 = (cache_coins s)(?p := None)" "\<forall>coin. cache_coins s ?p = Some coin \<longrightarrow> r = Some coin"
      by (rule spend_law [OF Cons.prems(1)])
    have "outs_map txid height cb i (t # ts) ?p = Some ?c" using False pn unfolding split by (simp add: map_add_def)
    with Cons.prems(3) have "cache_coins s ?p = Some ?c" unfolding map_le_def by (metis domI)
    then have r: "r = Some ?c" using s1(4) by blast
    have "outs_map txid height cb (Suc i) ts \<subseteq>\<^sub>m cache_coins s1"
      using sub pn s1(3) by (auto simp: map_le_def)
    from Cons.IH [OF s1(2) i(2) this] obtain s2 where s2: "spend_outputs usage txid height cb (Suc i) ts s1 = (True, s2)"
      "cache_inv usage s2" "cache_coins s2 = cache_coins s1 |` (- dom (outs_map txid height cb (Suc i) ts))" by blast
    have "cache_coins s2 = cache_coins s |` (- dom (outs_map txid height cb i (t # ts)))"
      unfolding s2(3) s1(3) split using False by (auto simp: restrict_map_def fun_eq_iff map_add_def split: option.splits)
    moreover have "spend_outputs usage txid height cb i (t # ts) s = (True, s2)"
      using False s1(1) s2(1) r h by (simp add: mk_Coin_def take_bit_int_eq_self)
    ultimately show ?thesis using s2(2) by blast
  qed
qed

section \<open>Undoing a transaction\<close>

text \<open>Coins as blocks create them: unspent, spendable, of positive height, with an amount in range.\<close>

definition good_coin :: "Coin \<Rightarrow> bool" where
  "good_coin c \<longleftrightarrow> \<not> IsSpent c \<and> \<not> IsUnspendable (scriptPubKey (coin_out c)) \<and> 0 < coin_height c \<and> 0 \<le> nValue (coin_out c)"

definition good_coins :: "(COutPoint \<rightharpoonup> Coin) \<Rightarrow> bool" where
  "good_coins m \<longleftrightarrow> (\<forall>p c. m p = Some c \<longrightarrow> good_coin c)"

lemma ApplyTxInUndo_ok:
  assumes inv: "cache_inv usage s" and c: "good_coin c" and p: "cache_coins s p = None"
  obtains s' where "ApplyTxInUndo usage c s p = Some (DISCONNECT_OK, s')" "cache_inv usage s'"
    "cache_coins s' = (cache_coins s)(p \<mapsto> c)"
proof -
  obtain s1 where s1: "HaveCoin usage (fst s) (snd s) p = (cache_coins s p \<noteq> None, s1)" "cache_inv usage s1"
    "cache_coins s1 = cache_coins s" by (rule have_coin_law [OF inv])
  have "\<not> IsSpent c" "\<not> IsUnspendable (scriptPubKey (coin_out c))" "False \<or> cache_coins s1 p = None"
    using c p s1(3) by (simp_all add: good_coin_def)
  from coins_cache.add_law [OF s1(2) this] obtain s2 where s2: "add_op usage s1 p c False = Some s2" "cache_inv usage s2"
    "cache_coins s2 = (cache_coins s1)(p \<mapsto> c)" by blast
  have "ApplyTxInUndo usage c s p = Some (DISCONNECT_OK, s2)"
    using s1(1) s2(1) p c by (auto simp: ApplyTxInUndo_def good_coin_def add_op_def)
  with s2 s1(3) that show ?thesis by simp
qed

lemma restore_inputs_ok:
  "cache_inv usage s \<Longrightarrow> distinct (map snd us) \<Longrightarrow> \<forall>(c, p) \<in> set us. good_coin c \<and> cache_coins s p = None \<Longrightarrow>
   \<exists>s'. restore_inputs usage clean us s = Some (Some clean, s') \<and> cache_inv usage s' \<and>
     cache_coins s' = cache_coins s ++ map_of (map (\<lambda>(c, p). (p, c)) us)"
proof (induction us arbitrary: s)
  case Nil
  then show ?case by simp
next
  case (Cons u us)
  obtain c p where u: "u = (c, p)" by (cases u)
  with Cons.prems have cp: "good_coin c" "cache_coins s p = None" "p \<notin> snd ` set us" by auto
  obtain s1 where s1: "ApplyTxInUndo usage c s p = Some (DISCONNECT_OK, s1)" "cache_inv usage s1"
    "cache_coins s1 = (cache_coins s)(p \<mapsto> c)" by (rule ApplyTxInUndo_ok [OF Cons.prems(1) cp(1,2)])
  have "\<forall>(d, q) \<in> set us. good_coin d \<and> cache_coins s1 q = None"
    using Cons.prems(3) cp(3) s1(3) by (auto simp: image_iff)
  from Cons.IH [OF s1(2) _ this] Cons.prems(2) obtain s2 where s2: "restore_inputs usage clean us s1 = Some (Some clean, s2)"
    "cache_inv usage s2" "cache_coins s2 = cache_coins s1 ++ map_of (map (\<lambda>(c, p). (p, c)) us)" by auto
  have "map_of (map (\<lambda>(c, p). (p, c)) us) p = None"
    using cp(3) by (auto simp: map_of_eq_None_iff image_iff split_beta)
  then have "cache_coins s2 = cache_coins s ++ map_of (map (\<lambda>(c, p). (p, c)) (u # us))"
    unfolding s2(3) s1(3) u by (auto simp: fun_eq_iff map_add_def split: option.splits)
  moreover have "restore_inputs usage clean (u # us) s = Some (Some clean, s2)" using s1(1) s2(1) u by simp
  ultimately show ?case using s2(2) by blast
qed

lemma restrict_add_undo:
  assumes "set ps \<subseteq> dom m"
  shows "(m |` (- set ps)) ++ map_of (map (\<lambda>p. (p, the (m p))) ps) = m"
proof (rule ext)
  fix p
  have "map_of (map (\<lambda>p. (p, the (m p))) ps) p = (if p \<in> set ps then Some (the (m p)) else None)"
    by (induction ps) auto
  then show "((m |` (- set ps)) ++ map_of (map (\<lambda>p. (p, the (m p))) ps)) p = m p"
    using assms by (auto simp: map_add_def restrict_map_def)
qed

lemma tx_effect_outs:
  assumes "tx_applies Hash height tx m"
  shows "tx_outs Hash height tx \<subseteq>\<^sub>m tx_effect Hash height tx m"
    "tx_effect Hash height tx m |` (- dom (tx_outs Hash height tx)) = m |` (- set (tx_spends tx))"
proof -
  show "tx_outs Hash height tx \<subseteq>\<^sub>m tx_effect Hash height tx m" by (simp add: tx_effect_def)
  have "m p = None" if "tx_outs Hash height tx p = Some c" for p c
    using assms that by (auto simp: tx_applies_def dom_def)
  then show "tx_effect Hash height tx m |` (- dom (tx_outs Hash height tx)) = m |` (- set (tx_spends tx))"
    by (auto simp: tx_effect_def fun_eq_iff restrict_map_def map_add_def split: option.splits)
qed

text \<open>The undo step for one transaction, with the undo data that applying it produced.\<close>

definition undo_entry :: "CTransaction \<Rightarrow> (COutPoint \<rightharpoonup> Coin) \<Rightarrow> CTransaction \<times> CTxUndo option" where
  "undo_entry tx m = (tx, if IsCoinBase tx then None else Some (tx_undo tx m))"

lemma disconnect_tx_ok:
  assumes h: "0 < height" "height < 2 ^ 31" and inv: "cache_inv usage s" and ap: "tx_applies Hash height tx m"
    and good: "good_coins m" and s: "cache_coins s = tx_effect Hash height tx m"
  obtains s' where "disconnect_txs usage Hash height bip30 True (undo_entry tx m # tus) s = disconnect_txs usage Hash height bip30 True tus s'"
    "cache_inv usage s'" "cache_coins s' = m"
proof -
  let ?outs = "outs_map (tx_GetHash Hash tx) height (IsCoinBase tx) 0 (vout tx)" and ?m = "m |` (- set (tx_spends tx))"
  have sub: "?outs \<subseteq>\<^sub>m cache_coins s" and len: "0 + length (vout tx) \<le> 2 ^ 32" and sp: "set (tx_spends tx) \<subseteq> dom m"
    using tx_effect_outs(1) [OF ap] ap by (simp_all add: s tx_outs_def tx_applies_def)
  from spend_outputs_ok [OF h inv len sub] obtain s1 where s1:
    "spend_outputs usage (tx_GetHash Hash tx) height (IsCoinBase tx) 0 (vout tx) s = (True, s1)" "cache_inv usage s1"
    "cache_coins s1 = cache_coins s |` (- dom ?outs)" by blast
  have m1: "cache_coins s1 = ?m" using s1(3) tx_effect_outs(2) [OF ap] by (simp add: s tx_outs_def)
  show ?thesis
  proof (cases "IsCoinBase tx")
    case True
    then have "?m = m" by (simp add: tx_spends_def restrict_map_def)
    with True s1 m1 that [of s1] show ?thesis by (simp add: undo_entry_def)
  next
    case False
    then have ps: "tx_spends tx = map prevout (vin tx)" by (simp add: tx_spends_def)
    let ?us = "zip (tx_undo tx m) (map prevout (vin tx))"
    have us: "?us = map (\<lambda>p. (the (m p), p)) (tx_spends tx)" unfolding tx_undo_def ps by (simp add: zip_map_map comp_def zip_same_conv_map)
    have "distinct (map snd (rev ?us))" using ap by (simp add: us rev_map comp_def tx_applies_def)
    moreover have "\<forall>(c, p) \<in> set (rev ?us). good_coin c \<and> cache_coins s1 p = None"
      using good sp by (auto simp: us m1 good_coins_def)
    ultimately obtain s2 where s2: "restore_inputs usage True (rev ?us) s1 = Some (Some True, s2)" "cache_inv usage s2"
      "cache_coins s2 = cache_coins s1 ++ map_of (map (\<lambda>(c, p). (p, c)) (rev ?us))"
      using restore_inputs_ok [OF s1(2), of "rev ?us" True] by blast
    have "map (\<lambda>(c, p). (p, c)) (rev ?us) = map (\<lambda>p. (p, the (m p))) (rev (tx_spends tx))"
      by (simp add: us rev_map comp_def)
    then have "cache_coins s2 = m"
      using s2(3) m1 restrict_add_undo [of "rev (tx_spends tx)" m] sp by simp
    with s2(1,2) s1(1) False that [of s2] show ?thesis by (simp add: undo_entry_def tx_undo_def ps)
  qed
qed

section \<open>The transactions of a block\<close>

primrec apply_txs :: "(bytes \<Rightarrow> uint256) \<Rightarrow> int \<Rightarrow> CTransaction list \<Rightarrow> (COutPoint \<rightharpoonup> Coin) \<Rightarrow> (COutPoint \<rightharpoonup> Coin)" where
  "apply_txs Hash height [] m = m"
| "apply_txs Hash height (tx # txs) m = apply_txs Hash height txs (tx_effect Hash height tx m)"

primrec undo_entries :: "(bytes \<Rightarrow> uint256) \<Rightarrow> int \<Rightarrow> CTransaction list \<Rightarrow> (COutPoint \<rightharpoonup> Coin) \<Rightarrow> (CTransaction \<times> CTxUndo option) list" where
  "undo_entries Hash height [] m = []"
| "undo_entries Hash height (tx # txs) m = undo_entry tx m # undo_entries Hash height txs (tx_effect Hash height tx m)"

primrec txs_apply :: "(bytes \<Rightarrow> uint256) \<Rightarrow> int \<Rightarrow> CTransaction list \<Rightarrow> (COutPoint \<rightharpoonup> Coin) \<Rightarrow> bool" where
  "txs_apply Hash height [] m \<longleftrightarrow> True"
| "txs_apply Hash height (tx # txs) m \<longleftrightarrow>
     tx_applies Hash height tx m \<and> (\<forall>t \<in> set (vout tx). 0 \<le> nValue t) \<and> txs_apply Hash height txs (tx_effect Hash height tx m)"

lemma good_coins_effect:
  assumes "good_coins m" "\<forall>t \<in> set (vout tx). 0 \<le> nValue t" "0 < height" "height < 2 ^ 31"
  shows "good_coins (tx_effect Hash height tx m)"
  unfolding good_coins_def
proof (intro allI impI)
  fix p c assume c: "tx_effect Hash height tx m p = Some c"
  show "good_coin c"
  proof (cases "tx_outs Hash height tx p")
    case None
    with c have "m p = Some c" by (auto simp: tx_effect_def restrict_map_def map_add_def split: if_splits)
    with assms(1) show ?thesis by (simp add: good_coins_def)
  next
    case (Some d)
    with c have d: "d = c" by (simp add: tx_effect_def map_add_def)
    let ?k = "unat (op_n p)"
    have k: "?k < length (vout tx)" "c = mk_Coin (vout tx ! ?k) height (IsCoinBase tx)"
      using Some d by (auto simp: tx_outs_def outs_map_def Let_def split: if_splits)
    have "\<forall>t \<in> set (vout tx). \<not> txout_IsNull t" using assms(2) by (auto simp: txout_IsNull_def)
    from outs_map_not_null [OF Some [unfolded d tx_outs_def] this assms(3,4)] k assms(2) show ?thesis
      by (simp add: good_coin_def mk_Coin_def)
  qed
qed

lemma disconnect_txs_ok:
  assumes h: "0 < height" "height < 2 ^ 31"
  shows "cache_inv usage s \<Longrightarrow> txs_apply Hash height txs m \<Longrightarrow> good_coins m \<Longrightarrow> cache_coins s = apply_txs Hash height txs m \<Longrightarrow>
   \<exists>s'. disconnect_txs usage Hash height bip30 True (rev (undo_entries Hash height txs m) @ rest) s =
      disconnect_txs usage Hash height bip30 True rest s' \<and> cache_inv usage s' \<and> cache_coins s' = m"
proof (induction txs arbitrary: m rest s)
  case Nil
  then have "cache_coins s = m" by simp
  with Nil.prems(1) show ?case by (intro exI [of _ s]) simp
next
  case (Cons tx txs)
  have ap: "tx_applies Hash height tx m" "\<forall>t \<in> set (vout tx). 0 \<le> nValue t" "txs_apply Hash height txs (tx_effect Hash height tx m)"
    using Cons.prems(2) by simp_all
  from Cons.IH [OF Cons.prems(1) ap(3) good_coins_effect [OF Cons.prems(3) ap(2) h], of "undo_entry tx m # rest"] Cons.prems(4)
  obtain s1 where s1: "disconnect_txs usage Hash height bip30 True (rev (undo_entries Hash height txs (tx_effect Hash height tx m)) @ undo_entry tx m # rest) s =
      disconnect_txs usage Hash height bip30 True (undo_entry tx m # rest) s1" "cache_inv usage s1"
    "cache_coins s1 = tx_effect Hash height tx m" unfolding apply_txs.simps by blast
  obtain s2 where "disconnect_txs usage Hash height bip30 True (undo_entry tx m # rest) s1 = disconnect_txs usage Hash height bip30 True rest s2"
    "cache_inv usage s2" "cache_coins s2 = m"
    by (rule disconnect_tx_ok [OF h s1(2) ap(1) Cons.prems(3) s1(3)])
  with s1(1) show ?case by (intro exI [of _ s2]) simp
qed

section \<open>Reading does not change the coins\<close>

definition same_coins :: "(Coin \<Rightarrow> uint64) \<Rightarrow> coins_state \<Rightarrow> coins_state \<Rightarrow> bool" where
  "same_coins usage s s' \<longleftrightarrow> cache_inv usage s' \<and> cache_coins s' = cache_coins s"

lemma access_same: "cache_inv usage s \<Longrightarrow> AccessCoin usage (fst s) (snd s) p = (c, s') \<Longrightarrow> same_coins usage s s'"
  using access_law [of usage s p] by (metis Pair_inject same_coins_def)

lemma same_coins_trans: "same_coins usage s s' \<Longrightarrow> same_coins usage s' s'' \<Longrightarrow> same_coins usage s s''"
  by (simp add: same_coins_def)

lemma same_coins_inv: "same_coins usage s s' \<Longrightarrow> cache_inv usage s'"
  by (simp add: same_coins_def)

lemma prev_heights_same: "cache_inv usage s \<Longrightarrow> prev_heights usage s ins = (hs, s') \<Longrightarrow> same_coins usage s s'"
proof (induction ins arbitrary: s hs s')
  case Nil
  then show ?case by (simp add: same_coins_def)
next
  case (Cons i ins)
  obtain c s1 where c: "AccessCoin usage (fst s) (snd s) (prevout i) = (c, s1)" by (metis surj_pair)
  note s1 = access_same [OF Cons.prems(1) c]
  obtain hs1 s2 where "prev_heights usage s1 ins = (hs1, s2)" by (metis surj_pair)
  with Cons.IH [OF same_coins_inv [OF s1] this] Cons.prems(2) c same_coins_trans [OF s1] show ?case by simp
qed

lemma spent_outputs_same: "cache_inv usage s \<Longrightarrow> spent_outputs usage s ins = Some (os, s') \<Longrightarrow> same_coins usage s s'"
proof (induction ins arbitrary: s os)
  case Nil
  then show ?case by (simp add: same_coins_def)
next
  case (Cons i ins)
  obtain c s1 where c: "AccessCoin usage (fst s) (snd s) (prevout i) = (c, s1)" by (metis surj_pair)
  note s1 = access_same [OF Cons.prems(1) c]
  from Cons.prems(2) c obtain os1 where "spent_outputs usage s1 ins = Some (os1, s')" by (auto split: if_splits)
  from Cons.IH [OF same_coins_inv [OF s1] this] show ?case by (rule same_coins_trans [OF s1])
qed

lemma p2sh_sigops_same: "cache_inv usage s \<Longrightarrow> p2sh_sigops_loop usage s n ins = Some (k, s') \<Longrightarrow> same_coins usage s s'"
proof (induction ins arbitrary: s n)
  case Nil
  then show ?case by (simp add: same_coins_def)
next
  case (Cons i ins)
  obtain c s1 where c: "AccessCoin usage (fst s) (snd s) (prevout i) = (c, s1)" by (metis surj_pair)
  note s1 = access_same [OF Cons.prems(1) c]
  from Cons.prems(2) c obtain n1 where "p2sh_sigops_loop usage s1 n1 ins = Some (k, s')" by (auto split: if_splits)
  from Cons.IH [OF same_coins_inv [OF s1] this] show ?case by (rule same_coins_trans [OF s1])
qed

lemma witness_sigops_same: "cache_inv usage s \<Longrightarrow> witness_sigops_loop usage s flags n ins = Some (k, s') \<Longrightarrow> same_coins usage s s'"
proof (induction ins arbitrary: s n)
  case Nil
  then show ?case by (simp add: same_coins_def)
next
  case (Cons i ins)
  obtain c s1 where c: "AccessCoin usage (fst s) (snd s) (prevout i) = (c, s1)" by (metis surj_pair)
  note s1 = access_same [OF Cons.prems(1) c]
  from Cons.prems(2) c obtain n1 where "witness_sigops_loop usage s1 flags n1 ins = Some (k, s')"
    by (auto split: if_splits bind_splits)
  from Cons.IH [OF same_coins_inv [OF s1] this] show ?case by (rule same_coins_trans [OF s1])
qed

lemma sigop_cost_same:
  assumes inv: "cache_inv usage s" and r: "GetTransactionSigOpCost usage s tx flags = Some (n, s')"
  shows "same_coins usage s s'"
proof (cases "IsCoinBase tx")
  case True
  with r inv show ?thesis by (simp add: GetTransactionSigOpCost_def same_coins_def)
next
  case False
  from r False obtain n1 s1 n0 where
    p: "s1 = s \<or> GetP2SHSigOpCount usage s tx = Some (n0, s1)" and w: "witness_sigops_loop usage s1 flags n1 (vin tx) = Some (n, s')"
    by (auto simp: GetTransactionSigOpCost_def Let_def split: bind_splits if_splits)
  have sm: "same_coins usage s s1"
    using p inv p2sh_sigops_same [OF inv, of 0 "vin tx" n0 s1] False
    by (elim disjE) (simp_all add: GetP2SHSigOpCount_def same_coins_def)
  from witness_sigops_same [OF same_coins_inv [OF sm] w] show ?thesis by (rule same_coins_trans [OF sm])
qed

section \<open>What a successful connection has established\<close>

definition coin_value :: "(COutPoint \<rightharpoonup> Coin) \<Rightarrow> COutPoint \<Rightarrow> int" where
  "coin_value m p = (case m p of None \<Rightarrow> 0 | Some c \<Rightarrow> nValue (coin_out c))"

definition tx_fee :: "(COutPoint \<rightharpoonup> Coin) \<Rightarrow> CTransaction \<Rightarrow> int" where
  "tx_fee m tx =
     (if IsCoinBase tx then 0 else sum_list (map (coin_value m) (tx_spends tx)) - sum_list (map nValue (vout tx)))"

lemma connect_inputs_ok:
  assumes inv: "cache_inv usage s" and tx: "CheckTransaction tx = Inr ()" and u: "usage = env_usage env"
    and r: "connect_inputs env H pindex height lf nFees s tx = Some (Inr f, s')"
  shows "same_coins usage s s'" "f = nFees + tx_fee (cache_coins s) tx" "set (tx_spends tx) \<subseteq> dom (cache_coins s)"
    "0 \<le> tx_fee (cache_coins s) tx"
proof -
  have "same_coins usage s s' \<and> f = nFees + tx_fee (cache_coins s) tx \<and> set (tx_spends tx) \<subseteq> dom (cache_coins s) \<and>
    0 \<le> tx_fee (cache_coins s) tx"
  proof (cases "IsCoinBase tx")
    case True
    with r inv show ?thesis by (simp add: connect_inputs_def same_coins_def tx_fee_def tx_spends_def)
  next
    case False
    have pos: "0 \<le> sum_list (map nValue (vout tx))" using tx by (simp add: CheckTransaction_iff MoneyRange_def)
    from CheckTxInputs_ok [OF inv False CheckTransaction_GetValueOut [OF tx] pos, of height]
    obtain x s1 where x: "CheckTxInputs usage s tx height = Some (x, s1)" "cache_inv usage s1" "cache_coins s1 = cache_coins s"
      "\<And>fee. x = Inr fee \<longleftrightarrow> (\<forall>i \<in> set (vin tx). spendable (cache_coins s) height i) \<and>
        fee = sum_list (map (input_value (cache_coins s)) (vin tx)) - sum_list (map nValue (vout tx)) \<and>
        MoneyRange (fee + sum_list (map nValue (vout tx))) \<and> 0 \<le> fee" by blast
    obtain hs s2 where h: "prev_heights usage s1 (vin tx) = (hs, s2)" by (metis surj_pair)
    from r False x(1) h u obtain fee where fee: "x = Inr fee" "f = nFees + fee" "s' = s2"
      by (auto simp: connect_inputs_def Let_def split: sum.splits if_splits bind_splits)
    note v = x(4) [THEN iffD1, OF fee(1)]
    have "same_coins usage s1 s2" by (rule prev_heights_same [OF x(2) h])
    then have "same_coins usage s s'" using x(3) fee(3) by (simp add: same_coins_def)
    moreover have dom: "set (tx_spends tx) \<subseteq> dom (cache_coins s)"
      using v False by (auto simp: tx_spends_def spendable_def)
    moreover have "input_value (cache_coins s) i = coin_value (cache_coins s) (prevout i)" if "i \<in> set (vin tx)" for i
      using dom that False by (auto simp: input_value_def coin_value_def tx_spends_def split: option.splits)
    then have "sum_list (map (input_value (cache_coins s)) (vin tx)) = sum_list (map (coin_value (cache_coins s)) (tx_spends tx))"
      using False by (simp add: tx_spends_def comp_def cong: map_cong)
    ultimately show ?thesis using v fee(2) False by (simp add: tx_fee_def)
  qed
  then show "same_coins usage s s'" "f = nFees + tx_fee (cache_coins s) tx" "set (tx_spends tx) \<subseteq> dom (cache_coins s)"
    "0 \<le> tx_fee (cache_coins s) tx" by blast+
qed

lemma vout_short:
  assumes "CheckTransaction tx = Inr ()"
  shows "length (vout tx) \<le> 2 ^ 32"
proof -
  have "1 * length xs \<le> length (concat (map ser_txout xs))" for xs
  proof (induction xs)
    case (Cons x xs)
    then show ?case by (simp add: ser_txout_def ser_int64_def ser_word_def)
  qed simp
  then have "length (vout tx) \<le> length (SerializeTransaction False tx)"
    by (simp add: SerializeTransaction_def ser_vector_def trans_le_add2 trans_le_add1)
  with assms show ?thesis by (simp add: CheckTransaction_iff)
qed

lemma CheckInputScripts_same:
  assumes "cache_inv (env_usage env) s" "CheckInputScripts env tx s flags d = Some (r, cs, s')"
  shows "same_coins (env_usage env) s s'"
  using assms spent_outputs_same [OF assms(1), of "vin tx" _ s']
  by (auto simp: CheckInputScripts_def same_coins_def split: if_splits bind_splits)

definition spent_by :: "(COutPoint \<rightharpoonup> Coin) \<Rightarrow> CTransaction \<Rightarrow> CTxOut list" where
  "spent_by m tx = map (\<lambda>i. coin_out (the (m (prevout i)))) (vin tx)"

lemma spent_outputs_value:
  "cache_inv usage s \<Longrightarrow> spent_outputs usage s ins = Some (os, s') \<Longrightarrow>
   os = map (\<lambda>i. coin_out (the (cache_coins s (prevout i)))) ins"
proof (induction ins arbitrary: s os)
  case (Cons i ins)
  obtain c s1 where c: "AccessCoin usage (fst s) (snd s) (prevout i) = (c, s1)" "cache_inv usage s1"
    "cache_coins s1 = cache_coins s" "(if IsSpent c then None else Some c) = cache_coins s (prevout i)"
    by (rule access_law [OF Cons.prems(1)])
  from Cons.prems(2) c(1) obtain os1 where os1: "\<not> IsSpent c" "spent_outputs usage s1 ins = Some (os1, s')" "os = coin_out c # os1"
    by (auto split: if_splits)
  have "cache_coins s (prevout i) = Some c" using c(4) os1(1) by simp
  with Cons.IH [OF c(2) os1(2)] os1(3) c(3) show ?case by simp
qed simp

definition scripts_ok :: "ConnectEnv \<Rightarrow> uint32 \<Rightarrow> (COutPoint \<rightharpoonup> Coin) \<Rightarrow> CTransaction \<Rightarrow> bool" where
  "scripts_ok env flags m tx \<longleftrightarrow> (\<forall>j < length (vin tx). env_VerifyScript env tx (spent_by m tx) j flags = Inr ())"

lemma run_input_checks_Inr: "run_input_checks env tx spent flags js = Inr () \<longleftrightarrow> (\<forall>j \<in> set js. env_VerifyScript env tx spent j flags = Inr ())"
  by (induction js) (auto simp: run_check_def split: sum.splits)

lemma CheckInputScripts_ok:
  assumes "cache_inv (env_usage env) s" "\<not> IsCoinBase tx" "\<not> env_script_cached env tx flags"
    and "CheckInputScripts env tx s flags d = Some (Inr v, checks, s')" "list_all (\<lambda>c. run_check env c = Inr ()) checks"
  shows "scripts_ok env flags (cache_coins s) tx"
proof -
  obtain spent where sp: "spent_outputs (env_usage env) s (vin tx) = Some (spent, s')"
    and r: "if d then checks = map (\<lambda>i. (tx, spent, i, flags)) [0..<length (vin tx)]
            else run_input_checks env tx spent flags [0..<length (vin tx)] = Inr ()"
    using assms(2-4) by (auto simp: CheckInputScripts_def split: bind_splits if_splits)
  have "spent = spent_by (cache_coins s) tx"
    using spent_outputs_value [OF assms(1) sp] by (simp add: spent_by_def)
  with r assms(5) show ?thesis
    by (auto simp: scripts_ok_def run_input_checks_Inr list_all_iff run_check_def split: if_splits)
qed

text \<open>The parts of a transaction that is connected.\<close>

lemma connect_tx_Inr:
  assumes r: "connect_tx env H pindex height lf flags sc acc s tx = Some (Inr acc', s')"
  obtains f s1 n s2 v cs s3 u where
    "connect_inputs env H pindex height lf (acc_nFees acc) s tx = Some (Inr f, s1)"
    "GetTransactionSigOpCost (env_usage env) s1 tx flags = Some (n, s2)"
    "(if \<not> IsCoinBase tx \<and> sc then CheckInputScripts env tx s2 flags (env_parallel env) else Some (Inr (), [], s2)) = Some (Inr v, cs, s3)"
    "UpdateCoins (env_usage env) (env_Hash env) tx s3 height = Some (u, s')"
    "acc_nFees acc' = f" "acc_undo acc' = acc_undo acc @ [u]" "acc_checks acc' = acc_checks acc @ cs"
proof -
  let ?chk = "\<lambda>s2. if \<not> IsCoinBase tx \<and> sc then CheckInputScripts env tx s2 flags (env_parallel env) else Some (Inr (), [], s2)"
  obtain x s1 where x: "connect_inputs env H pindex height lf (acc_nFees acc) s tx = Some (x, s1)"
    using r by (auto simp: connect_tx_def split: bind_splits)
  obtain f where f: "x = Inr f" using r x by (cases x) (auto simp: connect_tx_def)
  obtain n s2 where n: "GetTransactionSigOpCost (env_usage env) s1 tx flags = Some (n, s2)"
    using r x f by (auto simp: connect_tx_def split: bind_splits)
  have cost: "\<not> acc_nSigOpsCost acc + n > MAX_BLOCK_SIGOPS_COST" using r x f n by (auto simp: connect_tx_def Let_def)
  obtain y cs s3 where y: "?chk s2 = Some (y, cs, s3)"
    using r x f n cost by (cases "?chk s2") (auto simp: connect_tx_def Let_def split: if_splits)
  obtain v where v: "y = Inr v" using r x f n cost y by (cases y) (auto simp: connect_tx_def Let_def)
  obtain u s4 where up: "UpdateCoins (env_usage env) (env_Hash env) tx s3 height = Some (u, s4)"
    using r x f n cost y v by (cases "UpdateCoins (env_usage env) (env_Hash env) tx s3 height") (auto simp: connect_tx_def Let_def)
  have fin: "s4 = s'" "acc_nFees acc' = f" "acc_undo acc' = acc_undo acc @ [u]" "acc_checks acc' = acc_checks acc @ cs"
    using r x f n cost y v up by (auto simp: connect_tx_def Let_def)
  show ?thesis using that [OF x [unfolded f] n y [unfolded v] up [unfolded fin(1)] fin(2-)] .
qed

lemma connect_tx_ok:
  assumes inv: "cache_inv (env_usage env) s" and tx: "CheckTransaction tx = Inr ()"
    and outs: "dom (tx_outs (env_Hash env) height tx) \<inter> dom (cache_coins s) = {}"
    and r: "connect_tx env H pindex height lf flags sc acc s tx = Some (Inr acc', s')"
  shows "cache_inv (env_usage env) s'" "cache_coins s' = tx_effect (env_Hash env) height tx (cache_coins s)"
    "tx_applies (env_Hash env) height tx (cache_coins s)" "acc_undo acc' = acc_undo acc @ [tx_undo tx (cache_coins s)]"
    "acc_nFees acc' = acc_nFees acc + tx_fee (cache_coins s) tx" "0 \<le> tx_fee (cache_coins s) tx"
    "\<exists>cs. acc_checks acc' = acc_checks acc @ cs \<and>
      (sc \<longrightarrow> \<not> IsCoinBase tx \<longrightarrow> \<not> env_script_cached env tx flags \<longrightarrow> list_all (\<lambda>c. run_check env c = Inr ()) cs \<longrightarrow>
       scripts_ok env flags (cache_coins s) tx)"
proof -
  obtain f s1 n s2 v cs s3 u where c: "connect_inputs env H pindex height lf (acc_nFees acc) s tx = Some (Inr f, s1)"
    "GetTransactionSigOpCost (env_usage env) s1 tx flags = Some (n, s2)"
    "(if \<not> IsCoinBase tx \<and> sc then CheckInputScripts env tx s2 flags (env_parallel env) else Some (Inr (), [], s2)) = Some (Inr v, cs, s3)"
    "UpdateCoins (env_usage env) (env_Hash env) tx s3 height = Some (u, s')"
    "acc_nFees acc' = f" "acc_undo acc' = acc_undo acc @ [u]" "acc_checks acc' = acc_checks acc @ cs"
    by (rule connect_tx_Inr [OF r])
  note ins = connect_inputs_ok [OF inv tx refl c(1)]
  have s2: "same_coins (env_usage env) s s2"
    by (rule same_coins_trans [OF ins(1) sigop_cost_same [OF same_coins_inv [OF ins(1)] c(2)]])
  note inv2 = same_coins_inv [OF s2]
  have s3: "same_coins (env_usage env) s s3"
    using c(3) s2 CheckInputScripts_same [OF inv2] same_coins_trans [OF s2] by (auto split: if_splits)
  have ap: "tx_applies (env_Hash env) height tx (cache_coins s)"
    using ins(3) outs tx vout_short [OF tx] by (auto simp: tx_applies_def tx_spends_def CheckTransaction_iff txout_IsNull_def MoneyRange_def)
  then have "tx_applies (env_Hash env) height tx (cache_coins s3)" using s3 by (simp add: same_coins_def)
  from UpdateCoins_ok [OF same_coins_inv [OF s3] this] c(4) s3
  have up: "u = tx_undo tx (cache_coins s)" "cache_inv (env_usage env) s'" "cache_coins s' = tx_effect (env_Hash env) height tx (cache_coins s)"
    by (auto simp: same_coins_def)
  show "cache_inv (env_usage env) s'" "cache_coins s' = tx_effect (env_Hash env) height tx (cache_coins s)"
    "tx_applies (env_Hash env) height tx (cache_coins s)" "acc_undo acc' = acc_undo acc @ [tx_undo tx (cache_coins s)]"
    "acc_nFees acc' = acc_nFees acc + tx_fee (cache_coins s) tx" "0 \<le> tx_fee (cache_coins s) tx"
    using up ap c(5,6) ins(2,4) by simp_all
  have "scripts_ok env flags (cache_coins s) tx"
    if "sc" "\<not> IsCoinBase tx" "\<not> env_script_cached env tx flags" "list_all (\<lambda>c. run_check env c = Inr ()) cs"
    using CheckInputScripts_ok [OF inv2 that(2,3) _ that(4), of "env_parallel env" v s3] c(3) that(1,2) s2
    by (simp add: same_coins_def)
  with c(7) show "\<exists>cs. acc_checks acc' = acc_checks acc @ cs \<and>
      (sc \<longrightarrow> \<not> IsCoinBase tx \<longrightarrow> \<not> env_script_cached env tx flags \<longrightarrow> list_all (\<lambda>c. run_check env c = Inr ()) cs \<longrightarrow>
       scripts_ok env flags (cache_coins s) tx)" by blast
qed

primrec undos :: "(bytes \<Rightarrow> uint256) \<Rightarrow> int \<Rightarrow> CTransaction list \<Rightarrow> (COutPoint \<rightharpoonup> Coin) \<Rightarrow> CBlockUndo" where
  "undos Hash height [] m = []"
| "undos Hash height (tx # txs) m = tx_undo tx m # undos Hash height txs (tx_effect Hash height tx m)"

primrec txs_fees :: "(bytes \<Rightarrow> uint256) \<Rightarrow> int \<Rightarrow> CTransaction list \<Rightarrow> (COutPoint \<rightharpoonup> Coin) \<Rightarrow> int" where
  "txs_fees Hash height [] m = 0"
| "txs_fees Hash height (tx # txs) m = tx_fee m tx + txs_fees Hash height txs (tx_effect Hash height tx m)"

lemma length_undos [simp]: "length (undos Hash height txs m) = length txs"
  by (induction txs arbitrary: m) simp_all

lemma undo_entries_zip:
  "list_all (\<lambda>tx. \<not> IsCoinBase tx) txs \<Longrightarrow> undo_entries Hash height txs m = zip txs (map Some (undos Hash height txs m))"
  by (induction txs arbitrary: m) (simp_all add: undo_entry_def)

lemma tx_outs_hash: "p \<in> dom (tx_outs Hash height tx) \<Longrightarrow> op_hash p = tx_GetHash Hash tx"
  by (auto simp: tx_outs_def outs_map_def Let_def split: if_splits)

lemma dom_tx_effect: "dom (tx_effect Hash height tx m) \<subseteq> dom m \<union> dom (tx_outs Hash height tx)"
  by (auto simp: tx_effect_def restrict_map_def split: if_splits)

lemma outs_fresh_step:
  assumes "\<forall>tx \<in> set (t # txs). dom (tx_outs Hash height tx) \<inter> dom m = {}" "distinct (map (tx_GetHash Hash) (t # txs))"
  shows "\<forall>tx \<in> set txs. dom (tx_outs Hash height tx) \<inter> dom (tx_effect Hash height t m) = {}"
proof
  fix tx assume tx: "tx \<in> set txs"
  then have "tx_GetHash Hash tx \<noteq> tx_GetHash Hash t" using assms(2) by (auto simp: image_iff)
  then have "p \<notin> dom (tx_outs Hash height t)" if "p \<in> dom (tx_outs Hash height tx)" for p
    using tx_outs_hash [OF that] tx_outs_hash [of p Hash height t] by auto
  moreover have "dom (tx_outs Hash height tx) \<inter> dom m = {}" using assms(1) tx by simp
  ultimately show "dom (tx_outs Hash height tx) \<inter> dom (tx_effect Hash height t m) = {}"
    using dom_tx_effect [of Hash height t m] by blast
qed

lemma connect_txs_ok:
  "cache_inv (env_usage env) s \<Longrightarrow> \<forall>tx \<in> set txs. CheckTransaction tx = Inr () \<Longrightarrow>
   \<forall>tx \<in> set txs. dom (tx_outs (env_Hash env) height tx) \<inter> dom (cache_coins s) = {} \<Longrightarrow>
   distinct (map (tx_GetHash (env_Hash env)) txs) \<Longrightarrow>
   connect_txs env H pindex height lf flags sc acc s txs = Some (Inr acc', s') \<Longrightarrow>
   cache_inv (env_usage env) s' \<and> cache_coins s' = apply_txs (env_Hash env) height txs (cache_coins s) \<and>
   txs_apply (env_Hash env) height txs (cache_coins s) \<and>
   acc_undo acc' = acc_undo acc @ undos (env_Hash env) height txs (cache_coins s) \<and>
   acc_nFees acc' = acc_nFees acc + txs_fees (env_Hash env) height txs (cache_coins s)"
proof (induction txs arbitrary: acc s)
  case Nil
  then show ?case by simp
next
  case (Cons tx txs)
  obtain x s1 where x: "connect_tx env H pindex height lf flags sc acc s tx = Some (x, s1)"
    using Cons.prems(5) by (auto split: bind_splits)
  obtain acc1 where acc1: "x = Inr acc1" using Cons.prems(5) x by (cases x) auto
  have rest: "connect_txs env H pindex height lf flags sc acc1 s1 txs = Some (Inr acc', s')"
    using Cons.prems(5) x acc1 by simp
  have tx: "CheckTransaction tx = Inr ()" "dom (tx_outs (env_Hash env) height tx) \<inter> dom (cache_coins s) = {}"
    using Cons.prems(2,3) by simp_all
  note step = connect_tx_ok [OF Cons.prems(1) tx x [unfolded acc1]]
  have fresh: "\<forall>tx \<in> set txs. dom (tx_outs (env_Hash env) height tx) \<inter> dom (cache_coins s1) = {}"
    unfolding step(2) by (rule outs_fresh_step [OF Cons.prems(3,4)])
  have "\<forall>t \<in> set (vout tx). 0 \<le> nValue t" using tx(1) by (simp add: CheckTransaction_iff MoneyRange_def)
  with Cons.IH [OF step(1) _ fresh _ rest] Cons.prems(2,4) step(2-5) show ?case by simp
qed

text \<open>With every check passed, each transaction after the coinbase has valid scripts for the coins before it.\<close>

primrec txs_scripts_ok :: "ConnectEnv \<Rightarrow> int \<Rightarrow> uint32 \<Rightarrow> CTransaction list \<Rightarrow> (COutPoint \<rightharpoonup> Coin) \<Rightarrow> bool" where
  "txs_scripts_ok env height flags [] m \<longleftrightarrow> True"
| "txs_scripts_ok env height flags (tx # txs) m \<longleftrightarrow>
     (IsCoinBase tx \<or> scripts_ok env flags m tx) \<and> txs_scripts_ok env height flags txs (tx_effect (env_Hash env) height tx m)"

lemma connect_txs_scripts:
  "cache_inv (env_usage env) s \<Longrightarrow> \<forall>tx \<in> set txs. CheckTransaction tx = Inr () \<Longrightarrow>
   \<forall>tx \<in> set txs. dom (tx_outs (env_Hash env) height tx) \<inter> dom (cache_coins s) = {} \<Longrightarrow>
   distinct (map (tx_GetHash (env_Hash env)) txs) \<Longrightarrow>
   connect_txs env H pindex height lf flags True acc s txs = Some (Inr acc', s') \<Longrightarrow>
   \<forall>tx \<in> set txs. \<not> env_script_cached env tx flags \<Longrightarrow>
   (\<exists>cs. acc_checks acc' = acc_checks acc @ cs) \<and>
   (list_all (\<lambda>c. run_check env c = Inr ()) (acc_checks acc') \<longrightarrow> txs_scripts_ok env height flags txs (cache_coins s))"
proof (induction txs arbitrary: acc s)
  case Nil
  then show ?case by simp
next
  case (Cons tx txs)
  obtain x s1 where x: "connect_tx env H pindex height lf flags True acc s tx = Some (x, s1)"
    using Cons.prems(5) by (auto split: bind_splits)
  obtain acc1 where acc1: "x = Inr acc1" using Cons.prems(5) x by (cases x) auto
  have rest: "connect_txs env H pindex height lf flags True acc1 s1 txs = Some (Inr acc', s')"
    using Cons.prems(5) x acc1 by simp
  have tx: "CheckTransaction tx = Inr ()" "dom (tx_outs (env_Hash env) height tx) \<inter> dom (cache_coins s) = {}"
    using Cons.prems(2,3) by simp_all
  note step = connect_tx_ok [OF Cons.prems(1) tx x [unfolded acc1]]
  have fresh: "\<forall>tx \<in> set txs. dom (tx_outs (env_Hash env) height tx) \<inter> dom (cache_coins s1) = {}"
    unfolding step(2) by (rule outs_fresh_step [OF Cons.prems(3,4)])
  from Cons.IH [OF step(1) _ fresh _ rest] Cons.prems(2,4,6) step(2,7) show ?case by auto
qed

section \<open>Amounts\<close>

definition coin_supply :: "(COutPoint \<rightharpoonup> Coin) \<Rightarrow> int" where
  "coin_supply m = sum (coin_value m) (dom m)"

lemma finite_outs: "i + length ts \<le> 2 ^ 32 \<Longrightarrow> finite (dom (outs_map txid height cb i ts))"
  by (induction ts arbitrary: i) (simp_all add: outs_map_Cons)

lemma supply_restrict:
  assumes "finite (dom m)" "distinct ps" "set ps \<subseteq> dom m"
  shows "coin_supply (m |` (- set ps)) = coin_supply m - sum_list (map (coin_value m) ps)"
proof -
  have "coin_supply (m |` (- set ps)) = sum (coin_value m) (dom m - set ps)"
    unfolding coin_supply_def by (rule sum.cong) (auto simp: restrict_map_def coin_value_def split: if_splits)
  also have "\<dots> = coin_supply m - sum (coin_value m) (set ps)"
    unfolding coin_supply_def using assms by (intro sum_diff) auto
  finally show ?thesis using assms(2) by (simp add: sum_list_distinct_conv_sum_set)
qed

lemma supply_add:
  assumes "finite (dom m)" "finite (dom o')" "dom o' \<inter> dom m = {}"
  shows "coin_supply (m ++ o') = coin_supply m + coin_supply o'"
proof -
  have "coin_supply (m ++ o') = sum (coin_value (m ++ o')) (dom m) + sum (coin_value (m ++ o')) (dom o')"
    unfolding coin_supply_def dom_map_add using assms by (subst sum.union_disjoint [symmetric]) (auto simp: Un_commute)
  also have "sum (coin_value (m ++ o')) (dom m) = coin_supply m"
    unfolding coin_supply_def using assms(3) by (intro sum.cong) (auto simp: coin_value_def map_add_def split: option.splits)
  also have "sum (coin_value (m ++ o')) (dom o') = coin_supply o'"
    unfolding coin_supply_def by (intro sum.cong) (auto simp: coin_value_def map_add_def split: option.splits)
  finally show ?thesis .
qed

lemma supply_outs:
  "i + length ts \<le> 2 ^ 32 \<Longrightarrow> \<forall>t \<in> set ts. 0 \<le> nValue t \<Longrightarrow>
   coin_supply (outs_map txid height cb i ts) \<le> sum_list (map nValue ts)"
proof (induction ts arbitrary: i)
  case Nil
  then show ?case by (simp add: coin_supply_def)
next
  case (Cons t ts)
  let ?p = "\<lparr>op_hash = txid, op_n = of_nat i :: uint32\<rparr>"
  have i: "i < 2 ^ 32" "Suc i + length ts \<le> 2 ^ 32" using Cons.prems(1) by simp_all
  have IH: "coin_supply (outs_map txid height cb (Suc i) ts) \<le> sum_list (map nValue ts)"
    using Cons.prems(2) by (intro Cons.IH [OF i(2)]) simp
  show ?case
  proof (cases "IsUnspendable (scriptPubKey t)")
    case True
    with IH Cons.prems(2) show ?thesis by (simp add: outs_map_Cons [OF i(1)])
  next
    case False
    have "outs_map txid height cb (Suc i) ts ?p = None"
      using outpoint_index [OF i(1), of ?p txid] by (auto simp: outs_map_def Let_def)
    then have "coin_supply ([?p \<mapsto> mk_Coin t height cb] ++ outs_map txid height cb (Suc i) ts) =
        coin_supply [?p \<mapsto> mk_Coin t height cb] + coin_supply (outs_map txid height cb (Suc i) ts)"
      by (intro supply_add finite_outs [OF i(2)]) auto
    moreover have "coin_supply [?p \<mapsto> mk_Coin t height cb] = nValue t" by (simp add: coin_supply_def coin_value_def mk_Coin_def)
    ultimately show ?thesis using False IH by (simp add: outs_map_Cons [OF i(1)])
  qed
qed

lemma supply_effect:
  assumes fin: "finite (dom m)" and ap: "tx_applies Hash height tx m" and pos: "\<forall>t \<in> set (vout tx). 0 \<le> nValue t"
  shows "finite (dom (tx_effect Hash height tx m))"
    "coin_supply (tx_effect Hash height tx m) \<le>
      coin_supply m - sum_list (map (coin_value m) (tx_spends tx)) + sum_list (map nValue (vout tx))"
proof -
  have len: "0 + length (vout tx) \<le> 2 ^ 32" using ap by (simp add: tx_applies_def)
  have fo: "finite (dom (tx_outs Hash height tx))" unfolding tx_outs_def by (rule finite_outs [OF len])
  show "finite (dom (tx_effect Hash height tx m))"
    by (rule finite_subset [OF dom_tx_effect]) (simp add: fin fo)
  have "coin_supply (tx_effect Hash height tx m) = coin_supply (m |` (- set (tx_spends tx))) + coin_supply (tx_outs Hash height tx)"
    unfolding tx_effect_def using ap fin fo by (intro supply_add) (auto simp: tx_applies_def)
  moreover have "coin_supply (m |` (- set (tx_spends tx))) = coin_supply m - sum_list (map (coin_value m) (tx_spends tx))"
    using ap fin by (intro supply_restrict) (simp_all add: tx_applies_def)
  moreover have "coin_supply (tx_outs Hash height tx) \<le> sum_list (map nValue (vout tx))"
    unfolding tx_outs_def by (rule supply_outs [OF len pos])
  ultimately show "coin_supply (tx_effect Hash height tx m) \<le>
      coin_supply m - sum_list (map (coin_value m) (tx_spends tx)) + sum_list (map nValue (vout tx))" by simp
qed

text \<open>The transactions after the coinbase take their fees out of the supply.\<close>

lemma good_coins_txs:
  assumes "txs_apply Hash height txs m" "good_coins m" "finite (dom m)" "0 < height" "height < 2 ^ 31"
  shows "good_coins (apply_txs Hash height txs m) \<and> finite (dom (apply_txs Hash height txs m))"
  using assms(1-3)
proof (induction txs arbitrary: m)
  case (Cons tx txs)
  then have ap: "tx_applies Hash height tx m" "\<forall>t \<in> set (vout tx). 0 \<le> nValue t" by simp_all
  from Cons.IH [OF _ good_coins_effect [OF Cons.prems(2) ap(2) assms(4,5)] supply_effect(1) [OF Cons.prems(3) ap]] Cons.prems(1)
  show ?case by simp
qed simp

lemma supply_txs:
  "finite (dom m) \<Longrightarrow> txs_apply Hash height txs m \<Longrightarrow> list_all (\<lambda>tx. \<not> IsCoinBase tx) txs \<Longrightarrow>
   coin_supply (apply_txs Hash height txs m) \<le> coin_supply m - txs_fees Hash height txs m"
proof (induction txs arbitrary: m)
  case (Cons tx txs)
  then have ap: "tx_applies Hash height tx m" "\<forall>t \<in> set (vout tx). 0 \<le> nValue t" by simp_all
  note e = supply_effect [OF Cons.prems(1) ap]
  have "coin_supply (apply_txs Hash height txs (tx_effect Hash height tx m)) \<le>
      coin_supply (tx_effect Hash height tx m) - txs_fees Hash height txs (tx_effect Hash height tx m)"
    using Cons.prems by (intro Cons.IH [OF e(1)]) simp_all
  with e(2) Cons.prems(3) show ?case by (simp add: tx_fee_def)
qed simp

section \<open>A connected block\<close>

lemma GetBestBlock_same:
  "GetBestBlock view = (h, view') \<Longrightarrow> wf_view usage view' = wf_view usage view \<and> view_coins view' = view_coins view"
proof (induction view arbitrary: h view')
  case (ViewCache cache base)
  obtain h' base' where b: "GetBestBlock base = (h', base')" by (metis surj_pair)
  from ViewCache.IH [OF b] ViewCache.prems b show ?case
    by (auto simp: view_coins.simps(2) cache_ok_def split: if_splits cong: option.case_cong)
qed auto

lemma cache_GetBestBlock_same:
  assumes "cache_inv usage s" "cache_GetBestBlock s = (h, s')"
  shows "same_coins usage s s'"
proof -
  obtain h' base' where b: "GetBestBlock (snd s) = (h', base')" by (metis surj_pair)
  from GetBestBlock_same [OF b, of usage] assms b show ?thesis
    by (auto simp: cache_GetBestBlock_def same_coins_def cache_inv_def cache_coins_def view_coins.simps(2) cache_ok_def split: if_splits cong: option.case_cong)
qed

lemma SetBestBlock_same: "cache_inv usage s \<Longrightarrow> same_coins usage s (SetBestBlock (fst s) h, snd s)"
  by (simp add: same_coins_def cache_inv_def cache_coins_def SetBestBlock_def view_coins.simps(2) cache_ok_def)

lemma have_any_ok:
  "cache_inv usage s \<Longrightarrow> have_any usage s ps = (b, s') \<Longrightarrow> same_coins usage s s' \<and> (b \<longleftrightarrow> (\<exists>p \<in> set ps. cache_coins s p \<noteq> None))"
proof (induction ps arbitrary: s)
  case Nil
  then show ?case by (simp add: same_coins_def)
next
  case (Cons p ps)
  obtain s1 where s1: "HaveCoin usage (fst s) (snd s) p = (cache_coins s p \<noteq> None, s1)" "cache_inv usage s1"
    "cache_coins s1 = cache_coins s" by (rule have_coin_law [OF Cons.prems(1)])
  show ?case
  proof (cases "cache_coins s p")
    case None
    with s1 Cons.prems(2) have "have_any usage s1 ps = (b, s')" by simp
    from Cons.IH [OF s1(2) this] s1(3) None show ?thesis by (simp add: same_coins_def)
  next
    case (Some c)
    with s1 Cons.prems(2) show ?thesis by (simp add: same_coins_def)
  qed
qed

lemma dom_tx_outs:
  assumes "length (vout tx) \<le> 2 ^ 32"
  shows "dom (tx_outs Hash height tx) \<subseteq> set (tx_outpoints Hash tx)"
proof
  fix p assume "p \<in> dom (tx_outs Hash height tx)"
  then have k: "op_hash p = tx_GetHash Hash tx" "unat (op_n p) < length (vout tx)"
    by (auto simp: tx_outs_def outs_map_def Let_def split: if_splits)
  let ?f = "\<lambda>n. \<lparr>op_hash = tx_GetHash Hash tx, op_n = of_nat n :: uint32\<rparr>"
  have "p = ?f (unat (op_n p))" using k(1) by (cases p) simp
  moreover have "unat (op_n p) \<in> {0..<length (vout tx)}" using k(2) by simp
  ultimately have "p \<in> ?f ` {0..<length (vout tx)}" by (rule image_eqI)
  then show "p \<in> set (tx_outpoints Hash tx)" by (simp add: tx_outpoints_def)
qed

lemma CheckBlock_Inr:
  assumes "CheckBlock Hash GetHash signet block params pow merkle = Some (Inr block')" "\<not> fChecked block"
  shows "vtx block' = vtx block"
    "\<exists>cb txs. vtx block = cb # txs \<and> IsCoinBase cb \<and> list_all (\<lambda>tx. \<not> IsCoinBase tx) txs"
    "\<forall>tx \<in> set (vtx block). CheckTransaction tx = Inr ()"
proof -
  from assms obtain b1 r where b1: "(if merkle then CheckMerkleRoot Hash block else Inr block) = Inr b1"
    "check_block_txs b1 = Some (Inr r)" "vtx block' = vtx b1"
    by (auto simp: CheckBlock_def split: sum.splits if_splits bind_splits)
  have v: "vtx b1 = vtx block" using b1(1) by (auto simp: CheckMerkleRoot_def split: if_splits prod.splits)
  then show "vtx block' = vtx block" using b1(3) by simp
  from b1(2) check_block_txs_iff [of b1] v
  show "\<exists>cb txs. vtx block = cb # txs \<and> IsCoinBase cb \<and> list_all (\<lambda>tx. \<not> IsCoinBase tx) txs"
    "\<forall>tx \<in> set (vtx block). CheckTransaction tx = Inr ()"
    by (cases "vtx block"; auto simp: list_all_iff list_ex_iff)+
qed

text \<open>
  The circumstances of connecting a block other than the genesis block, with its transactions not
  yet checked. The BIP 30 check is in force, so no transaction of the block overwrites an unspent
  coin, and the ids in the block are distinct, which holds unless the hash of transactions collides
  or a transaction is repeated.
\<close>

definition connects ::
  "ConnectEnv \<Rightarrow> ChainstateManager \<Rightarrow> CBlock \<Rightarrow> block_ptr \<Rightarrow> CBlockIndex \<Rightarrow> coins_state \<Rightarrow> CBlockUndo \<Rightarrow> coins_state \<Rightarrow> ChainstateManager \<Rightarrow> bool" where
  "connects env cm block p b s undo s' cm' \<longleftrightarrow>
     ConnectBlock env cm block p s False = Some (Valid undo, s', cm') \<and> \<not> fChecked block \<and>
     m_block_index (m_blockman cm) p = Some b \<and> p \<noteq> hashGenesisBlock (env_params env) \<and>
     bip30_enforced (m_block_index (m_blockman cm)) (env_params env) p b = Some True \<and>
     distinct (map (tx_GetHash (env_Hash env)) (vtx block))"

lemma connect_checked_Valid:
  assumes r: "connect_checked env cm block p b s False = Some (Valid undo, s', cm')" and inv: "cache_inv (env_usage env) s"
    and bip30: "bip30_enforced (m_block_index (m_blockman cm)) (env_params env) p b = Some True"
  obtains s1 s2 acc lf sc where
    "have_any (env_usage env) s (concat (map (tx_outpoints (env_Hash env)) (vtx block))) = (False, s1)"
    "script_checks_needed env cm p b = Some sc"
    "connect_txs env (m_block_index (m_blockman cm)) p (nHeight b) lf (GetBlockScriptFlags p b (env_params env)) sc
      \<lparr>acc_nFees = 0, acc_nSigOpsCost = 0, acc_checks = [], acc_undo = []\<rparr> s1 (vtx block) = Some (Inr acc, s2)"
    "check_coinbase env (nHeight b) acc (vtx block) = Some (Inr ())" "undo = tl (acc_undo acc)"
    "s' = (SetBestBlock (fst s2) p, snd s2)"
proof -
  obtain rep s1 where h: "have_any (env_usage env) s (concat (map (tx_outpoints (env_Hash env)) (vtx block))) = (rep, s1)"
    by (metis surj_pair)
  let ?lf = "if DeploymentActiveAt b (env_params env) DEPLOYMENT_CSV then LOCKTIME_VERIFY_SEQUENCE else 0"
  let ?flags = "GetBlockScriptFlags p b (env_params env)"
  let ?acc = "\<lparr>acc_nFees = 0, acc_nSigOpsCost = 0, acc_checks = [], acc_undo = []\<rparr>"
  from r obtain sc where sc: "script_checks_needed env cm p b = Some sc" by (auto simp: connect_checked_def Let_def split: bind_splits)
  note d = connect_checked_def Let_def sc bip30 h
  have rep: "\<not> rep" using r by (auto simp: d)
  let ?c = "connect_txs env (m_block_index (m_blockman cm)) p (nHeight b) ?lf ?flags sc ?acc s1 (vtx block)"
  obtain x s2 where x: "?c = Some (x, s2)" using r rep by (cases ?c) (auto simp: d)
  obtain acc where acc: "x = Inr acc" using r rep x by (cases x) (auto simp: d)
  obtain y where y: "check_coinbase env (nHeight b) acc (vtx block) = Some y"
    using r rep x acc by (cases "check_coinbase env (nHeight b) acc (vtx block)") (auto simp: d)
  have y1: "y = Inr ()" using r rep x acc y by (cases y) (auto simp: d)
  obtain bm where bm: "env_write_undo env (tl (acc_undo acc)) (m_blockman cm) p = Some bm"
    using r rep x acc y y1 by (cases "env_write_undo env (tl (acc_undo acc)) (m_blockman cm) p") (auto simp: d)
  have "undo = tl (acc_undo acc) \<and> s' = (SetBestBlock (fst s2) p, snd s2)"
    using r rep x acc y y1 bm by (cases "raise_scripts bm p") (auto simp: d)
  then show ?thesis using that [of s1 sc ?lf acc s2] h rep x acc y y1 sc by simp
qed

text \<open>The loop over the transactions of a connected block.\<close>

lemma connects_txs:
  assumes c: "connects env cm block p b s undo s' cm'" and inv: "cache_inv (env_usage env) s"
  obtains cb txs s2 s3 acc lf sc where "vtx block = cb # txs" "IsCoinBase cb" "list_all (\<lambda>tx. \<not> IsCoinBase tx) txs"
    "\<forall>tx \<in> set (vtx block). CheckTransaction tx = Inr ()" "same_coins (env_usage env) s s2"
    "\<forall>tx \<in> set (vtx block). dom (tx_outs (env_Hash env) (nHeight b) tx) \<inter> dom (cache_coins s2) = {}"
    "distinct (map (tx_GetHash (env_Hash env)) (vtx block))"
    "script_checks_needed env cm p b = Some sc"
    "connect_txs env (m_block_index (m_blockman cm)) p (nHeight b) lf (GetBlockScriptFlags p b (env_params env)) sc
      \<lparr>acc_nFees = 0, acc_nSigOpsCost = 0, acc_checks = [], acc_undo = []\<rparr> s2 (vtx block) = Some (Inr acc, s3)"
    "check_coinbase env (nHeight b) acc (vtx block) = Some (Inr ())" "undo = tl (acc_undo acc)"
    "s' = (SetBestBlock (fst s3) p, snd s3)"
proof -
  let ?Hash = "env_Hash env" and ?u = "env_usage env"
  note c' = c [unfolded connects_def]
  from c' obtain r where r: "CheckBlock ?Hash (env_GetHash env) (env_signet env) block (env_params env) True True = Some r"
    by (auto simp: ConnectBlock_def split: bind_splits if_splits)
  obtain block' where b': "r = Inr block'" using c' r by (cases r) (auto simp: ConnectBlock_def split: if_splits)
  obtain best s1 where best: "cache_GetBestBlock s = (best, s1)" by (metis surj_pair)
  have s1: "same_coins ?u s s1" by (rule cache_GetBestBlock_same [OF inv best])
  have cc: "connect_checked env cm block' p b s1 False = Some (Valid undo, s', cm')"
    using c' r b' best by (auto simp: ConnectBlock_def split: if_splits)
  from c' have bip30: "bip30_enforced (m_block_index (m_blockman cm)) (env_params env) p b = Some True"
    and nf: "\<not> fChecked block" and di: "distinct (map (tx_GetHash ?Hash) (vtx block))" by blast+
  note chk = CheckBlock_Inr [OF r [unfolded b'] nf]
  show ?thesis
  proof (rule connect_checked_Valid [OF cc same_coins_inv [OF s1] bip30], unfold chk(1))
    fix s2 s3 acc lf sc
    assume h: "have_any ?u s1 (concat (map (tx_outpoints ?Hash) (vtx block))) = (False, s2)"
      and t: "script_checks_needed env cm p b = Some sc"
      "connect_txs env (m_block_index (m_blockman cm)) p (nHeight b) lf (GetBlockScriptFlags p b (env_params env)) sc
        \<lparr>acc_nFees = 0, acc_nSigOpsCost = 0, acc_checks = [], acc_undo = []\<rparr> s2 (vtx block) = Some (Inr acc, s3)"
      "check_coinbase env (nHeight b) acc (vtx block) = Some (Inr ())" "undo = tl (acc_undo acc)"
      "s' = (SetBestBlock (fst s3) p, snd s3)"
    note ha = have_any_ok [OF same_coins_inv [OF s1] h]
    have s2: "same_coins ?u s s2" using ha same_coins_trans [OF s1] by blast
    have fresh: "\<forall>tx \<in> set (vtx block). dom (tx_outs ?Hash (nHeight b) tx) \<inter> dom (cache_coins s2) = {}"
    proof
      fix tx assume tx: "tx \<in> set (vtx block)"
      with chk(3) have "length (vout tx) \<le> 2 ^ 32" by (intro vout_short) blast
      from dom_tx_outs [OF this, of ?Hash "nHeight b"] ha tx s1 s2
      show "dom (tx_outs ?Hash (nHeight b) tx) \<inter> dom (cache_coins s2) = {}" by (fastforce simp: same_coins_def)
    qed
    from chk(2) that [OF _ _ _ chk(3) s2 fresh di t] show ?thesis by blast
  qed
qed

lemma connects_ok:
  assumes c: "connects env cm block p b s undo s' cm'" and inv: "cache_inv (env_usage env) s"
  obtains cb txs fees where "vtx block = cb # txs" "IsCoinBase cb" "list_all (\<lambda>tx. \<not> IsCoinBase tx) txs"
    "txs_apply (env_Hash env) (nHeight b) (vtx block) (cache_coins s)"
    "cache_inv (env_usage env) s'" "cache_coins s' = apply_txs (env_Hash env) (nHeight b) (vtx block) (cache_coins s)"
    "hashBlock (fst s') = p" "undo = tl (undos (env_Hash env) (nHeight b) (vtx block) (cache_coins s))"
    "fees = txs_fees (env_Hash env) (nHeight b) (vtx block) (cache_coins s)"
    "coinbase_amount_ok fees (nHeight b) (env_params env) cb = Some True" "CheckTransaction cb = Inr ()"
proof (rule connects_txs [OF c inv])
  let ?Hash = "env_Hash env" and ?u = "env_usage env" and ?m = "cache_coins s"
  fix cb txs s2 s3 acc lf sc
  assume cb: "vtx block = cb # txs" "IsCoinBase cb" "list_all (\<lambda>tx. \<not> IsCoinBase tx) txs"
    and ct: "\<forall>tx \<in> set (vtx block). CheckTransaction tx = Inr ()" and s2: "same_coins ?u s s2"
    and fresh: "\<forall>tx \<in> set (vtx block). dom (tx_outs ?Hash (nHeight b) tx) \<inter> dom (cache_coins s2) = {}"
    and di: "distinct (map (tx_GetHash ?Hash) (vtx block))"
    and t: "connect_txs env (m_block_index (m_blockman cm)) p (nHeight b) lf (GetBlockScriptFlags p b (env_params env)) sc
      \<lparr>acc_nFees = 0, acc_nSigOpsCost = 0, acc_checks = [], acc_undo = []\<rparr> s2 (vtx block) = Some (Inr acc, s3)"
    and cbok: "check_coinbase env (nHeight b) acc (vtx block) = Some (Inr ())" and fin: "undo = tl (acc_undo acc)"
    "s' = (SetBestBlock (fst s3) p, snd s3)"
  from connect_txs_ok [OF same_coins_inv [OF s2] ct fresh di t] s2
  have ok: "cache_inv ?u s3" "cache_coins s3 = apply_txs ?Hash (nHeight b) (vtx block) ?m"
    "txs_apply ?Hash (nHeight b) (vtx block) ?m" "acc_undo acc = undos ?Hash (nHeight b) (vtx block) ?m"
    "acc_nFees acc = txs_fees ?Hash (nHeight b) (vtx block) ?m" by (simp_all add: same_coins_def)
  have am: "coinbase_amount_ok (acc_nFees acc) (nHeight b) (env_params env) cb = Some True"
    using cbok cb(1) by (auto simp: check_coinbase_def split: bind_splits if_splits)
  show ?thesis
    using that [OF cb ok(3) _ _ _ _ refl] SetBestBlock_same [OF ok(1), of p] ok fin ct cb(1) am
    by (simp add: same_coins_def SetBestBlock_def)
qed

lemma connects_scripts:
  assumes c: "connects env cm block p b s undo s' cm'" and inv: "cache_inv (env_usage env) s"
    and sc: "script_checks_needed env cm p b = Some True"
    and new: "\<forall>tx \<in> set (vtx block). \<not> env_script_cached env tx (GetBlockScriptFlags p b (env_params env))"
  shows "txs_scripts_ok env (nHeight b) (GetBlockScriptFlags p b (env_params env)) (vtx block) (cache_coins s)"
proof (rule connects_txs [OF c inv])
  let ?Hash = "env_Hash env" and ?u = "env_usage env" and ?flags = "GetBlockScriptFlags p b (env_params env)"
  fix cb txs s2 s3 acc lf sc'
  assume cb: "vtx block = cb # txs"
    and ct: "\<forall>tx \<in> set (vtx block). CheckTransaction tx = Inr ()" and s2: "same_coins ?u s s2"
    and fresh: "\<forall>tx \<in> set (vtx block). dom (tx_outs ?Hash (nHeight b) tx) \<inter> dom (cache_coins s2) = {}"
    and di: "distinct (map (tx_GetHash ?Hash) (vtx block))" and sc': "script_checks_needed env cm p b = Some sc'"
    and t: "connect_txs env (m_block_index (m_blockman cm)) p (nHeight b) lf ?flags sc'
      \<lparr>acc_nFees = 0, acc_nSigOpsCost = 0, acc_checks = [], acc_undo = []\<rparr> s2 (vtx block) = Some (Inr acc, s3)"
    and cbok: "check_coinbase env (nHeight b) acc (vtx block) = Some (Inr ())"
  have "sc'" using sc sc' by simp
  have "list_all (\<lambda>c. run_check env c = Inr ()) (acc_checks acc)"
    using cbok cb by (auto simp: check_coinbase_def split: bind_splits if_splits sum.splits)
  with connect_txs_scripts [OF same_coins_inv [OF s2] ct fresh di _ new, of _ p lf _ acc s3] t \<open>sc'\<close> s2
  show ?thesis by (auto simp: same_coins_def)
qed

section \<open>A connected example\<close>

definition example_reward :: CTransaction where
  "example_reward = example_coinbase\<lparr>vout := [\<lparr>nValue = 100000000, scriptPubKey = []\<rparr>]\<rparr>"

definition example_mined :: CBlock where
  "example_mined = (CBlock_of_header ((example_header (example_hash 1) 1600)\<lparr>hdrMerkleRoot := example_hash 9\<rparr>))\<lparr>vtx := [example_reward]\<rparr>"

definition example_env :: ConnectEnv where
  "example_env =
     \<lparr>env_Hash = (\<lambda>_. example_hash 9), env_GetHash = (\<lambda>_. example_hash 2), env_signet = (\<lambda>_ _. False), env_usage = (\<lambda>_. 0),
      env_VerifyScript = (\<lambda>_ _ _ _. Inr ()), env_script_cached = (\<lambda>_ _. False), env_write_undo = (\<lambda>_ bm _. Some bm),
      env_params = CMainParams (example_hash 1), env_founder_script = None, env_assumed_valid = uint256_zero,
      env_minimum_chain_work = base_uint_zero, env_parallel = False\<rparr>"

definition example_manager :: ChainstateManager where
  "example_manager =
     \<lparr>m_blockman = \<lparr>m_block_index = example_index, m_dirty_blockindex = {}\<rparr>, m_best_header = Some (example_hash 2),
      m_failed_blocks = [], m_best_invalid = None\<rparr>"

lemma example_mined_parts:
  "vtx example_mined = [example_reward]" "\<not> fChecked example_mined" "\<not> m_checked_merkle_root example_mined"
  "hdrMerkleRoot example_mined = example_hash 9" "hdrBits example_mined = 0x1d00ffff"
  by (simp_all add: example_mined_def CBlock_of_header_def example_header_def)

lemma example_env_parts:
  "env_Hash example_env = (\<lambda>_. example_hash 9)" "env_GetHash example_env = (\<lambda>_. example_hash 2)" "env_signet example_env = (\<lambda>_ _. False)"
  "env_usage example_env = (\<lambda>_. 0)" "env_write_undo example_env = (\<lambda>_ bm _. Some bm)" "env_params example_env = CMainParams (example_hash 1)"
  "env_assumed_valid example_env = uint256_zero"
  by (simp_all add: example_env_def)

lemma example_reward_checks:
  "IsCoinBase example_reward" "CheckTransaction example_reward = Inr ()" "length (SerializeBlock False example_mined) = 143"
  "GetLegacySigOpCount example_reward = 0" "GetValueOut example_reward = Some 100000000"
proof -
  show cb: "IsCoinBase example_reward"
    by (simp add: IsCoinBase_def example_reward_def example_coinbase_def outpoint_IsNull_def IsNull_def uint256_zero_def list_all_iff)
  have len: "length (SerializeTransaction False example_reward) = 62"
    by (simp add: example_reward_def example_coinbase_def SerializeTransaction_def ser_vector_def ser_txin_def ser_txout_def ser_outpoint_def
      ser_bytes_def length_WriteCompactSize GetSizeOfCompactSize_def ser_word_def ser_int32_def ser_int64_def uint256_zero_def)
  show ct: "CheckTransaction example_reward = Inr ()" using cb unfolding CheckTransaction_iff len
    by (simp add: example_reward_def example_coinbase_def MoneyRange_def MAX_MONEY_def COIN_def)
  show "length (SerializeBlock False example_mined) = 143"
    using len by (simp add: SerializeBlock_def ser_vector_def example_mined_parts ser_header_def GetBlockHeader_def
      example_mined_def CBlock_of_header_def example_header_def length_WriteCompactSize GetSizeOfCompactSize_def ser_word_def ser_int32_def example_hash_def)
  show "GetLegacySigOpCount example_reward = 0"
    by (simp add: GetLegacySigOpCount_def example_reward_def example_coinbase_def GetSigOpCount_def
      sigop_loop.simps [of False 0 "0xff" "[1, 2]"] sigop_loop.simps [of _ _ _ "[]"] GetScriptOp_def)
  show "GetValueOut example_reward = Some 100000000"
    using CheckTransaction_GetValueOut [OF ct] by (simp add: example_reward_def)
qed

lemma example_CheckBlock:
  "CheckBlock (\<lambda>_. example_hash 9) (\<lambda>_. example_hash 2) (\<lambda>_ _. False) example_mined (CMainParams (example_hash 1)) True True =
     Some (Inr (example_mined\<lparr>m_checked_merkle_root := True, fChecked := True\<rparr>))"
proof -
  let ?b = "example_mined\<lparr>m_checked_merkle_root := True\<rparr>"
  have root: "BlockMerkleRoot (\<lambda>_. example_hash 9) example_mined = (example_hash 9, False)"
    by (simp add: BlockMerkleRoot_def example_mined_parts ComputeMerkleRoot_def merkle_loop.simps tx_GetHash_def)
  have pow: "CheckProofOfWork (example_hash 2) (hdrBits (GetBlockHeader example_mined)) (CMainParams (example_hash 1))"
    by (simp add: GetBlockHeader_def example_mined_parts CheckProofOfWork_iff compact_neg_def example_compact_value main_powLimit_value example_hash_value)
  have "length (SerializeBlock False ?b) = 143"
    using example_reward_checks(3) by (simp add: SerializeBlock_def GetBlockHeader_def)
  then have txs: "check_block_txs ?b = Some (Inr ())"
    using example_reward_checks by (simp add: check_block_txs_iff example_mined_parts)
  have "CheckMerkleRoot (\<lambda>_. example_hash 9) example_mined = Inr ?b"
    by (simp add: CheckMerkleRoot_def root example_mined_parts)
  moreover have "\<not> signet_blocks (CMainParams (example_hash 1))" by (simp add: CMainParams_def)
  ultimately show ?thesis using pow txs by (simp add: CheckBlock_def example_mined_parts CheckBlockHeader_def)
qed

lemma example_fetch:
  "HaveCoin (\<lambda>_. 0) (fst (example_cache, example_db)) (snd (example_cache, example_db)) \<lparr>op_hash = example_hash 9, op_n = n\<rparr> =
     (False, (example_cache, example_db))"
  by (simp add: HaveCoin_def FetchCoin.simps example_cache_def example_db_def example_point_def example_hash_def)

lemma example_cache_inv: "cache_inv (\<lambda>_. 0) (example_cache, example_db)"
  using example_wf by (simp add: cache_inv_def)

lemma example_cache_coins: "cache_coins (example_cache, example_db) = [example_point \<mapsto> mk_Coin example_out 5 False]"
  by (rule ext) (simp add: cache_coins_def example_cache_def example_db_def view_coins.simps(2))

lemma example_update:
  obtains u s' where "UpdateCoins (\<lambda>_. 0) (\<lambda>_. example_hash 9) example_reward (example_cache, example_db) 1 = Some (u, s')"
proof -
  have "dom (tx_outs (\<lambda>_. example_hash 9) 1 example_reward) \<inter> dom (cache_coins (example_cache, example_db)) = {}"
  proof -
    have "op_hash example_point \<noteq> example_hash 9" by (simp add: example_point_def example_hash_def)
    then have "example_point \<notin> dom (tx_outs (\<lambda>_. example_hash 9) 1 example_reward)"
      using tx_outs_hash [of example_point "\<lambda>_. example_hash 9" 1 example_reward] by (auto simp: tx_GetHash_def)
    then show ?thesis by (simp add: example_cache_coins)
  qed
  then have "tx_applies (\<lambda>_. example_hash 9) 1 example_reward (cache_coins (example_cache, example_db))"
    using example_reward_checks(1) by (simp add: tx_applies_def tx_spends_def example_reward_def txout_IsNull_def)
  from UpdateCoins_ok [OF example_cache_inv this] that show ?thesis by blast
qed

lemma example_connects:
  obtains b undo s' cm' where "connects example_env example_manager example_mined (example_hash 2) b (example_cache, example_db) undo s' cm'"
    "nHeight b = 1" "pprev b = Some (example_hash 1)"
proof -
  let ?b = "(CBlockIndex_of_header (example_header (example_hash 1) 1600))\<lparr>pprev := Some (example_hash 1), pskip := Some (example_hash 1), nHeight := 1\<rparr>"
  let ?s = "(example_cache, example_db)" and ?P = "CMainParams (example_hash 1)"
  let ?block = "example_mined\<lparr>m_checked_merkle_root := True, fChecked := True\<rparr>"
  obtain u s1 where up: "UpdateCoins (\<lambda>_. 0) (\<lambda>_. example_hash 9) example_reward ?s 1 = Some (u, s1)" by (rule example_update)
  have best: "cache_GetBestBlock ?s = (example_hash 1, ?s)"
    by (simp add: cache_GetBestBlock_def example_cache_def IsNull_def example_hash_def)
  have sc: "script_checks_needed example_env example_manager (example_hash 2) ?b = Some True"
    by (simp add: script_checks_needed_def example_env_parts IsNull_def uint256_zero_def list_all_iff)
  have "GetAncestor example_index (example_hash 1) 17 = Some None"
    using example_index_entries(1) by (rule GetAncestor_null) (simp add: CBlockIndex_of_header_def)
  then have bip30: "bip30_enforced example_index ?P (example_hash 2) ?b = Some True"
    by (simp add: bip30_enforced_def IsBIP30Repeat_def CMainParams_def)
  have any: "have_any (\<lambda>_. 0) ?s (concat (map (tx_outpoints (\<lambda>_. example_hash 9)) (vtx ?block))) = (False, ?s)"
    using example_fetch [of 0] by (simp add: example_mined_parts tx_outpoints_def example_reward_def tx_GetHash_def)
  have "connect_tx example_env example_index (example_hash 2) 1 lf flags True
      \<lparr>acc_nFees = 0, acc_nSigOpsCost = 0, acc_checks = [], acc_undo = []\<rparr> ?s example_reward =
      Some (Inr \<lparr>acc_nFees = 0, acc_nSigOpsCost = 0, acc_checks = [], acc_undo = [u]\<rparr>, s1)" for lf flags
    using example_reward_checks(1,4) up
    by (simp add: connect_tx_def connect_inputs_def GetTransactionSigOpCost_def example_env_parts MAX_BLOCK_SIGOPS_COST_def)
  then have txs: "connect_txs example_env example_index (example_hash 2) 1 lf flags True
      \<lparr>acc_nFees = 0, acc_nSigOpsCost = 0, acc_checks = [], acc_undo = []\<rparr> ?s (vtx ?block) =
      Some (Inr \<lparr>acc_nFees = 0, acc_nSigOpsCost = 0, acc_checks = [], acc_undo = [u]\<rparr>, s1)" for lf flags
    by (simp add: example_mined_parts)
  have cb: "check_coinbase example_env 1 \<lparr>acc_nFees = 0, acc_nSigOpsCost = 0, acc_checks = [], acc_undo = [u]\<rparr> (vtx ?block) = Some (Inr ())"
    using example_reward_checks(5)
    by (simp add: check_coinbase_def example_mined_parts coinbase_amount_ok_def GetBlockSubsidy_def example_env_parts
        GetFounderRewardForBlock_def FOUNDER_START_HEIGHT_def COIN_def)
  obtain bm where bm: "raise_scripts (m_blockman example_manager) (example_hash 2) = Some bm"
    by (simp add: raise_scripts_def example_manager_def example_index_entries IsValid_def RaiseValidity_def block_status_defs CBlockIndex_of_header_def)
  have idx: "m_block_index (m_blockman example_manager) = example_index" "nHeight ?b = 1" by (simp_all add: example_manager_def)
  have "connect_checked example_env example_manager ?block (example_hash 2) ?b ?s False =
      Some (Valid [], (SetBestBlock (fst s1) (example_hash 2), snd s1), example_manager\<lparr>m_blockman := bm\<rparr>)"
    unfolding connect_checked_def Let_def example_env_parts idx sc bip30 any bind.bind_lunit prod.case if_False if_True txs sum.case cb option.case bm
    by (simp add: bm)
  then have "ConnectBlock example_env example_manager example_mined (example_hash 2) ?s False =
      Some (Valid [], (SetBestBlock (fst s1) (example_hash 2), snd s1), example_manager\<lparr>m_blockman := bm\<rparr>)"
    using example_CheckBlock best by (simp add: ConnectBlock_def example_env_parts example_manager_def example_index_entries)
  then have "connects example_env example_manager example_mined (example_hash 2) ?b ?s []
      (SetBestBlock (fst s1) (example_hash 2), snd s1) (example_manager\<lparr>m_blockman := bm\<rparr>)"
    using bip30 example_mined_parts(1,2) by (simp add: connects_def example_env_parts example_manager_def example_index_entries)
  then show ?thesis by (rule that) simp_all
qed

section \<open>Properties\<close>

text \<open>
  C3: Disconnecting undoes connecting. If \<open>ConnectBlock\<close> connects a block at a height between 1 and
  \<open>2 ^ 31\<close> to a set of well-formed coins (the BIP 30 check being in force and the ids of its
  transactions distinct), then \<open>DisconnectBlock\<close> with the undo data that was written returns
  \<open>DISCONNECT_OK\<close> from the resulting cache, the set of coins is what it was before, and the best
  block is the parent.
\<close>

theorem connect_disconnect:
  assumes c: "connects env cm block p b s undo s' cm'" and inv: "cache_inv (env_usage env) s"
    and good: "good_coins (cache_coins s)" and h: "0 < nHeight b" "nHeight b < 2 ^ 31" and q: "pprev b = Some q"
  shows "\<exists>s''. DisconnectBlock (env_usage env) (env_Hash env) (Some undo) block p b s' = Some (DISCONNECT_OK, s'') \<and>
    cache_inv (env_usage env) s'' \<and> cache_coins s'' = cache_coins s \<and> hashBlock (fst s'') = q"
proof -
  let ?Hash = "env_Hash env" and ?m = "cache_coins s"
  obtain cb txs where ok: "vtx block = cb # txs" "IsCoinBase cb" "list_all (\<lambda>tx. \<not> IsCoinBase tx) txs"
    "txs_apply ?Hash (nHeight b) (vtx block) ?m" "cache_inv (env_usage env) s'"
    "cache_coins s' = apply_txs ?Hash (nHeight b) (vtx block) ?m" "undo = tl (undos ?Hash (nHeight b) (vtx block) ?m)"
    by (rule connects_ok [OF c inv])
  have e: "undo_entries ?Hash (nHeight b) (vtx block) ?m = zip (vtx block) (None # map Some undo)"
    using ok(2,3,7) undo_entries_zip [OF ok(3)] unfolding ok(1) by (simp add: undo_entry_def)
  from disconnect_txs_ok [OF h ok(5,4) good ok(6), of "\<not> IsBIP30Unspendable p b" "[]"] obtain s1 where s1:
    "disconnect_txs (env_usage env) ?Hash (nHeight b) (\<not> IsBIP30Unspendable p b) True (rev (zip (vtx block) (None # map Some undo))) s' =
      Some (Some True, s1)" "cache_inv (env_usage env) s1" "cache_coins s1 = ?m"
    unfolding e append_Nil2 disconnect_txs.simps by blast
  have len: "length undo + 1 = length (vtx block)" using ok(7) unfolding ok(1) by simp
  have "DisconnectBlock (env_usage env) ?Hash (Some undo) block p b s' = Some (DISCONNECT_OK, (SetBestBlock (fst s1) q, snd s1))"
    using s1(1) len q by (simp add: DisconnectBlock_def)
  moreover have "same_coins (env_usage env) s1 (SetBestBlock (fst s1) q, snd s1)" by (rule SetBestBlock_same [OF s1(2)])
  ultimately show ?thesis using s1(3)
    by (intro exI [of _ "(SetBestBlock (fst s1) q, snd s1)"]) (simp add: same_coins_def SetBestBlock_def)
qed

lemma example_good: "good_coins (cache_coins (example_cache, example_db))" "finite (dom (cache_coins (example_cache, example_db)))"
  unfolding example_cache_coins
  by (auto simp: good_coins_def good_coin_def mk_Coin_def example_out_def IsSpent_def txout_IsNull_def IsUnspendable_def MAX_SCRIPT_SIZE_def split: if_splits)

theorem connect_disconnect_witness:
  "\<exists>b undo s' cm' s''. connects example_env example_manager example_mined (example_hash 2) b (example_cache, example_db) undo s' cm' \<and>
     DisconnectBlock (\<lambda>_. 0) (\<lambda>_. example_hash 9) (Some undo) example_mined (example_hash 2) b s' = Some (DISCONNECT_OK, s'') \<and>
     cache_coins s'' = cache_coins (example_cache, example_db) \<and> hashBlock (fst s'') = example_hash 1"
proof -
  obtain b undo s' cm' where c: "connects example_env example_manager example_mined (example_hash 2) b (example_cache, example_db) undo s' cm'"
    "nHeight b = 1" "pprev b = Some (example_hash 1)" by (rule example_connects)
  have inv: "cache_inv (env_usage example_env) (example_cache, example_db)" unfolding example_env_parts by (rule example_cache_inv)
  from connect_disconnect [OF c(1) inv example_good(1) _ _ c(3)] c(2) obtain s'' where
    "DisconnectBlock (\<lambda>_. 0) (\<lambda>_. example_hash 9) (Some undo) example_mined (example_hash 2) b s' = Some (DISCONNECT_OK, s'')"
    "cache_coins s'' = cache_coins (example_cache, example_db)" "hashBlock (fst s'') = example_hash 1"
    unfolding example_env_parts by auto
  with c(1) show ?thesis by blast
qed

text \<open>
  C1: No inflation. A block that \<open>ConnectBlock\<close> connects raises the total amount of the unspent
  coins by at most the block subsidy of its height. The block is not the genesis block and was not
  checked before, the BIP 30 check is in force for it, and the ids of its transactions are distinct.
\<close>

theorem no_inflation:
  assumes c: "connects env cm block p b s undo s' cm'" and inv: "cache_inv (env_usage env) s"
    and fin: "finite (dom (cache_coins s))"
  shows "\<exists>subsidy. GetBlockSubsidy (nHeight b) (env_params env) = Some subsidy \<and>
    coin_supply (cache_coins s') \<le> coin_supply (cache_coins s) + subsidy"
proof -
  let ?Hash = "env_Hash env" and ?m = "cache_coins s"
  obtain cb txs fees where ok: "vtx block = cb # txs" "IsCoinBase cb" "list_all (\<lambda>tx. \<not> IsCoinBase tx) txs"
    "txs_apply ?Hash (nHeight b) (vtx block) ?m" "cache_coins s' = apply_txs ?Hash (nHeight b) (vtx block) ?m"
    "fees = txs_fees ?Hash (nHeight b) (vtx block) ?m" "coinbase_amount_ok fees (nHeight b) (env_params env) cb = Some True"
    "CheckTransaction cb = Inr ()"
    by (rule connects_ok [OF c inv])
  let ?m1 = "tx_effect ?Hash (nHeight b) cb ?m"
  have ap: "tx_applies ?Hash (nHeight b) cb ?m" "\<forall>t \<in> set (vout cb). 0 \<le> nValue t" "txs_apply ?Hash (nHeight b) txs ?m1"
    using ok(4) unfolding ok(1) by simp_all
  note e = supply_effect [OF fin ap(1,2)]
  have cb: "coin_supply ?m1 \<le> coin_supply ?m + sum_list (map nValue (vout cb))" using e(2) ok(2) by (simp add: tx_spends_def)
  have "coin_supply (cache_coins s') \<le> coin_supply ?m1 - txs_fees ?Hash (nHeight b) txs ?m1"
    using supply_txs [OF e(1) ap(3) ok(3)] ok(5) unfolding ok(1) by simp
  moreover have "fees = txs_fees ?Hash (nHeight b) txs ?m1" using ok(2,6) unfolding ok(1) by (simp add: tx_fee_def)
  moreover obtain subsidy where "GetBlockSubsidy (nHeight b) (env_params env) = Some subsidy" "sum_list (map nValue (vout cb)) \<le> fees + subsidy"
    using ok(7) CheckTransaction_GetValueOut [OF ok(8)] by (auto simp: coinbase_amount_ok_def split: bind_splits)
  ultimately show ?thesis using cb by (intro exI [of _ subsidy]) simp
qed

theorem no_inflation_witness:
  "\<exists>b undo s' cm' subsidy. connects example_env example_manager example_mined (example_hash 2) b (example_cache, example_db) undo s' cm' \<and>
     GetBlockSubsidy (nHeight b) (CMainParams (example_hash 1)) = Some subsidy \<and>
     coin_supply (cache_coins s') \<le> coin_supply (cache_coins (example_cache, example_db)) + subsidy"
proof -
  obtain b undo s' cm' where c: "connects example_env example_manager example_mined (example_hash 2) b (example_cache, example_db) undo s' cm'"
    by (rule example_connects)
  have inv: "cache_inv (env_usage example_env) (example_cache, example_db)" unfolding example_env_parts by (rule example_cache_inv)
  from no_inflation [OF c inv example_good(2)] show ?thesis using c unfolding example_env_parts by blast
qed

text \<open>
  C20: The coins keep their type. A connected block leaves a consistent cache over a finite set of
  coins each of which is unspent, spendable, of positive height and of an amount that is not negative,
  if this was so before and its height is between 1 and \<open>2 ^ 31\<close>. As above the block is not the genesis
  block and was not checked before, the BIP 30 check is in force, and the ids are distinct.
\<close>

theorem connect_types:
  assumes c: "connects env cm block p b s undo s' cm'" and inv: "cache_inv (env_usage env) s"
    and good: "good_coins (cache_coins s)" "finite (dom (cache_coins s))" and h: "0 < nHeight b" "nHeight b < 2 ^ 31"
  shows "cache_inv (env_usage env) s' \<and> good_coins (cache_coins s') \<and> finite (dom (cache_coins s'))"
proof -
  let ?Hash = "env_Hash env"
  have "txs_apply ?Hash (nHeight b) (vtx block) (cache_coins s) \<and> cache_inv (env_usage env) s' \<and>
    cache_coins s' = apply_txs ?Hash (nHeight b) (vtx block) (cache_coins s)"
    by (rule connects_ok [OF c inv]) simp
  with good_coins_txs [OF _ good h] show ?thesis by simp
qed

theorem connect_types_witness:
  "\<exists>b undo s' cm'. connects example_env example_manager example_mined (example_hash 2) b (example_cache, example_db) undo s' cm' \<and>
     cache_inv (\<lambda>_. 0) s' \<and> good_coins (cache_coins s')"
proof -
  obtain b undo s' cm' where c: "connects example_env example_manager example_mined (example_hash 2) b (example_cache, example_db) undo s' cm'"
    "nHeight b = 1" by (rule example_connects)
  have inv: "cache_inv (env_usage example_env) (example_cache, example_db)" unfolding example_env_parts by (rule example_cache_inv)
  from connect_types [OF c(1) inv example_good] c show ?thesis unfolding example_env_parts by (intro exI conjI) auto
qed

end
