(* ===== verification/Interpreter.thy ===== *)
theory Interpreter
  imports Tx_Inputs "HOL-Library.Sublist"
begin

text \<open>
  The script interpreter (\<open>src/script/interpreter.cpp\<close> up to \<open>EvalScript\<close>): the encoding rules of
  signatures and public keys, the removal of signatures from a script, the condition stack and
  the stack machine. The stack is a list with its top first. A script position is the list of
  the bytes that remain.
\<close>

section \<open>Results\<close>

text \<open>
  A step of the interpreter succeeds, fails with the error it stores in \<open>serror\<close>, or does not
  return: a failed assertion, or arithmetic that overflows a signed integer. An exception is
  caught by \<open>EvalScript\<close>, which stores \<open>SCRIPT_ERR_UNKNOWN_ERROR\<close>.
\<close>

datatype ScriptError =
    SCRIPT_ERR_OK | SCRIPT_ERR_UNKNOWN_ERROR | SCRIPT_ERR_EVAL_FALSE | SCRIPT_ERR_OP_RETURN
  | SCRIPT_ERR_SCRIPT_SIZE | SCRIPT_ERR_PUSH_SIZE | SCRIPT_ERR_OP_COUNT | SCRIPT_ERR_STACK_SIZE
  | SCRIPT_ERR_SIG_COUNT | SCRIPT_ERR_PUBKEY_COUNT | SCRIPT_ERR_VERIFY | SCRIPT_ERR_EQUALVERIFY
  | SCRIPT_ERR_CHECKMULTISIGVERIFY | SCRIPT_ERR_CHECKSIGVERIFY | SCRIPT_ERR_NUMEQUALVERIFY
  | SCRIPT_ERR_BAD_OPCODE | SCRIPT_ERR_DISABLED_OPCODE | SCRIPT_ERR_INVALID_STACK_OPERATION
  | SCRIPT_ERR_INVALID_ALTSTACK_OPERATION | SCRIPT_ERR_UNBALANCED_CONDITIONAL
  | SCRIPT_ERR_NEGATIVE_LOCKTIME | SCRIPT_ERR_UNSATISFIED_LOCKTIME | SCRIPT_ERR_SIG_HASHTYPE
  | SCRIPT_ERR_SIG_DER | SCRIPT_ERR_MINIMALDATA | SCRIPT_ERR_SIG_PUSHONLY | SCRIPT_ERR_SIG_HIGH_S
  | SCRIPT_ERR_SIG_NULLDUMMY | SCRIPT_ERR_PUBKEYTYPE | SCRIPT_ERR_CLEANSTACK | SCRIPT_ERR_MINIMALIF
  | SCRIPT_ERR_SIG_NULLFAIL | SCRIPT_ERR_DISCOURAGE_UPGRADABLE_NOPS
  | SCRIPT_ERR_DISCOURAGE_UPGRADABLE_WITNESS_PROGRAM | SCRIPT_ERR_DISCOURAGE_UPGRADABLE_TAPROOT_VERSION
  | SCRIPT_ERR_DISCOURAGE_OP_SUCCESS | SCRIPT_ERR_DISCOURAGE_UPGRADABLE_PUBKEYTYPE
  | SCRIPT_ERR_WITNESS_PROGRAM_WRONG_LENGTH | SCRIPT_ERR_WITNESS_PROGRAM_WITNESS_EMPTY
  | SCRIPT_ERR_WITNESS_PROGRAM_MISMATCH | SCRIPT_ERR_WITNESS_MALLEATED
  | SCRIPT_ERR_WITNESS_MALLEATED_P2SH | SCRIPT_ERR_WITNESS_UNEXPECTED | SCRIPT_ERR_WITNESS_PUBKEYTYPE
  | SCRIPT_ERR_SCHNORR_SIG_SIZE | SCRIPT_ERR_SCHNORR_SIG_HASHTYPE | SCRIPT_ERR_SCHNORR_SIG
  | SCRIPT_ERR_TAPROOT_WRONG_CONTROL_SIZE | SCRIPT_ERR_TAPSCRIPT_VALIDATION_WEIGHT
  | SCRIPT_ERR_TAPSCRIPT_CHECKMULTISIG | SCRIPT_ERR_TAPSCRIPT_MINIMALIF | SCRIPT_ERR_OP_CODESEPARATOR
  | SCRIPT_ERR_SIG_FINDANDDELETE | SCRIPT_ERR_ERROR_COUNT

primrec ScriptErrorString :: "ScriptError \<Rightarrow> string" where
  "ScriptErrorString SCRIPT_ERR_OK = ''No error''"
| "ScriptErrorString SCRIPT_ERR_EVAL_FALSE = ''Script evaluated without error but finished with a false/empty top stack element''"
| "ScriptErrorString SCRIPT_ERR_VERIFY = ''Script failed an OP_VERIFY operation''"
| "ScriptErrorString SCRIPT_ERR_EQUALVERIFY = ''Script failed an OP_EQUALVERIFY operation''"
| "ScriptErrorString SCRIPT_ERR_CHECKMULTISIGVERIFY = ''Script failed an OP_CHECKMULTISIGVERIFY operation''"
| "ScriptErrorString SCRIPT_ERR_CHECKSIGVERIFY = ''Script failed an OP_CHECKSIGVERIFY operation''"
| "ScriptErrorString SCRIPT_ERR_NUMEQUALVERIFY = ''Script failed an OP_NUMEQUALVERIFY operation''"
| "ScriptErrorString SCRIPT_ERR_SCRIPT_SIZE = ''Script is too big''"
| "ScriptErrorString SCRIPT_ERR_PUSH_SIZE = ''Push value size limit exceeded''"
| "ScriptErrorString SCRIPT_ERR_OP_COUNT = ''Operation limit exceeded''"
| "ScriptErrorString SCRIPT_ERR_STACK_SIZE = ''Stack size limit exceeded''"
| "ScriptErrorString SCRIPT_ERR_SIG_COUNT = ''Signature count negative or greater than pubkey count''"
| "ScriptErrorString SCRIPT_ERR_PUBKEY_COUNT = ''Pubkey count negative or limit exceeded''"
| "ScriptErrorString SCRIPT_ERR_BAD_OPCODE = ''Opcode missing or not understood''"
| "ScriptErrorString SCRIPT_ERR_DISABLED_OPCODE = ''Attempted to use a disabled opcode''"
| "ScriptErrorString SCRIPT_ERR_INVALID_STACK_OPERATION = ''Operation not valid with the current stack size''"
| "ScriptErrorString SCRIPT_ERR_INVALID_ALTSTACK_OPERATION = ''Operation not valid with the current altstack size''"
| "ScriptErrorString SCRIPT_ERR_OP_RETURN = ''OP_RETURN was encountered''"
| "ScriptErrorString SCRIPT_ERR_UNBALANCED_CONDITIONAL = ''Invalid OP_IF construction''"
| "ScriptErrorString SCRIPT_ERR_NEGATIVE_LOCKTIME = ''Negative locktime''"
| "ScriptErrorString SCRIPT_ERR_UNSATISFIED_LOCKTIME = ''Locktime requirement not satisfied''"
| "ScriptErrorString SCRIPT_ERR_SIG_HASHTYPE = ''Signature hash type missing or not understood''"
| "ScriptErrorString SCRIPT_ERR_SIG_DER = ''Non-canonical DER signature''"
| "ScriptErrorString SCRIPT_ERR_MINIMALDATA = ''Data push larger than necessary''"
| "ScriptErrorString SCRIPT_ERR_SIG_PUSHONLY = ''Only push operators allowed in signatures''"
| "ScriptErrorString SCRIPT_ERR_SIG_HIGH_S = ''Non-canonical signature: S value is unnecessarily high''"
| "ScriptErrorString SCRIPT_ERR_SIG_NULLDUMMY = ''Dummy CHECKMULTISIG argument must be zero''"
| "ScriptErrorString SCRIPT_ERR_MINIMALIF = ''OP_IF/NOTIF argument must be minimal''"
| "ScriptErrorString SCRIPT_ERR_SIG_NULLFAIL = ''Signature must be zero for failed CHECK(MULTI)SIG operation''"
| "ScriptErrorString SCRIPT_ERR_DISCOURAGE_UPGRADABLE_NOPS = ''NOPx reserved for soft-fork upgrades''"
| "ScriptErrorString SCRIPT_ERR_DISCOURAGE_UPGRADABLE_WITNESS_PROGRAM = ''Witness version reserved for soft-fork upgrades''"
| "ScriptErrorString SCRIPT_ERR_DISCOURAGE_UPGRADABLE_TAPROOT_VERSION = ''Taproot version reserved for soft-fork upgrades''"
| "ScriptErrorString SCRIPT_ERR_DISCOURAGE_OP_SUCCESS = ''OP_SUCCESSx reserved for soft-fork upgrades''"
| "ScriptErrorString SCRIPT_ERR_DISCOURAGE_UPGRADABLE_PUBKEYTYPE = ''Public key version reserved for soft-fork upgrades''"
| "ScriptErrorString SCRIPT_ERR_PUBKEYTYPE = ''Public key is neither compressed or uncompressed''"
| "ScriptErrorString SCRIPT_ERR_CLEANSTACK = ''Stack size must be exactly one after execution''"
| "ScriptErrorString SCRIPT_ERR_WITNESS_PROGRAM_WRONG_LENGTH = ''Witness program has incorrect length''"
| "ScriptErrorString SCRIPT_ERR_WITNESS_PROGRAM_WITNESS_EMPTY = ''Witness program was passed an empty witness''"
| "ScriptErrorString SCRIPT_ERR_WITNESS_PROGRAM_MISMATCH = ''Witness program hash mismatch''"
| "ScriptErrorString SCRIPT_ERR_WITNESS_MALLEATED = ''Witness requires empty scriptSig''"
| "ScriptErrorString SCRIPT_ERR_WITNESS_MALLEATED_P2SH = ''Witness requires only-redeemscript scriptSig''"
| "ScriptErrorString SCRIPT_ERR_WITNESS_UNEXPECTED = ''Witness provided for non-witness script''"
| "ScriptErrorString SCRIPT_ERR_WITNESS_PUBKEYTYPE = ''Using non-compressed keys in segwit''"
| "ScriptErrorString SCRIPT_ERR_SCHNORR_SIG_SIZE = ''Invalid Schnorr signature size''"
| "ScriptErrorString SCRIPT_ERR_SCHNORR_SIG_HASHTYPE = ''Invalid Schnorr signature hash type''"
| "ScriptErrorString SCRIPT_ERR_SCHNORR_SIG = ''Invalid Schnorr signature''"
| "ScriptErrorString SCRIPT_ERR_TAPROOT_WRONG_CONTROL_SIZE = ''Invalid Taproot control block size''"
| "ScriptErrorString SCRIPT_ERR_TAPSCRIPT_VALIDATION_WEIGHT = ''Too much signature validation relative to witness weight''"
| "ScriptErrorString SCRIPT_ERR_TAPSCRIPT_CHECKMULTISIG = ''OP_CHECKMULTISIG(VERIFY) is not available in tapscript''"
| "ScriptErrorString SCRIPT_ERR_TAPSCRIPT_MINIMALIF = ''OP_IF/NOTIF argument must be minimal in tapscript''"
| "ScriptErrorString SCRIPT_ERR_OP_CODESEPARATOR = ''Using OP_CODESEPARATOR in non-witness script''"
| "ScriptErrorString SCRIPT_ERR_SIG_FINDANDDELETE = ''Signature is found in scriptCode''"
| "ScriptErrorString SCRIPT_ERR_UNKNOWN_ERROR = ''unknown error''"
| "ScriptErrorString SCRIPT_ERR_ERROR_COUNT = ''unknown error''"

datatype 'a script_result = Ok 'a | Fail ScriptError | Abort

primrec sbind :: "'a script_result \<Rightarrow> ('a \<Rightarrow> 'b script_result) \<Rightarrow> 'b script_result" where
  "sbind (Ok x) f = f x"
| "sbind (Fail e) f = Fail e"
| "sbind Abort f = Abort"

definition has_flag :: "uint32 \<Rightarrow> uint32 \<Rightarrow> bool" where
  "has_flag flags f \<longleftrightarrow> flags AND f \<noteq> 0"

text \<open>The functions of the cryptographic libraries that scripts use.\<close>

record Crypto =
  RIPEMD160 :: "bytes \<Rightarrow> bytes"
  SHA1 :: "bytes \<Rightarrow> bytes"
  SHA256 :: "bytes \<Rightarrow> bytes"
  SHAKE256 :: "bytes \<Rightarrow> bytes"
  CheckLowS :: "bytes \<Rightarrow> bool"
  ECDSA_Verify :: "bytes \<Rightarrow> uint256 \<Rightarrow> bytes \<Rightarrow> bool"
  Schnorr_Verify :: "bytes \<Rightarrow> uint256 \<Rightarrow> bytes \<Rightarrow> bool"
  CheckTapTweak :: "bytes \<Rightarrow> bytes \<Rightarrow> uint256 \<Rightarrow> bool \<Rightarrow> bool"
  MLDSA_Verify :: "bytes \<Rightarrow> bytes \<Rightarrow> bytes \<Rightarrow> bytes \<Rightarrow> bool"

definition CHash160 :: "Crypto \<Rightarrow> bytes \<Rightarrow> bytes" where
  "CHash160 cr v = RIPEMD160 cr (SHA256 cr v)"

definition CHash256 :: "Crypto \<Rightarrow> bytes \<Rightarrow> bytes" where
  "CHash256 cr v = SHA256 cr (SHA256 cr v)"

primrec CastToBool :: "bytes \<Rightarrow> bool" where
  "CastToBool [] = False"
| "CastToBool (b # bs) = (if b \<noteq> 0 then \<not> (bs = [] \<and> b = 0x80) else CastToBool bs)"

section \<open>Signature and public key encodings\<close>

datatype SigVersion = BASE | WITNESS_V0 | TAPROOT | TAPSCRIPT

definition COMPRESSED_SIZE :: nat where "COMPRESSED_SIZE = 33"
definition PUBKEY_SIZE :: nat where "PUBKEY_SIZE = 65"

definition IsCompressedOrUncompressedPubKey :: "bytes \<Rightarrow> bool" where
  "IsCompressedOrUncompressedPubKey vchPubKey \<longleftrightarrow>
     (if length vchPubKey < COMPRESSED_SIZE then False
      else if vchPubKey ! 0 = 0x04 then length vchPubKey = PUBKEY_SIZE
      else if vchPubKey ! 0 = 0x02 \<or> vchPubKey ! 0 = 0x03 then length vchPubKey = COMPRESSED_SIZE
      else False)"

definition IsCompressedPubKey :: "bytes \<Rightarrow> bool" where
  "IsCompressedPubKey vchPubKey \<longleftrightarrow>
     length vchPubKey = COMPRESSED_SIZE \<and> (vchPubKey ! 0 = 0x02 \<or> vchPubKey ! 0 = 0x03)"

definition IsValidSignatureEncoding :: "bytes \<Rightarrow> bool" where
  "IsValidSignatureEncoding sig \<longleftrightarrow>
     (if length sig < 9 then False
      else if length sig > 73 then False
      else if sig ! 0 \<noteq> 0x30 then False
      else if unat (sig ! 1) \<noteq> length sig - 3 then False
      else let lenR = unat (sig ! 3)
           in if 5 + lenR \<ge> length sig then False
              else let lenS = unat (sig ! (5 + lenR))
                   in if lenR + lenS + 7 \<noteq> length sig then False
                      else if sig ! 2 \<noteq> 0x02 then False
                      else if lenR = 0 then False
                      else if sig ! 4 AND 0x80 \<noteq> 0 then False
                      else if lenR > 1 \<and> sig ! 4 = 0 \<and> sig ! 5 AND 0x80 = 0 then False
                      else if sig ! (lenR + 4) \<noteq> 0x02 then False
                      else if lenS = 0 then False
                      else if sig ! (lenR + 6) AND 0x80 \<noteq> 0 then False
                      else if lenS > 1 \<and> sig ! (lenR + 6) = 0 \<and> sig ! (lenR + 7) AND 0x80 = 0 then False
                      else True)"

definition IsLowDERSignature :: "Crypto \<Rightarrow> bytes \<Rightarrow> unit script_result" where
  "IsLowDERSignature cr vchSig =
     (if \<not> IsValidSignatureEncoding vchSig then Fail SCRIPT_ERR_SIG_DER
      else if \<not> CheckLowS cr (butlast vchSig) then Fail SCRIPT_ERR_SIG_HIGH_S
      else Ok ())"

definition SIGHASH_ALL :: uint8 where "SIGHASH_ALL = 1"
definition SIGHASH_NONE :: uint8 where "SIGHASH_NONE = 2"
definition SIGHASH_SINGLE :: uint8 where "SIGHASH_SINGLE = 3"
definition SIGHASH_ANYONECANPAY :: uint8 where "SIGHASH_ANYONECANPAY = 0x80"
definition SIGHASH_DEFAULT :: uint8 where "SIGHASH_DEFAULT = 0"
definition SIGHASH_OUTPUT_MASK :: uint8 where "SIGHASH_OUTPUT_MASK = 3"
definition SIGHASH_INPUT_MASK :: uint8 where "SIGHASH_INPUT_MASK = 0x80"

definition IsDefinedHashtypeSignature :: "bytes \<Rightarrow> bool" where
  "IsDefinedHashtypeSignature vchSig \<longleftrightarrow>
     (if length vchSig = 0 then False
      else let nHashType = last vchSig AND NOT SIGHASH_ANYONECANPAY
           in \<not> (nHashType < SIGHASH_ALL \<or> nHashType > SIGHASH_SINGLE))"

definition CheckSignatureEncoding :: "Crypto \<Rightarrow> bytes \<Rightarrow> uint32 \<Rightarrow> unit script_result" where
  "CheckSignatureEncoding cr vchSig flags =
     (if length vchSig = 0 then Ok ()
      else if has_flag flags (SCRIPT_VERIFY_DERSIG OR SCRIPT_VERIFY_LOW_S OR SCRIPT_VERIFY_STRICTENC) \<and>
              \<not> IsValidSignatureEncoding vchSig
      then Fail SCRIPT_ERR_SIG_DER
      else sbind (if has_flag flags SCRIPT_VERIFY_LOW_S then IsLowDERSignature cr vchSig else Ok ())
        (\<lambda>_. if has_flag flags SCRIPT_VERIFY_STRICTENC \<and> \<not> IsDefinedHashtypeSignature vchSig
             then Fail SCRIPT_ERR_SIG_HASHTYPE
             else Ok ()))"

definition CheckPubKeyEncoding :: "bytes \<Rightarrow> uint32 \<Rightarrow> SigVersion \<Rightarrow> unit script_result" where
  "CheckPubKeyEncoding vchPubKey flags sigversion =
     (if has_flag flags SCRIPT_VERIFY_STRICTENC \<and> \<not> IsCompressedOrUncompressedPubKey vchPubKey
      then Fail SCRIPT_ERR_PUBKEYTYPE
      else if has_flag flags SCRIPT_VERIFY_WITNESS_PUBKEYTYPE \<and> sigversion = WITNESS_V0 \<and>
              \<not> IsCompressedPubKey vchPubKey
      then Fail SCRIPT_ERR_WITNESS_PUBKEYTYPE
      else Ok ())"

section \<open>Removing a signature from a script\<close>

lemma drop_shorter: "b \<noteq> [] \<Longrightarrow> length b \<le> length pc \<Longrightarrow> length pc - length b < length pc"
  by (cases b) auto

text \<open>The copies of \<open>b\<close> at the start of the remaining script are counted and skipped.\<close>

function skip_matches :: "bytes \<Rightarrow> int \<Rightarrow> bytes \<Rightarrow> int \<times> bytes" where
  "skip_matches b nFound pc =
     (if b \<noteq> [] \<and> length pc \<ge> length b \<and> take (length b) pc = b
      then skip_matches b (nFound + 1) (drop (length b) pc)
      else (nFound, pc))"
  by pat_completeness auto
termination
  by (relation "measure (\<lambda>(_, _, pc). length pc)") (auto intro: drop_shorter)

declare skip_matches.simps [simp del]

lemma skip_matches_shorter: "skip_matches b n pc = (n', pc') \<Longrightarrow> length pc' \<le> length pc"
  by (induction b n pc rule: skip_matches.induct) (subst (asm) skip_matches.simps, fastforce split: if_splits)

text \<open>Every iteration copies the instruction between \<open>pc2\<close> and \<open>pc\<close>.\<close>

function find_and_delete_loop ::
  "bytes \<Rightarrow> bytes \<Rightarrow> bytes \<Rightarrow> bytes \<Rightarrow> int \<Rightarrow> int \<times> bytes \<times> bytes" where
  "find_and_delete_loop b pc2 pc result nFound =
     (let result' = result @ take (length pc2 - length pc) pc2;
          (nFound', pc') = skip_matches b nFound pc
      in case GetScriptOp pc' of
           None \<Rightarrow> (nFound', result', pc')
         | Some (_, pc'') \<Rightarrow> find_and_delete_loop b pc' pc'' result' nFound')"
  by pat_completeness auto
termination
  by (relation "measure (\<lambda>(_, _, pc, _, _). length pc)")
     (auto dest!: GetScriptOp_shorter skip_matches_shorter [OF sym])

declare find_and_delete_loop.simps [simp del]

definition FindAndDelete :: "CScript \<Rightarrow> CScript \<Rightarrow> int \<times> CScript" where
  "FindAndDelete script b =
     (if b = [] then (0, script)
      else let (nFound, result, pc2) = find_and_delete_loop b script script [] 0
           in if nFound > 0 then (nFound, result @ pc2) else (nFound, script))"

section \<open>Condition stack\<close>

record ConditionStack =
  m_stack_size :: uint32
  m_first_false_pos :: uint32

definition NO_FALSE :: uint32 where "NO_FALSE = 0xffffffff"

definition cond_new :: ConditionStack where
  "cond_new = \<lparr>m_stack_size = 0, m_first_false_pos = NO_FALSE\<rparr>"

definition cond_empty :: "ConditionStack \<Rightarrow> bool" where
  "cond_empty c \<longleftrightarrow> m_stack_size c = 0"

definition all_true :: "ConditionStack \<Rightarrow> bool" where
  "all_true c \<longleftrightarrow> m_first_false_pos c = NO_FALSE"

definition cond_push_back :: "bool \<Rightarrow> ConditionStack \<Rightarrow> ConditionStack" where
  "cond_push_back f c =
     \<lparr>m_stack_size = m_stack_size c + 1,
      m_first_false_pos =
        (if m_first_false_pos c = NO_FALSE \<and> \<not> f then m_stack_size c else m_first_false_pos c)\<rparr>"

definition cond_pop_back :: "ConditionStack \<Rightarrow> ConditionStack script_result" where
  "cond_pop_back c =
     (if m_stack_size c > 0
      then Ok \<lparr>m_stack_size = m_stack_size c - 1,
               m_first_false_pos =
                 (if m_first_false_pos c = m_stack_size c - 1 then NO_FALSE else m_first_false_pos c)\<rparr>
      else Abort)"

definition cond_toggle_top :: "ConditionStack \<Rightarrow> ConditionStack script_result" where
  "cond_toggle_top c =
     (if m_stack_size c > 0
      then Ok (if m_first_false_pos c = NO_FALSE then c\<lparr>m_first_false_pos := m_stack_size c - 1\<rparr>
               else if m_first_false_pos c = m_stack_size c - 1 then c\<lparr>m_first_false_pos := NO_FALSE\<rparr>
               else c)
      else Abort)"

section \<open>Signature checks\<close>

text \<open>
  What a script execution carries between the witness program and the opcodes
  (\<open>src/script/interpreter.h\<close>).
\<close>

record ScriptExecutionData =
  m_tapleaf_hash_init :: bool
  m_tapleaf_hash :: uint256
  m_codeseparator_pos_init :: bool
  m_codeseparator_pos :: uint32
  m_annex_init :: bool
  m_annex_present :: bool
  m_annex_hash :: uint256
  m_validation_weight_left_init :: bool
  m_validation_weight_left :: int
  m_output_hash :: "uint256 option"

definition new_execdata :: ScriptExecutionData where
  "new_execdata =
     \<lparr>m_tapleaf_hash_init = False, m_tapleaf_hash = uint256_zero, m_codeseparator_pos_init = False,
      m_codeseparator_pos = 0, m_annex_init = False, m_annex_present = False, m_annex_hash = uint256_zero,
      m_validation_weight_left_init = False, m_validation_weight_left = 0, m_output_hash = None\<rparr>"

text \<open>
  The interface of a signature checker. \<open>None\<close> is a failed assertion. A Schnorr check that returns
  false gives the error it stored, or \<open>Inl None\<close> if it stored none; one that succeeds gives the
  execution data, in which it may have stored the hash of an output.
\<close>

record BaseSignatureChecker =
  CheckECDSASignature :: "bytes \<Rightarrow> bytes \<Rightarrow> CScript \<Rightarrow> SigVersion \<Rightarrow> bool option"
  CheckSchnorrSignature ::
    "bytes \<Rightarrow> bytes \<Rightarrow> SigVersion \<Rightarrow> ScriptExecutionData \<Rightarrow> (ScriptError option + ScriptExecutionData) option"
  CheckHybridSignature :: "bytes \<Rightarrow> bytes \<Rightarrow> bytes \<Rightarrow> bytes \<Rightarrow> bytes \<Rightarrow> bool option"
  CheckLockTime :: "int \<Rightarrow> bool"
  CheckSequence :: "int \<Rightarrow> bool"

record EvalContext =
  ctx_flags :: uint32
  ctx_sigversion :: SigVersion
  ctx_checker :: BaseSignatureChecker
  ctx_crypto :: Crypto

definition EvalChecksigPreTapscript :: "EvalContext \<Rightarrow> bytes \<Rightarrow> bytes \<Rightarrow> CScript \<Rightarrow> bool script_result" where
  "EvalChecksigPreTapscript ctx vchSig vchPubKey pbegincodehash =
     (if \<not> (ctx_sigversion ctx = BASE \<or> ctx_sigversion ctx = WITNESS_V0) then Abort
      else let (found, scriptCode) =
                 (if ctx_sigversion ctx = BASE then FindAndDelete pbegincodehash (push_data vchSig)
                  else (0, pbegincodehash))
           in if found > 0 \<and> has_flag (ctx_flags ctx) SCRIPT_VERIFY_CONST_SCRIPTCODE
              then Fail SCRIPT_ERR_SIG_FINDANDDELETE
              else sbind (CheckSignatureEncoding (ctx_crypto ctx) vchSig (ctx_flags ctx)) (\<lambda>_.
                   sbind (CheckPubKeyEncoding vchPubKey (ctx_flags ctx) (ctx_sigversion ctx)) (\<lambda>_.
                   case CheckECDSASignature (ctx_checker ctx) vchSig vchPubKey scriptCode (ctx_sigversion ctx) of
                     None \<Rightarrow> Abort
                   | Some fSuccess \<Rightarrow>
                       if \<not> fSuccess \<and> has_flag (ctx_flags ctx) SCRIPT_VERIFY_NULLFAIL \<and> length vchSig > 0
                       then Fail SCRIPT_ERR_SIG_NULLFAIL
                       else Ok fSuccess)))"

definition VALIDATION_WEIGHT_PER_SIGOP_PASSED :: int where "VALIDATION_WEIGHT_PER_SIGOP_PASSED = 50"
definition VALIDATION_WEIGHT_OFFSET :: int where "VALIDATION_WEIGHT_OFFSET = 50"

text \<open>In \<open>EvalScript\<close> the stored error is \<open>SCRIPT_ERR_UNKNOWN_ERROR\<close> until another one is stored.\<close>

definition EvalChecksigTapscript ::
  "EvalContext \<Rightarrow> bytes \<Rightarrow> bytes \<Rightarrow> ScriptExecutionData \<Rightarrow> (bool \<times> ScriptExecutionData) script_result" where
  "EvalChecksigTapscript ctx sig pubkey execdata =
     (if ctx_sigversion ctx \<noteq> TAPSCRIPT then Abort
      else let success = (sig \<noteq> [])
           in sbind
                (if success
                 then if \<not> m_validation_weight_left_init execdata then Abort
                      else let left = m_validation_weight_left execdata - VALIDATION_WEIGHT_PER_SIGOP_PASSED
                           in if left < 0 then Fail SCRIPT_ERR_TAPSCRIPT_VALIDATION_WEIGHT
                              else Ok (execdata\<lparr>m_validation_weight_left := left\<rparr>)
                 else Ok execdata)
                (\<lambda>execdata'.
                   if length pubkey = 0 then Fail SCRIPT_ERR_PUBKEYTYPE
                   else if length pubkey = 32
                   then if success
                        then case CheckSchnorrSignature (ctx_checker ctx) sig pubkey TAPSCRIPT execdata' of
                               None \<Rightarrow> Abort
                             | Some (Inl None) \<Rightarrow> Fail SCRIPT_ERR_UNKNOWN_ERROR
                             | Some (Inl (Some serror)) \<Rightarrow> Fail serror
                             | Some (Inr execdata'') \<Rightarrow> Ok (True, execdata'')
                        else Ok (False, execdata')
                   else if has_flag (ctx_flags ctx) SCRIPT_VERIFY_DISCOURAGE_UPGRADABLE_PUBKEYTYPE
                   then Fail SCRIPT_ERR_DISCOURAGE_UPGRADABLE_PUBKEYTYPE
                   else Ok (success, execdata')))"

definition EvalChecksig ::
  "EvalContext \<Rightarrow> bytes \<Rightarrow> bytes \<Rightarrow> CScript \<Rightarrow> ScriptExecutionData \<Rightarrow> (bool \<times> ScriptExecutionData) script_result" where
  "EvalChecksig ctx sig pubkey pbegincodehash execdata =
     (case ctx_sigversion ctx of
        BASE \<Rightarrow> sbind (EvalChecksigPreTapscript ctx sig pubkey pbegincodehash) (\<lambda>success. Ok (success, execdata))
      | WITNESS_V0 \<Rightarrow>
          sbind (EvalChecksigPreTapscript ctx sig pubkey pbegincodehash) (\<lambda>success. Ok (success, execdata))
      | TAPSCRIPT \<Rightarrow> EvalChecksigTapscript ctx sig pubkey execdata
      | TAPROOT \<Rightarrow> Abort)"

section \<open>Opcodes\<close>

record EvalState =
  st_stack :: "bytes list"
  st_altstack :: "bytes list"
  st_vfExec :: ConditionStack
  st_nOpCount :: int
  st_opcode_pos :: uint32
  st_pbegincodehash :: bytes
  st_execdata :: ScriptExecutionData

definition vchFalse :: bytes where "vchFalse = []"
definition vchTrue :: bytes where "vchTrue = [1]"

definition vch_bool :: "bool \<Rightarrow> bytes" where
  "vch_bool f = (if f then vchTrue else vchFalse)"

definition nDefaultMaxNumSize :: nat where "nDefaultMaxNumSize = 4"

definition fRequireMinimal :: "EvalContext \<Rightarrow> bool" where
  "fRequireMinimal ctx = has_flag (ctx_flags ctx) SCRIPT_VERIFY_MINIMALDATA"

text \<open>Reading a number throws when it is too long or not minimal.\<close>

definition script_num :: "EvalContext \<Rightarrow> bytes \<Rightarrow> nat \<Rightarrow> int script_result" where
  "script_num ctx vch nMaxNumSize =
     (case CScriptNum vch (fRequireMinimal ctx) nMaxNumSize of
        Inl _ \<Rightarrow> Fail SCRIPT_ERR_UNKNOWN_ERROR
      | Inr n \<Rightarrow> Ok n)"

text \<open>The sum, difference or negation of script numbers, which must be an \<open>int64_t\<close>.\<close>

definition num_result :: "int \<Rightarrow> int script_result" where
  "num_result n = (if is_int64 n then Ok n else Abort)"

definition on_stack :: "(bytes list \<Rightarrow> bytes list script_result) \<Rightarrow> EvalState \<Rightarrow> EvalState script_result" where
  "on_stack f st = sbind (f (st_stack st)) (\<lambda>s. Ok (st\<lparr>st_stack := s\<rparr>))"

abbreviation (input) invalid_stack :: "'a script_result" where
  "invalid_stack \<equiv> Fail SCRIPT_ERR_INVALID_STACK_OPERATION"

definition op_push_number :: "opcodetype \<Rightarrow> bytes list \<Rightarrow> bytes list script_result" where
  "op_push_number opcode s = Ok (scriptnum_serialize (uint opcode - (uint OP_1 - 1)) # s)"

definition op_checklocktimeverify :: "EvalContext \<Rightarrow> bytes list \<Rightarrow> bytes list script_result" where
  "op_checklocktimeverify ctx s =
     (if \<not> has_flag (ctx_flags ctx) SCRIPT_VERIFY_CHECKLOCKTIMEVERIFY then Ok s
      else case s of
             [] \<Rightarrow> invalid_stack
           | v # _ \<Rightarrow>
               sbind (script_num ctx v 5) (\<lambda>nLockTime.
               if nLockTime < 0 then Fail SCRIPT_ERR_NEGATIVE_LOCKTIME
               else if \<not> CheckLockTime (ctx_checker ctx) nLockTime then Fail SCRIPT_ERR_UNSATISFIED_LOCKTIME
               else Ok s))"

definition op_checksequenceverify :: "EvalContext \<Rightarrow> bytes list \<Rightarrow> bytes list script_result" where
  "op_checksequenceverify ctx s =
     (if \<not> has_flag (ctx_flags ctx) SCRIPT_VERIFY_CHECKSEQUENCEVERIFY then Ok s
      else case s of
             [] \<Rightarrow> invalid_stack
           | v # _ \<Rightarrow>
               sbind (script_num ctx v 5) (\<lambda>nSequence.
               if nSequence < 0 then Fail SCRIPT_ERR_NEGATIVE_LOCKTIME
               else if nSequence AND uint SEQUENCE_LOCKTIME_DISABLE_FLAG \<noteq> 0 then Ok s
               else if \<not> CheckSequence (ctx_checker ctx) nSequence then Fail SCRIPT_ERR_UNSATISFIED_LOCKTIME
               else Ok s))"

definition op_upgradable_nop :: "EvalContext \<Rightarrow> bytes list \<Rightarrow> bytes list script_result" where
  "op_upgradable_nop ctx s =
     (if has_flag (ctx_flags ctx) SCRIPT_VERIFY_DISCOURAGE_UPGRADABLE_NOPS
      then Fail SCRIPT_ERR_DISCOURAGE_UPGRADABLE_NOPS else Ok s)"

definition minimal_if :: "bytes \<Rightarrow> bool" where
  "minimal_if vch \<longleftrightarrow> \<not> (length vch > 1 \<or> (length vch = 1 \<and> vch ! 0 \<noteq> 1))"

definition op_if :: "EvalContext \<Rightarrow> bool \<Rightarrow> opcodetype \<Rightarrow> EvalState \<Rightarrow> EvalState script_result" where
  "op_if ctx fExec opcode st =
     (if fExec
      then case st_stack st of
             [] \<Rightarrow> Fail SCRIPT_ERR_UNBALANCED_CONDITIONAL
           | vch # s \<Rightarrow>
               if ctx_sigversion ctx = TAPSCRIPT \<and> \<not> minimal_if vch then Fail SCRIPT_ERR_TAPSCRIPT_MINIMALIF
               else if ctx_sigversion ctx = WITNESS_V0 \<and> has_flag (ctx_flags ctx) SCRIPT_VERIFY_MINIMALIF \<and>
                       \<not> minimal_if vch
               then Fail SCRIPT_ERR_MINIMALIF
               else let fValue = (if opcode = OP_NOTIF then \<not> CastToBool vch else CastToBool vch)
                    in Ok (st\<lparr>st_stack := s, st_vfExec := cond_push_back fValue (st_vfExec st)\<rparr>)
      else Ok (st\<lparr>st_vfExec := cond_push_back False (st_vfExec st)\<rparr>))"

definition op_else :: "EvalState \<Rightarrow> EvalState script_result" where
  "op_else st =
     (if cond_empty (st_vfExec st) then Fail SCRIPT_ERR_UNBALANCED_CONDITIONAL
      else sbind (cond_toggle_top (st_vfExec st)) (\<lambda>c. Ok (st\<lparr>st_vfExec := c\<rparr>)))"

definition op_endif :: "EvalState \<Rightarrow> EvalState script_result" where
  "op_endif st =
     (if cond_empty (st_vfExec st) then Fail SCRIPT_ERR_UNBALANCED_CONDITIONAL
      else sbind (cond_pop_back (st_vfExec st)) (\<lambda>c. Ok (st\<lparr>st_vfExec := c\<rparr>)))"

definition op_verify :: "bytes list \<Rightarrow> bytes list script_result" where
  "op_verify s =
     (case s of [] \<Rightarrow> invalid_stack | v # r \<Rightarrow> if CastToBool v then Ok r else Fail SCRIPT_ERR_VERIFY)"

definition op_toaltstack :: "EvalState \<Rightarrow> EvalState script_result" where
  "op_toaltstack st =
     (case st_stack st of
        [] \<Rightarrow> invalid_stack
      | v # s \<Rightarrow> Ok (st\<lparr>st_altstack := v # st_altstack st, st_stack := s\<rparr>))"

definition op_fromaltstack :: "EvalState \<Rightarrow> EvalState script_result" where
  "op_fromaltstack st =
     (case st_altstack st of
        [] \<Rightarrow> Fail SCRIPT_ERR_INVALID_ALTSTACK_OPERATION
      | v # a \<Rightarrow> Ok (st\<lparr>st_stack := v # st_stack st, st_altstack := a\<rparr>))"

definition op_pairs :: "opcodetype \<Rightarrow> bytes list \<Rightarrow> bytes list script_result" where
  "op_pairs opcode s =
     (if opcode = OP_2DROP then (case s of _ # _ # r \<Rightarrow> Ok r | _ \<Rightarrow> invalid_stack)
      else if opcode = OP_2DUP then (case s of v2 # v1 # r \<Rightarrow> Ok (v2 # v1 # v2 # v1 # r) | _ \<Rightarrow> invalid_stack)
      else if opcode = OP_3DUP
      then (case s of v3 # v2 # v1 # r \<Rightarrow> Ok (v3 # v2 # v1 # v3 # v2 # v1 # r) | _ \<Rightarrow> invalid_stack)
      else if opcode = OP_2OVER
      then (case s of x4 # x3 # x2 # x1 # r \<Rightarrow> Ok (x2 # x1 # x4 # x3 # x2 # x1 # r) | _ \<Rightarrow> invalid_stack)
      else if opcode = OP_2ROT
      then (case s of x6 # x5 # x4 # x3 # x2 # x1 # r \<Rightarrow> Ok (x2 # x1 # x6 # x5 # x4 # x3 # r) | _ \<Rightarrow> invalid_stack)
      else (case s of x4 # x3 # x2 # x1 # r \<Rightarrow> Ok (x2 # x1 # x4 # x3 # r) | _ \<Rightarrow> invalid_stack))"

definition op_single :: "opcodetype \<Rightarrow> bytes list \<Rightarrow> bytes list script_result" where
  "op_single opcode s =
     (if opcode = OP_IFDUP
      then (case s of v # r \<Rightarrow> Ok (if CastToBool v then v # v # r else v # r) | _ \<Rightarrow> invalid_stack)
      else if opcode = OP_DEPTH then Ok (scriptnum_serialize (int (length s)) # s)
      else if opcode = OP_DROP then (case s of _ # r \<Rightarrow> Ok r | _ \<Rightarrow> invalid_stack)
      else if opcode = OP_DUP then (case s of v # r \<Rightarrow> Ok (v # v # r) | _ \<Rightarrow> invalid_stack)
      else if opcode = OP_NIP then (case s of x2 # x1 # r \<Rightarrow> Ok (x2 # r) | _ \<Rightarrow> invalid_stack)
      else (case s of x2 # x1 # r \<Rightarrow> Ok (x1 # x2 # x1 # r) | _ \<Rightarrow> invalid_stack))"

definition op_pick_roll :: "EvalContext \<Rightarrow> opcodetype \<Rightarrow> bytes list \<Rightarrow> bytes list script_result" where
  "op_pick_roll ctx opcode s =
     (if length s < 2 then invalid_stack
      else sbind (script_num ctx (hd s) nDefaultMaxNumSize) (\<lambda>bn.
           let n = getint bn; s' = tl s
           in if n < 0 \<or> n \<ge> int (length s') then invalid_stack
              else let vch = s' ! nat n
                   in Ok (vch # (if opcode = OP_ROLL then take (nat n) s' @ drop (nat n + 1) s' else s'))))"

definition op_rot :: "opcodetype \<Rightarrow> bytes list \<Rightarrow> bytes list script_result" where
  "op_rot opcode s =
     (if opcode = OP_ROT then (case s of x3 # x2 # x1 # r \<Rightarrow> Ok (x1 # x3 # x2 # r) | _ \<Rightarrow> invalid_stack)
      else if opcode = OP_SWAP then (case s of x2 # x1 # r \<Rightarrow> Ok (x1 # x2 # r) | _ \<Rightarrow> invalid_stack)
      else if opcode = OP_TUCK then (case s of x2 # x1 # r \<Rightarrow> Ok (x2 # x1 # x2 # r) | _ \<Rightarrow> invalid_stack)
      else (case s of v # r \<Rightarrow> Ok (scriptnum_serialize (int (length v)) # v # r) | _ \<Rightarrow> invalid_stack))"

definition op_equal :: "opcodetype \<Rightarrow> bytes list \<Rightarrow> bytes list script_result" where
  "op_equal opcode s =
     (case s of
        vch2 # vch1 # r \<Rightarrow>
          let fEqual = (vch1 = vch2)
          in if opcode = OP_EQUALVERIFY
             then if fEqual then Ok r else Fail SCRIPT_ERR_EQUALVERIFY
             else Ok (vch_bool fEqual # r)
      | _ \<Rightarrow> invalid_stack)"

definition op_unary :: "EvalContext \<Rightarrow> opcodetype \<Rightarrow> bytes list \<Rightarrow> bytes list script_result" where
  "op_unary ctx opcode s =
     (case s of
        [] \<Rightarrow> invalid_stack
      | v # r \<Rightarrow>
          sbind (script_num ctx v nDefaultMaxNumSize) (\<lambda>bn.
          sbind (if opcode = OP_1ADD then num_result (bn + 1)
                 else if opcode = OP_1SUB then num_result (bn - 1)
                 else if opcode = OP_NEGATE then num_result (- bn)
                 else if opcode = OP_ABS then (if bn < 0 then num_result (- bn) else Ok bn)
                 else if opcode = OP_NOT then Ok (of_bool (bn = 0))
                 else Ok (of_bool (bn \<noteq> 0)))
            (\<lambda>bn'. Ok (scriptnum_serialize bn' # r))))"

definition binary_num :: "opcodetype \<Rightarrow> int \<Rightarrow> int \<Rightarrow> int script_result" where
  "binary_num opcode bn1 bn2 =
     (if opcode = OP_ADD then num_result (bn1 + bn2)
      else if opcode = OP_SUB then num_result (bn1 - bn2)
      else if opcode = OP_BOOLAND then Ok (of_bool (bn1 \<noteq> 0 \<and> bn2 \<noteq> 0))
      else if opcode = OP_BOOLOR then Ok (of_bool (bn1 \<noteq> 0 \<or> bn2 \<noteq> 0))
      else if opcode = OP_NUMEQUAL then Ok (of_bool (bn1 = bn2))
      else if opcode = OP_NUMEQUALVERIFY then Ok (of_bool (bn1 = bn2))
      else if opcode = OP_NUMNOTEQUAL then Ok (of_bool (bn1 \<noteq> bn2))
      else if opcode = OP_LESSTHAN then Ok (of_bool (bn1 < bn2))
      else if opcode = OP_GREATERTHAN then Ok (of_bool (bn1 > bn2))
      else if opcode = OP_LESSTHANOREQUAL then Ok (of_bool (bn1 \<le> bn2))
      else if opcode = OP_GREATERTHANOREQUAL then Ok (of_bool (bn1 \<ge> bn2))
      else if opcode = OP_MIN then Ok (if bn1 < bn2 then bn1 else bn2)
      else Ok (if bn1 > bn2 then bn1 else bn2))"

definition op_binary :: "EvalContext \<Rightarrow> opcodetype \<Rightarrow> bytes list \<Rightarrow> bytes list script_result" where
  "op_binary ctx opcode s =
     (case s of
        v2 # v1 # r \<Rightarrow>
          sbind (script_num ctx v1 nDefaultMaxNumSize) (\<lambda>bn1.
          sbind (script_num ctx v2 nDefaultMaxNumSize) (\<lambda>bn2.
          sbind (binary_num opcode bn1 bn2) (\<lambda>bn.
          let v = scriptnum_serialize bn
          in if opcode = OP_NUMEQUALVERIFY
             then if CastToBool v then Ok r else Fail SCRIPT_ERR_NUMEQUALVERIFY
             else Ok (v # r))))
      | _ \<Rightarrow> invalid_stack)"

definition op_within :: "EvalContext \<Rightarrow> bytes list \<Rightarrow> bytes list script_result" where
  "op_within ctx s =
     (case s of
        v3 # v2 # v1 # r \<Rightarrow>
          sbind (script_num ctx v1 nDefaultMaxNumSize) (\<lambda>bn1.
          sbind (script_num ctx v2 nDefaultMaxNumSize) (\<lambda>bn2.
          sbind (script_num ctx v3 nDefaultMaxNumSize) (\<lambda>bn3.
          Ok (vch_bool (bn2 \<le> bn1 \<and> bn1 < bn3) # r))))
      | _ \<Rightarrow> invalid_stack)"

definition op_digest :: "EvalContext \<Rightarrow> opcodetype \<Rightarrow> bytes list \<Rightarrow> bytes list script_result" where
  "op_digest ctx opcode s =
     (case s of
        [] \<Rightarrow> invalid_stack
      | vch # r \<Rightarrow>
          Ok ((if opcode = OP_RIPEMD160 then RIPEMD160 (ctx_crypto ctx) vch
               else if opcode = OP_SHA1 then SHA1 (ctx_crypto ctx) vch
               else if opcode = OP_SHA256 then SHA256 (ctx_crypto ctx) vch
               else if opcode = OP_HASH160 then CHash160 (ctx_crypto ctx) vch
               else CHash256 (ctx_crypto ctx) vch) # r))"

definition op_codeseparator :: "bytes \<Rightarrow> EvalState \<Rightarrow> EvalState script_result" where
  "op_codeseparator pc st =
     Ok (st\<lparr>st_pbegincodehash := pc,
            st_execdata := (st_execdata st)\<lparr>m_codeseparator_pos := st_opcode_pos st\<rparr>\<rparr>)"

definition op_checksig :: "EvalContext \<Rightarrow> opcodetype \<Rightarrow> EvalState \<Rightarrow> EvalState script_result" where
  "op_checksig ctx opcode st =
     (case st_stack st of
        vchPubKey # vchSig # r \<Rightarrow>
          sbind (EvalChecksig ctx vchSig vchPubKey (st_pbegincodehash st) (st_execdata st)) (\<lambda>(fSuccess, execdata).
          if opcode = OP_CHECKSIGVERIFY
          then if fSuccess then Ok (st\<lparr>st_stack := r, st_execdata := execdata\<rparr>) else Fail SCRIPT_ERR_CHECKSIGVERIFY
          else Ok (st\<lparr>st_stack := vch_bool fSuccess # r, st_execdata := execdata\<rparr>))
      | _ \<Rightarrow> invalid_stack)"

definition op_checksigadd :: "EvalContext \<Rightarrow> EvalState \<Rightarrow> EvalState script_result" where
  "op_checksigadd ctx st =
     (if ctx_sigversion ctx = BASE \<or> ctx_sigversion ctx = WITNESS_V0 then Fail SCRIPT_ERR_BAD_OPCODE
      else case st_stack st of
             pubkey # v # sig # r \<Rightarrow>
               sbind (script_num ctx v nDefaultMaxNumSize) (\<lambda>num.
               sbind (EvalChecksig ctx sig pubkey (st_pbegincodehash st) (st_execdata st)) (\<lambda>(success, execdata).
               sbind (num_result (num + (if success then 1 else 0))) (\<lambda>n.
               Ok (st\<lparr>st_stack := scriptnum_serialize n # r, st_execdata := execdata\<rparr>))))
           | _ \<Rightarrow> invalid_stack)"

section \<open>Multisignature\<close>

text \<open>The signatures are removed from the script code of a pre-segwit script.\<close>

primrec multisig_script_code :: "EvalContext \<Rightarrow> bytes list \<Rightarrow> CScript \<Rightarrow> CScript script_result" where
  "multisig_script_code ctx [] scriptCode = Ok scriptCode"
| "multisig_script_code ctx (vchSig # sigs) scriptCode =
     (if ctx_sigversion ctx = BASE
      then let (found, scriptCode') = FindAndDelete scriptCode (push_data vchSig)
           in if found > 0 \<and> has_flag (ctx_flags ctx) SCRIPT_VERIFY_CONST_SCRIPTCODE
              then Fail SCRIPT_ERR_SIG_FINDANDDELETE
              else multisig_script_code ctx sigs scriptCode'
      else multisig_script_code ctx sigs scriptCode)"

text \<open>
  The remaining signatures are tried on the remaining keys. The loop is entered with at most as
  many signatures as keys, and left as soon as there are more, so the keys do not run out first.
\<close>

fun multisig_loop :: "EvalContext \<Rightarrow> CScript \<Rightarrow> bytes list \<Rightarrow> bytes list \<Rightarrow> bool script_result" where
  "multisig_loop ctx scriptCode [] ks = Ok True"
| "multisig_loop ctx scriptCode (vchSig # sigs) [] = Ok False"
| "multisig_loop ctx scriptCode (vchSig # sigs) (vchPubKey # ks) =
     sbind (CheckSignatureEncoding (ctx_crypto ctx) vchSig (ctx_flags ctx)) (\<lambda>_.
     sbind (CheckPubKeyEncoding vchPubKey (ctx_flags ctx) (ctx_sigversion ctx)) (\<lambda>_.
     case CheckECDSASignature (ctx_checker ctx) vchSig vchPubKey scriptCode (ctx_sigversion ctx) of
       None \<Rightarrow> Abort
     | Some fOk \<Rightarrow>
         let sigs' = (if fOk then sigs else vchSig # sigs)
         in if length sigs' > length ks then Ok False else multisig_loop ctx scriptCode sigs' ks))"

text \<open>
  The arguments are popped. With \<open>nullfail\<close>, the signatures, which come after the first \<open>ikey2\<close>
  items, must be empty.
\<close>

primrec multisig_cleanup :: "bool \<Rightarrow> nat \<Rightarrow> nat \<Rightarrow> bytes list \<Rightarrow> bytes list script_result" where
  "multisig_cleanup nullfail 0 ikey2 s = Ok s"
| "multisig_cleanup nullfail (Suc n) ikey2 s =
     (case s of
        [] \<Rightarrow> Fail SCRIPT_ERR_UNKNOWN_ERROR
      | v # r \<Rightarrow>
          if nullfail \<and> ikey2 = 0 \<and> length v > 0 then Fail SCRIPT_ERR_SIG_NULLFAIL
          else multisig_cleanup nullfail n (ikey2 - 1) r)"

definition multisig_finish :: "EvalContext \<Rightarrow> opcodetype \<Rightarrow> bool \<Rightarrow> bytes list \<Rightarrow> bytes list script_result" where
  "multisig_finish ctx opcode fSuccess s =
     (case s of
        [] \<Rightarrow> invalid_stack
      | v # r \<Rightarrow>
          if has_flag (ctx_flags ctx) SCRIPT_VERIFY_NULLDUMMY \<and> length v > 0 then Fail SCRIPT_ERR_SIG_NULLDUMMY
          else if opcode = OP_CHECKMULTISIGVERIFY
          then if fSuccess then Ok r else Fail SCRIPT_ERR_CHECKMULTISIGVERIFY
          else Ok (vch_bool fSuccess # r))"

definition op_checkmultisig :: "EvalContext \<Rightarrow> opcodetype \<Rightarrow> EvalState \<Rightarrow> EvalState script_result" where
  "op_checkmultisig ctx opcode st =
     (let s = st_stack st; flags = ctx_flags ctx
      in if ctx_sigversion ctx = TAPSCRIPT then Fail SCRIPT_ERR_TAPSCRIPT_CHECKMULTISIG
      else if length s < 1 then invalid_stack
      else sbind (script_num ctx (s ! 0) nDefaultMaxNumSize) (\<lambda>bnKeys.
      let nKeysCount = getint bnKeys; nOpCount = st_nOpCount st + nKeysCount; k = nat nKeysCount
      in if nKeysCount < 0 \<or> nKeysCount > int MAX_PUBKEYS_PER_MULTISIG then Fail SCRIPT_ERR_PUBKEY_COUNT
      else if nOpCount > MAX_OPS_PER_SCRIPT then Fail SCRIPT_ERR_OP_COUNT
      else if length s < k + 2 then invalid_stack
      else sbind (script_num ctx (s ! (k + 1)) nDefaultMaxNumSize) (\<lambda>bnSigs.
      let nSigsCount = getint bnSigs; n = nat nSigsCount
      in if nSigsCount < 0 \<or> nSigsCount > nKeysCount then Fail SCRIPT_ERR_SIG_COUNT
      else if length s < k + n + 3 then invalid_stack
      else let sigs = take n (drop (k + 2) s); ks = take k (drop 1 s)
      in sbind (multisig_script_code ctx sigs (st_pbegincodehash st)) (\<lambda>scriptCode.
      sbind (multisig_loop ctx scriptCode sigs ks) (\<lambda>fSuccess.
      sbind (multisig_cleanup (\<not> fSuccess \<and> has_flag flags SCRIPT_VERIFY_NULLFAIL) (k + n + 2) (k + 2) s) (\<lambda>s'.
      sbind (multisig_finish ctx opcode fSuccess s') (\<lambda>s''.
      Ok (st\<lparr>st_stack := s'', st_nOpCount := nOpCount\<rparr>))))))))"

section \<open>Evaluation\<close>

definition op_disabled :: "opcodetype \<Rightarrow> bool" where
  "op_disabled opcode \<longleftrightarrow>
     opcode = OP_CAT \<or> opcode = OP_SUBSTR \<or> opcode = OP_LEFT \<or> opcode = OP_RIGHT \<or> opcode = OP_INVERT \<or>
     opcode = OP_AND \<or> opcode = OP_OR \<or> opcode = OP_XOR \<or> opcode = OP_2MUL \<or> opcode = OP_2DIV \<or>
     opcode = OP_MUL \<or> opcode = OP_DIV \<or> opcode = OP_MOD \<or> opcode = OP_LSHIFT \<or> opcode = OP_RSHIFT"

text \<open>The \<open>switch\<close> over the opcode.\<close>

definition exec_op :: "EvalContext \<Rightarrow> bool \<Rightarrow> opcodetype \<Rightarrow> bytes \<Rightarrow> EvalState \<Rightarrow> EvalState script_result" where
  "exec_op ctx fExec opcode pc st =
     (if opcode = OP_1NEGATE \<or> (OP_1 \<le> opcode \<and> opcode \<le> OP_16) then on_stack (op_push_number opcode) st
      else if opcode = OP_NOP then Ok st
      else if opcode = OP_CHECKLOCKTIMEVERIFY then on_stack (op_checklocktimeverify ctx) st
      else if opcode = OP_CHECKSEQUENCEVERIFY then on_stack (op_checksequenceverify ctx) st
      else if opcode \<in> {OP_NOP1, OP_NOP4, OP_NOP5, OP_NOP6, OP_NOP7, OP_NOP8, OP_NOP9, OP_NOP10}
      then on_stack (op_upgradable_nop ctx) st
      else if opcode \<in> {OP_IF, OP_NOTIF} then op_if ctx fExec opcode st
      else if opcode = OP_ELSE then op_else st
      else if opcode = OP_ENDIF then op_endif st
      else if opcode = OP_VERIFY then on_stack op_verify st
      else if opcode = OP_RETURN then Fail SCRIPT_ERR_OP_RETURN
      else if opcode = OP_TOALTSTACK then op_toaltstack st
      else if opcode = OP_FROMALTSTACK then op_fromaltstack st
      else if opcode \<in> {OP_2DROP, OP_2DUP, OP_3DUP, OP_2OVER, OP_2ROT, OP_2SWAP} then on_stack (op_pairs opcode) st
      else if opcode \<in> {OP_IFDUP, OP_DEPTH, OP_DROP, OP_DUP, OP_NIP, OP_OVER} then on_stack (op_single opcode) st
      else if opcode \<in> {OP_PICK, OP_ROLL} then on_stack (op_pick_roll ctx opcode) st
      else if opcode \<in> {OP_ROT, OP_SWAP, OP_TUCK, OP_SIZE} then on_stack (op_rot opcode) st
      else if opcode \<in> {OP_EQUAL, OP_EQUALVERIFY} then on_stack (op_equal opcode) st
      else if opcode \<in> {OP_1ADD, OP_1SUB, OP_NEGATE, OP_ABS, OP_NOT, OP_0NOTEQUAL} then on_stack (op_unary ctx opcode) st
      else if opcode \<in> {OP_ADD, OP_SUB, OP_BOOLAND, OP_BOOLOR, OP_NUMEQUAL, OP_NUMEQUALVERIFY, OP_NUMNOTEQUAL,
                         OP_LESSTHAN, OP_GREATERTHAN, OP_LESSTHANOREQUAL, OP_GREATERTHANOREQUAL, OP_MIN, OP_MAX}
      then on_stack (op_binary ctx opcode) st
      else if opcode = OP_WITHIN then on_stack (op_within ctx) st
      else if opcode \<in> {OP_RIPEMD160, OP_SHA1, OP_SHA256, OP_HASH160, OP_HASH256} then on_stack (op_digest ctx opcode) st
      else if opcode = OP_CODESEPARATOR then op_codeseparator pc st
      else if opcode \<in> {OP_CHECKSIG, OP_CHECKSIGVERIFY} then op_checksig ctx opcode st
      else if opcode = OP_CHECKSIGADD then op_checksigadd ctx st
      else if opcode \<in> {OP_CHECKMULTISIG, OP_CHECKMULTISIGVERIFY} then op_checkmultisig ctx opcode st
      else Fail SCRIPT_ERR_BAD_OPCODE)"

definition op_push :: "EvalContext \<Rightarrow> bytes \<Rightarrow> opcodetype \<Rightarrow> bytes list \<Rightarrow> bytes list script_result" where
  "op_push ctx vchPushValue opcode s =
     (if fRequireMinimal ctx
      then case CheckMinimalPush vchPushValue opcode of
             None \<Rightarrow> Abort
           | Some minimal \<Rightarrow> if minimal then Ok (vchPushValue # s) else Fail SCRIPT_ERR_MINIMALDATA
      else Ok (vchPushValue # s))"

definition counts_op :: "EvalContext \<Rightarrow> opcodetype \<Rightarrow> bool" where
  "counts_op ctx opcode \<longleftrightarrow> (ctx_sigversion ctx = BASE \<or> ctx_sigversion ctx = WITNESS_V0) \<and> opcode > OP_16"

definition eval_instruction ::
  "EvalContext \<Rightarrow> opcodetype \<Rightarrow> bytes \<Rightarrow> bytes \<Rightarrow> EvalState \<Rightarrow> EvalState script_result" where
  "eval_instruction ctx opcode vchPushValue pc st =
     (let fExec = all_true (st_vfExec st)
      in if fExec \<and> opcode \<le> OP_PUSHDATA4 then on_stack (op_push ctx vchPushValue opcode) st
         else if fExec \<or> (OP_IF \<le> opcode \<and> opcode \<le> OP_ENDIF) then exec_op ctx fExec opcode pc st
         else Ok st)"

text \<open>One iteration of the loop: the rest of the script and the new state.\<close>

definition eval_step :: "EvalContext \<Rightarrow> bytes \<Rightarrow> EvalState \<Rightarrow> (bytes \<times> EvalState) script_result" where
  "eval_step ctx pc st =
     (case GetScriptOp pc of
        None \<Rightarrow> Fail SCRIPT_ERR_BAD_OPCODE
      | Some ((opcode, vchPushValue), pc') \<Rightarrow>
          let st1 = (if counts_op ctx opcode then st\<lparr>st_nOpCount := st_nOpCount st + 1\<rparr> else st)
          in if length vchPushValue > MAX_SCRIPT_ELEMENT_SIZE then Fail SCRIPT_ERR_PUSH_SIZE
             else if counts_op ctx opcode \<and> st_nOpCount st1 > MAX_OPS_PER_SCRIPT then Fail SCRIPT_ERR_OP_COUNT
             else if op_disabled opcode then Fail SCRIPT_ERR_DISABLED_OPCODE
             else if opcode = OP_CODESEPARATOR \<and> ctx_sigversion ctx = BASE \<and>
                     has_flag (ctx_flags ctx) SCRIPT_VERIFY_CONST_SCRIPTCODE
             then Fail SCRIPT_ERR_OP_CODESEPARATOR
             else sbind (eval_instruction ctx opcode vchPushValue pc' st1)
                    (\<lambda>st2. if length (st_stack st2) + length (st_altstack st2) > MAX_STACK_SIZE
                          then Fail SCRIPT_ERR_STACK_SIZE
                          else Ok (pc', st2\<lparr>st_opcode_pos := st_opcode_pos st2 + 1\<rparr>)))"

lemma sbind_OkE [elim!]:
  assumes "sbind r f = Ok y"
  obtains x where "r = Ok x" "f x = Ok y"
  using assms by (cases r) auto

lemma eval_step_OkE:
  assumes "eval_step ctx pc st = Ok (pc', st')"
  obtains opcode d st1 st2 where
    "GetScriptOp pc = Some ((opcode, d), pc')" "length d \<le> MAX_SCRIPT_ELEMENT_SIZE"
    "st1 = (if counts_op ctx opcode then st\<lparr>st_nOpCount := st_nOpCount st + 1\<rparr> else st)"
    "counts_op ctx opcode \<longrightarrow> st_nOpCount st1 \<le> MAX_OPS_PER_SCRIPT" "\<not> op_disabled opcode"
    "\<not> (opcode = OP_CODESEPARATOR \<and> ctx_sigversion ctx = BASE \<and>
        has_flag (ctx_flags ctx) SCRIPT_VERIFY_CONST_SCRIPTCODE)"
    "eval_instruction ctx opcode d pc' st1 = Ok st2"
    "length (st_stack st2) + length (st_altstack st2) \<le> MAX_STACK_SIZE"
    "st' = st2\<lparr>st_opcode_pos := st_opcode_pos st2 + 1\<rparr>"
proof -
  obtain opcode d pc'' where op: "GetScriptOp pc = Some ((opcode, d), pc'')"
    using assms by (cases "GetScriptOp pc") (auto simp: eval_step_def)
  define st1 where "st1 = (if counts_op ctx opcode then st\<lparr>st_nOpCount := st_nOpCount st + 1\<rparr> else st)"
  have "pc'' = pc'" using assms unfolding eval_step_def op by (auto simp: Let_def split: if_split_asm)
  with assms op show thesis
    unfolding eval_step_def
    by (simp add: Let_def st1_def [symmetric] split: if_split_asm)
       (erule sbind_OkE, rule that [of opcode d st1], auto simp: st1_def not_less split: if_split_asm)
qed

lemma eval_step_shorter: "eval_step ctx pc st = Ok (pc', st') \<Longrightarrow> length pc' < length pc"
  by (erule eval_step_OkE) (rule GetScriptOp_shorter)

function eval_loop :: "EvalContext \<Rightarrow> bytes \<Rightarrow> EvalState \<Rightarrow> EvalState script_result" where
  "eval_loop ctx pc st =
     (if pc = [] then Ok st
      else case eval_step ctx pc st of
             Ok (pc', st') \<Rightarrow> eval_loop ctx pc' st'
           | Fail e \<Rightarrow> Fail e
           | Abort \<Rightarrow> Abort)"
  by pat_completeness auto
termination
  by (relation "measure (\<lambda>(_, pc, _). length pc)") (auto dest: eval_step_shorter)

declare eval_loop.simps [simp del]

definition eval_start :: "bytes list \<Rightarrow> CScript \<Rightarrow> ScriptExecutionData \<Rightarrow> EvalState" where
  "eval_start stack script execdata =
     \<lparr>st_stack = stack, st_altstack = [], st_vfExec = cond_new, st_nOpCount = 0, st_opcode_pos = 0,
      st_pbegincodehash = script,
      st_execdata = execdata\<lparr>m_codeseparator_pos := 0xffffffff, m_codeseparator_pos_init := True\<rparr>\<rparr>"

definition EvalScript ::
  "EvalContext \<Rightarrow> bytes list \<Rightarrow> CScript \<Rightarrow> ScriptExecutionData \<Rightarrow> (bytes list \<times> ScriptExecutionData) script_result" where
  "EvalScript ctx stack script execdata =
     (if ctx_sigversion ctx = TAPROOT then Abort
      else if (ctx_sigversion ctx = BASE \<or> ctx_sigversion ctx = WITNESS_V0) \<and> length script > MAX_SCRIPT_SIZE
      then Fail SCRIPT_ERR_SCRIPT_SIZE
      else sbind (eval_loop ctx script (eval_start stack script execdata))
             (\<lambda>st. if \<not> cond_empty (st_vfExec st) then Fail SCRIPT_ERR_UNBALANCED_CONDITIONAL
                   else Ok (st_stack st, st_execdata st)))"

section \<open>Results of steps\<close>

lemma sbind_eq_Abort [simp]: "sbind r f = Abort \<longleftrightarrow> r = Abort \<or> (\<exists>x. r = Ok x \<and> f x = Abort)"
  by (cases r) auto

lemma on_stack_OkE [elim!]:
  assumes "on_stack f st = Ok st'"
  obtains s where "f (st_stack st) = Ok s" "st' = st\<lparr>st_stack := s\<rparr>"
  using assms by (auto simp: on_stack_def)

lemma on_stack_Ok [simp]: "f (st_stack st) = Ok s \<Longrightarrow> on_stack f st = Ok (st\<lparr>st_stack := s\<rparr>)"
  by (simp add: on_stack_def)

lemma on_stack_Abort [simp]: "on_stack f st = Abort \<longleftrightarrow> f (st_stack st) = Abort"
  by (auto simp: on_stack_def)

section \<open>Fewer flags accept more\<close>

definition flags_subset :: "uint32 \<Rightarrow> uint32 \<Rightarrow> bool" where
  "flags_subset f g \<longleftrightarrow> f AND g = f"

lemma has_flag_mono: "flags_subset f g \<Longrightarrow> has_flag f x \<Longrightarrow> has_flag g x"
proof -
  assume f: "flags_subset f g" and h: "has_flag f x"
  have "f AND x = f AND (g AND x)" using f by (simp add: flags_subset_def and.assoc [symmetric])
  with h show "has_flag g x" by (auto simp: has_flag_def)
qed

lemma CheckSignatureEncoding_weaker:
  assumes "flags_subset f g" "CheckSignatureEncoding cr sig g = Ok ()"
  shows "CheckSignatureEncoding cr sig f = Ok ()"
  using assms(2) has_flag_mono [OF assms(1)]
  by (auto simp: CheckSignatureEncoding_def IsLowDERSignature_def split: if_splits)

lemma CheckPubKeyEncoding_weaker:
  assumes "flags_subset f g" "CheckPubKeyEncoding k g v = Ok ()"
  shows "CheckPubKeyEncoding k f v = Ok ()"
  using assms(2) has_flag_mono [OF assms(1)] by (auto simp: CheckPubKeyEncoding_def split: if_splits)

lemma CScriptNum_weaker: "CScriptNum v m k = Inr n \<Longrightarrow> (m' \<Longrightarrow> m) \<Longrightarrow> CScriptNum v m' k = Inr n"
  by (auto simp: CScriptNum_def split: if_splits)

lemma script_num_weaker:
  assumes "flags_subset f (ctx_flags ctx)" "script_num ctx v k = Ok n"
  shows "script_num (ctx\<lparr>ctx_flags := f\<rparr>) v k = Ok n"
proof -
  have "CScriptNum v (fRequireMinimal ctx) k = Inr n" using assms(2) by (simp add: script_num_def split: sum.splits)
  then have "CScriptNum v (fRequireMinimal (ctx\<lparr>ctx_flags := f\<rparr>)) k = Inr n"
    by (rule CScriptNum_weaker) (simp add: fRequireMinimal_def has_flag_mono [OF assms(1)])
  then show ?thesis by (simp add: script_num_def)
qed

lemma EvalChecksigPreTapscript_weaker:
  assumes "flags_subset f (ctx_flags ctx)" "EvalChecksigPreTapscript ctx sig k code = Ok r"
  shows "EvalChecksigPreTapscript (ctx\<lparr>ctx_flags := f\<rparr>) sig k code = Ok r"
  using assms(2) has_flag_mono [OF assms(1)]
  by (auto simp: EvalChecksigPreTapscript_def Let_def CheckSignatureEncoding_weaker [OF assms(1)]
        CheckPubKeyEncoding_weaker [OF assms(1)] split: if_splits prod.splits option.splits)

lemma EvalChecksig_weaker:
  assumes "flags_subset f (ctx_flags ctx)" "EvalChecksig ctx sig k code ed = Ok r"
  shows "EvalChecksig (ctx\<lparr>ctx_flags := f\<rparr>) sig k code ed = Ok r"
  using assms(2) has_flag_mono [OF assms(1)] EvalChecksigPreTapscript_weaker [OF assms(1)]
  by (auto simp: EvalChecksig_def EvalChecksigTapscript_def Let_def
        split: if_splits SigVersion.splits option.splits sum.splits)


lemma op_weaker:
  assumes "flags_subset f (ctx_flags ctx)"
  shows "op_checklocktimeverify ctx s = Ok r \<Longrightarrow> op_checklocktimeverify (ctx\<lparr>ctx_flags := f\<rparr>) s = Ok r"
    and "op_checksequenceverify ctx s = Ok r \<Longrightarrow> op_checksequenceverify (ctx\<lparr>ctx_flags := f\<rparr>) s = Ok r"
    and "op_upgradable_nop ctx s = Ok r \<Longrightarrow> op_upgradable_nop (ctx\<lparr>ctx_flags := f\<rparr>) s = Ok r"
    and "op_pick_roll ctx opcode s = Ok r \<Longrightarrow> op_pick_roll (ctx\<lparr>ctx_flags := f\<rparr>) opcode s = Ok r"
    and "op_unary ctx opcode s = Ok r \<Longrightarrow> op_unary (ctx\<lparr>ctx_flags := f\<rparr>) opcode s = Ok r"
    and "op_binary ctx opcode s = Ok r \<Longrightarrow> op_binary (ctx\<lparr>ctx_flags := f\<rparr>) opcode s = Ok r"
    and "op_within ctx s = Ok r \<Longrightarrow> op_within (ctx\<lparr>ctx_flags := f\<rparr>) s = Ok r"
    and "op_push ctx v opcode s = Ok r \<Longrightarrow> op_push (ctx\<lparr>ctx_flags := f\<rparr>) v opcode s = Ok r"
    and "op_digest (ctx\<lparr>ctx_flags := f\<rparr>) opcode s = op_digest ctx opcode s"
  using has_flag_mono [OF assms] script_num_weaker [OF assms]
  by (auto simp: op_checklocktimeverify_def op_checksequenceverify_def op_upgradable_nop_def op_pick_roll_def
      op_unary_def op_binary_def op_within_def op_push_def op_digest_def fRequireMinimal_def Let_def
      split: if_splits list.splits option.splits)

lemma state_op_weaker:
  assumes "flags_subset f (ctx_flags ctx)"
  shows "op_if ctx e opcode st = Ok r \<Longrightarrow> op_if (ctx\<lparr>ctx_flags := f\<rparr>) e opcode st = Ok r"
    and "op_checksig ctx opcode st = Ok r \<Longrightarrow> op_checksig (ctx\<lparr>ctx_flags := f\<rparr>) opcode st = Ok r"
    and "op_checksigadd ctx st = Ok r \<Longrightarrow> op_checksigadd (ctx\<lparr>ctx_flags := f\<rparr>) st = Ok r"
proof -
  show "op_if ctx e opcode st = Ok r \<Longrightarrow> op_if (ctx\<lparr>ctx_flags := f\<rparr>) e opcode st = Ok r"
    using has_flag_mono [OF assms] by (auto simp: op_if_def Let_def split: if_splits list.splits)
  show "op_checksig ctx opcode st = Ok r \<Longrightarrow> op_checksig (ctx\<lparr>ctx_flags := f\<rparr>) opcode st = Ok r"
    by (auto simp: op_checksig_def split: list.splits dest!: EvalChecksig_weaker [OF assms])
  show "op_checksigadd ctx st = Ok r \<Longrightarrow> op_checksigadd (ctx\<lparr>ctx_flags := f\<rparr>) st = Ok r"
    by (auto simp: op_checksigadd_def split: if_splits list.splits
        dest!: EvalChecksig_weaker [OF assms] script_num_weaker [OF assms])
qed

lemma multisig_script_code_weaker:
  assumes "flags_subset f (ctx_flags ctx)"
  shows "multisig_script_code ctx sigs c = Ok r \<Longrightarrow> multisig_script_code (ctx\<lparr>ctx_flags := f\<rparr>) sigs c = Ok r"
  using has_flag_mono [OF assms] by (induction sigs arbitrary: c) (auto split: if_splits prod.splits)

lemma multisig_loop_weaker:
  assumes "flags_subset f (ctx_flags ctx)"
  shows "multisig_loop ctx c sigs ks = Ok r \<Longrightarrow> multisig_loop (ctx\<lparr>ctx_flags := f\<rparr>) c sigs ks = Ok r"
proof (induction ks arbitrary: sigs)
  case Nil
  then show ?case by (cases sigs) auto
next
  case (Cons k ks)
  show ?case
  proof (cases sigs)
    case (Cons sig sigs')
    with Cons.prems show ?thesis
      by (auto simp: Let_def CheckSignatureEncoding_weaker [OF assms] CheckPubKeyEncoding_weaker [OF assms]
          split: option.splits if_splits intro: Cons.IH)
  qed (use Cons.prems in auto)
qed

lemma multisig_cleanup_weaker:
  "multisig_cleanup b n i s = Ok r \<Longrightarrow> (b' \<Longrightarrow> b) \<Longrightarrow> multisig_cleanup b' n i s = Ok r"
  by (induction n arbitrary: i s) (auto split: list.splits if_splits)

lemma multisig_finish_weaker:
  assumes "flags_subset f (ctx_flags ctx)"
  shows "multisig_finish ctx opcode b s = Ok r \<Longrightarrow> multisig_finish (ctx\<lparr>ctx_flags := f\<rparr>) opcode b s = Ok r"
  using has_flag_mono [OF assms] by (auto simp: multisig_finish_def split: list.splits if_splits)


lemma op_checkmultisig_weaker:
  assumes "flags_subset f (ctx_flags ctx)" "op_checkmultisig ctx opcode st = Ok r"
  shows "op_checkmultisig (ctx\<lparr>ctx_flags := f\<rparr>) opcode st = Ok r"
proof -
  have clean: "multisig_cleanup (\<not> b \<and> has_flag f x) n i s = Ok y"
    if "multisig_cleanup (\<not> b \<and> has_flag (ctx_flags ctx) x) n i s = Ok y" for b x n i s y
    using that by (rule multisig_cleanup_weaker) (use has_flag_mono [OF assms(1)] in auto)
  show ?thesis
    using assms(2)
    by (auto simp: op_checkmultisig_def Let_def script_num_weaker [OF assms(1)]
        multisig_script_code_weaker [OF assms(1)] multisig_loop_weaker [OF assms(1)] clean
        multisig_finish_weaker [OF assms(1)] simp del: multisig_cleanup.simps split: if_splits)
qed

text \<open>
  A relation between the results of the opcodes in two contexts carries over to the \<open>switch\<close>.
\<close>

lemma if_rel: "(c \<Longrightarrow> Q a a') \<Longrightarrow> (\<not> c \<Longrightarrow> Q b b') \<Longrightarrow> Q (if c then a else b) (if c then a' else b')"
  by simp

lemma exec_op_rel:
  assumes stack:
      "Q (on_stack (op_push_number opcode) st) (on_stack (op_push_number opcode) st)"
      "Q (on_stack (op_checklocktimeverify ctx) st) (on_stack (op_checklocktimeverify ctx') st)"
      "Q (on_stack (op_checksequenceverify ctx) st) (on_stack (op_checksequenceverify ctx') st)"
      "Q (on_stack (op_upgradable_nop ctx) st) (on_stack (op_upgradable_nop ctx') st)"
      "Q (on_stack op_verify st) (on_stack op_verify st)"
      "Q (on_stack (op_pairs opcode) st) (on_stack (op_pairs opcode) st)"
      "Q (on_stack (op_single opcode) st) (on_stack (op_single opcode) st)"
      "Q (on_stack (op_pick_roll ctx opcode) st) (on_stack (op_pick_roll ctx' opcode) st)"
      "Q (on_stack (op_rot opcode) st) (on_stack (op_rot opcode) st)"
      "Q (on_stack (op_equal opcode) st) (on_stack (op_equal opcode) st)"
      "Q (on_stack (op_unary ctx opcode) st) (on_stack (op_unary ctx' opcode) st)"
      "Q (on_stack (op_binary ctx opcode) st) (on_stack (op_binary ctx' opcode) st)"
      "Q (on_stack (op_within ctx) st) (on_stack (op_within ctx') st)"
      "Q (on_stack (op_digest ctx opcode) st) (on_stack (op_digest ctx' opcode) st)"
    and state:
      "Q (Ok st) (Ok st)" "\<And>err. Q (Fail err) (Fail err)"
      "Q (op_if ctx e opcode st) (op_if ctx' e opcode st)"
      "Q (op_else st) (op_else st)" "Q (op_endif st) (op_endif st)"
      "Q (op_toaltstack st) (op_toaltstack st)" "Q (op_fromaltstack st) (op_fromaltstack st)"
      "Q (op_codeseparator pc st) (op_codeseparator pc st)"
      "Q (op_checksig ctx opcode st) (op_checksig ctx' opcode st)"
      "Q (op_checksigadd ctx st) (op_checksigadd ctx' st)"
      "Q (op_checkmultisig ctx opcode st) (op_checkmultisig ctx' opcode st)"
  shows "Q (exec_op ctx e opcode pc st) (exec_op ctx' e opcode pc st)"
  unfolding exec_op_def by (intro if_rel [where Q = Q] stack state)

lemma exec_op_weaker:
  assumes "flags_subset f (ctx_flags ctx)" "exec_op ctx e opcode pc st = Ok r"
  shows "exec_op (ctx\<lparr>ctx_flags := f\<rparr>) e opcode pc st = Ok r"
proof -
  let ?ctx' = "ctx\<lparr>ctx_flags := f\<rparr>"
  have "exec_op ctx e opcode pc st = Ok r \<longrightarrow> exec_op ?ctx' e opcode pc st = Ok r"
    by (rule exec_op_rel [where Q = "\<lambda>x y. x = Ok r \<longrightarrow> y = Ok r"])
       (auto simp: op_weaker [OF assms(1)] state_op_weaker [OF assms(1)] op_checkmultisig_weaker [OF assms(1)])
  with assms(2) show ?thesis by simp
qed

lemma eval_instruction_weaker:
  assumes "flags_subset f (ctx_flags ctx)" "eval_instruction ctx opcode d pc st = Ok r"
  shows "eval_instruction (ctx\<lparr>ctx_flags := f\<rparr>) opcode d pc st = Ok r"
  using assms(2) unfolding eval_instruction_def Let_def
  by (auto simp: op_weaker [OF assms(1)] intro: exec_op_weaker [OF assms(1)] split: if_split_asm)

lemma eval_step_weaker:
  assumes "flags_subset f (ctx_flags ctx)" "eval_step ctx pc st = Ok (pc', st')"
  shows "eval_step (ctx\<lparr>ctx_flags := f\<rparr>) pc st = Ok (pc', st')"
  using assms(2)
proof (rule eval_step_OkE)
  fix opcode d st1 st2
  assume a: "GetScriptOp pc = Some ((opcode, d), pc')" "length d \<le> MAX_SCRIPT_ELEMENT_SIZE"
    "st1 = (if counts_op ctx opcode then st\<lparr>st_nOpCount := st_nOpCount st + 1\<rparr> else st)"
    "counts_op ctx opcode \<longrightarrow> st_nOpCount st1 \<le> MAX_OPS_PER_SCRIPT" "\<not> op_disabled opcode"
    "\<not> (opcode = OP_CODESEPARATOR \<and> ctx_sigversion ctx = BASE \<and>
        has_flag (ctx_flags ctx) SCRIPT_VERIFY_CONST_SCRIPTCODE)"
    "eval_instruction ctx opcode d pc' st1 = Ok st2"
    "length (st_stack st2) + length (st_altstack st2) \<le> MAX_STACK_SIZE"
    "st' = st2\<lparr>st_opcode_pos := st_opcode_pos st2 + 1\<rparr>"
  have "counts_op (ctx\<lparr>ctx_flags := f\<rparr>) opcode = counts_op ctx opcode" by (simp add: counts_op_def)
  moreover have "\<not> (opcode = OP_CODESEPARATOR \<and> ctx_sigversion ctx = BASE \<and> has_flag f SCRIPT_VERIFY_CONST_SCRIPTCODE)"
    using a(6) has_flag_mono [OF assms(1)] by blast
  ultimately show ?thesis
    using a eval_instruction_weaker [OF assms(1) a(7)] by (auto simp: eval_step_def Let_def)
qed

lemma eval_loop_weaker:
  assumes "flags_subset f (ctx_flags ctx)"
  shows "eval_loop ctx pc st = Ok r \<Longrightarrow> eval_loop (ctx\<lparr>ctx_flags := f\<rparr>) pc st = Ok r"
proof (induction pc arbitrary: st rule: length_induct)
  case (1 pc)
  show ?case
  proof (cases "pc = []")
    case False
    with "1.prems" obtain pc' st' where step: "eval_step ctx pc st = Ok (pc', st')" and rest: "eval_loop ctx pc' st' = Ok r"
      by (subst (asm) eval_loop.simps) (auto split: script_result.splits)
    from "1.IH" eval_step_shorter [OF step] rest have "eval_loop (ctx\<lparr>ctx_flags := f\<rparr>) pc' st' = Ok r" by blast
    with False eval_step_weaker [OF assms step] show ?thesis by (simp add: eval_loop.simps [of _ pc])
  qed (use "1.prems" in \<open>simp add: eval_loop.simps\<close>)
qed

lemma EvalScript_weaker:
  assumes "flags_subset f (ctx_flags ctx)" "EvalScript ctx s script ed = Ok r"
  shows "EvalScript (ctx\<lparr>ctx_flags := f\<rparr>) s script ed = Ok r"
  using assms(2) eval_loop_weaker [OF assms(1)] by (auto simp: EvalScript_def split: if_splits)

section \<open>The interpreter does not abort\<close>

lemma set_vch_bound:
  assumes "length v \<le> k" "1 \<le> k" "k \<le> 8"
  shows "\<bar>set_vch v\<bar> < 2 ^ (8 * k - 1)"
proof (cases "v = []")
  case False
  have "\<bar>set_vch v\<bar> = int (vch_magnitude v)"
    using set_vch_value [OF False] assms by simp
  also have "\<dots> < 2 ^ (8 * length v - 1)"
    using vch_magnitude_less [OF False] by (metis of_nat_less_iff of_nat_numeral of_nat_power)
  also have "\<dots> \<le> 2 ^ (8 * k - 1)" by (rule power_increasing) (use assms in auto)
  finally show ?thesis .
qed (simp add: set_vch_def)

lemma script_num_bound:
  assumes "script_num ctx v nDefaultMaxNumSize = Ok n"
  shows "\<bar>n\<bar> < 2147483648"
proof -
  have "length v \<le> 4" "n = set_vch v"
    using assms by (auto simp: script_num_def CScriptNum_def nDefaultMaxNumSize_def split: sum.splits if_splits)
  with set_vch_bound [of v 4] show ?thesis by simp
qed

lemma script_num_no_Abort [simp]: "script_num ctx v k \<noteq> Abort"
  by (auto simp: script_num_def split: sum.splits)

lemma num_result_Abort [simp]: "num_result n = Abort \<longleftrightarrow> \<not> is_int64 n"
  by (simp add: num_result_def)

lemma stack_op_no_Abort:
  "op_push_number opcode s \<noteq> Abort" "op_checklocktimeverify ctx s \<noteq> Abort" "op_checksequenceverify ctx s \<noteq> Abort"
  "op_upgradable_nop ctx s \<noteq> Abort" "op_verify s \<noteq> Abort" "op_pairs opcode s \<noteq> Abort" "op_single opcode s \<noteq> Abort"
  "op_pick_roll ctx opcode s \<noteq> Abort" "op_rot opcode s \<noteq> Abort" "op_equal opcode s \<noteq> Abort"
  "op_within ctx s \<noteq> Abort" "op_digest ctx opcode s \<noteq> Abort"
  "opcode \<le> OP_PUSHDATA4 \<Longrightarrow> op_push ctx v opcode s \<noteq> Abort"
  by (auto simp: op_push_number_def op_checklocktimeverify_def op_checksequenceverify_def op_upgradable_nop_def
      op_verify_def op_pairs_def op_single_def op_pick_roll_def op_rot_def op_equal_def op_within_def op_digest_def
      op_push_def CheckMinimalPush_def Let_def split: list.splits if_splits option.splits)

lemma num_op_no_Abort: "op_unary ctx opcode s \<noteq> Abort" "op_binary ctx opcode s \<noteq> Abort"
  by (auto simp: op_unary_def op_binary_def binary_num_def Let_def is_int64_def
      split: list.splits if_splits dest!: script_num_bound)


text \<open>
  The data a Schnorr check asserts to be present, and a checker that does not abort on it and keeps it.
\<close>

definition tap_ready :: "ScriptExecutionData \<Rightarrow> bool" where
  "tap_ready ed \<longleftrightarrow>
     m_validation_weight_left_init ed \<and> m_annex_init ed \<and> m_tapleaf_hash_init ed \<and> m_codeseparator_pos_init ed"

definition checker_safe :: "EvalContext \<Rightarrow> bool" where
  "checker_safe ctx \<longleftrightarrow>
     (if ctx_sigversion ctx = TAPSCRIPT
      then \<forall>sig k ed. length k = 32 \<longrightarrow> tap_ready ed \<longrightarrow>
             CheckSchnorrSignature (ctx_checker ctx) sig k TAPSCRIPT ed \<noteq> None \<and>
             (\<forall>ed'. CheckSchnorrSignature (ctx_checker ctx) sig k TAPSCRIPT ed = Some (Inr ed') \<longrightarrow> tap_ready ed')
      else \<forall>sig k c. CheckECDSASignature (ctx_checker ctx) sig k c (ctx_sigversion ctx) \<noteq> None)"

lemma checker_safe_ECDSA:
  "checker_safe ctx \<Longrightarrow> ctx_sigversion ctx \<noteq> TAPSCRIPT \<Longrightarrow>
   CheckECDSASignature (ctx_checker ctx) sig k c (ctx_sigversion ctx) \<noteq> None"
  by (simp add: checker_safe_def)

lemma checker_safe_Schnorr:
  assumes "checker_safe ctx" "ctx_sigversion ctx = TAPSCRIPT" "length k = 32" "tap_ready ed"
  shows "CheckSchnorrSignature (ctx_checker ctx) sig k TAPSCRIPT ed \<noteq> None"
    and "CheckSchnorrSignature (ctx_checker ctx) sig k TAPSCRIPT ed = Some (Inr ed') \<Longrightarrow> tap_ready ed'"
proof -
  have "\<forall>sig k ed. length k = 32 \<longrightarrow> tap_ready ed \<longrightarrow>
      CheckSchnorrSignature (ctx_checker ctx) sig k TAPSCRIPT ed \<noteq> None \<and>
      (\<forall>ed'. CheckSchnorrSignature (ctx_checker ctx) sig k TAPSCRIPT ed = Some (Inr ed') \<longrightarrow> tap_ready ed')"
    using assms(1,2) unfolding checker_safe_def by (simp only: if_True simp_thms)
  with assms(3,4) show "CheckSchnorrSignature (ctx_checker ctx) sig k TAPSCRIPT ed \<noteq> None"
    and "CheckSchnorrSignature (ctx_checker ctx) sig k TAPSCRIPT ed = Some (Inr ed') \<Longrightarrow> tap_ready ed'" by blast+
qed

lemma encoding_no_Abort [simp]: "CheckSignatureEncoding cr sig f \<noteq> Abort" "CheckPubKeyEncoding k f v \<noteq> Abort"
  by (auto simp: CheckSignatureEncoding_def CheckPubKeyEncoding_def IsLowDERSignature_def split: if_splits)

definition tap_inv :: "EvalContext \<Rightarrow> ScriptExecutionData \<Rightarrow> bool" where
  "tap_inv ctx ed \<longleftrightarrow> ctx_sigversion ctx \<noteq> TAPROOT \<and> (ctx_sigversion ctx = TAPSCRIPT \<longrightarrow> tap_ready ed)"

lemma EvalChecksig_safe:
  assumes "checker_safe ctx" "tap_inv ctx ed"
  shows "EvalChecksig ctx sig k code ed \<noteq> Abort"
    and "EvalChecksig ctx sig k code ed = Ok (b, ed') \<Longrightarrow> tap_inv ctx ed'"
proof -
  have pre: "EvalChecksigPreTapscript ctx sig k code \<noteq> Abort"
    if "ctx_sigversion ctx = BASE \<or> ctx_sigversion ctx = WITNESS_V0"
  proof -
    have "ctx_sigversion ctx \<noteq> TAPSCRIPT" using that by auto
    then have "\<forall>c. \<exists>b. CheckECDSASignature (ctx_checker ctx) sig k c (ctx_sigversion ctx) = Some b"
      using checker_safe_ECDSA [OF assms(1)] by blast
    then obtain f where f: "\<And>c. CheckECDSASignature (ctx_checker ctx) sig k c (ctx_sigversion ctx) = Some (f c)" by metis
    obtain found c where c: "(if ctx_sigversion ctx = BASE then FindAndDelete code (push_data sig) else (0, code)) = (found, c)"
      by (cases "if ctx_sigversion ctx = BASE then FindAndDelete code (push_data sig) else (0, code)")
    show ?thesis
      unfolding EvalChecksigPreTapscript_def c Let_def prod.case f option.case using that by auto
  qed
  have tap: "EvalChecksigTapscript ctx sig k ed \<noteq> Abort \<and>
      (EvalChecksigTapscript ctx sig k ed = Ok (b, ed') \<longrightarrow> tap_ready ed')"
    if v: "ctx_sigversion ctx = TAPSCRIPT"
  proof -
    have ready: "tap_ready ed" using assms(2) v by (simp add: tap_inv_def)
    then have ready': "tap_ready (ed\<lparr>m_validation_weight_left := w\<rparr>)" for w by (simp add: tap_ready_def)
    have "m_validation_weight_left_init ed" using ready by (simp add: tap_ready_def)
    with ready ready' v show ?thesis
      by (auto simp: EvalChecksigTapscript_def Let_def checker_safe_Schnorr(1) [OF assms(1) v]
          dest: checker_safe_Schnorr(2) [OF assms(1) v _ ready'] split: if_splits option.splits sum.splits)
  qed
  show "EvalChecksig ctx sig k code ed \<noteq> Abort"
    using assms(2) pre tap by (auto simp: EvalChecksig_def tap_inv_def split: SigVersion.splits)
  show "EvalChecksig ctx sig k code ed = Ok (b, ed') \<Longrightarrow> tap_inv ctx ed'"
    using assms(2) tap by (auto simp: EvalChecksig_def tap_inv_def split: SigVersion.splits)
qed

lemma multisig_no_Abort:
  shows "multisig_script_code ctx sigs c \<noteq> Abort"
    and "checker_safe ctx \<Longrightarrow> ctx_sigversion ctx \<noteq> TAPSCRIPT \<Longrightarrow> multisig_loop ctx c sigs ks \<noteq> Abort"
    and "multisig_cleanup b n i s \<noteq> Abort" and "multisig_finish ctx opcode ok s \<noteq> Abort"
proof -
  show "multisig_script_code ctx sigs c \<noteq> Abort"
    by (induction sigs arbitrary: c) (auto split: prod.splits if_splits)
  show "multisig_cleanup b n i s \<noteq> Abort"
    by (induction n arbitrary: i s) (auto split: list.splits)
  show "multisig_finish ctx opcode ok s \<noteq> Abort"
    by (auto simp: multisig_finish_def split: list.splits if_splits)
  show "multisig_loop ctx c sigs ks \<noteq> Abort" if safe: "checker_safe ctx" "ctx_sigversion ctx \<noteq> TAPSCRIPT"
  proof (induction ks arbitrary: sigs)
    case Nil
    then show ?case by (cases sigs) auto
  next
    case (Cons k ks)
    show ?case
      by (cases sigs) (use Cons in \<open>auto simp: Let_def checker_safe_ECDSA [OF safe] split: option.splits\<close>)
  qed
qed

text \<open>What a step keeps: it does not abort, and the execution data stay ready.\<close>

definition safe_result :: "EvalContext \<Rightarrow> EvalState script_result \<Rightarrow> bool" where
  "safe_result ctx r \<longleftrightarrow> r \<noteq> Abort \<and> (\<forall>st. r = Ok st \<longrightarrow> tap_inv ctx (st_execdata st))"

lemma on_stack_safe:
  "tap_inv ctx (st_execdata st) \<Longrightarrow> f (st_stack st) \<noteq> Abort \<Longrightarrow> safe_result ctx (on_stack f st)"
  by (auto simp: safe_result_def)

lemma state_op_safe:
  assumes "checker_safe ctx" "tap_inv ctx (st_execdata st)"
  shows "safe_result ctx (op_if ctx e opcode st)" "safe_result ctx (op_else st)" "safe_result ctx (op_endif st)"
    "safe_result ctx (op_toaltstack st)" "safe_result ctx (op_fromaltstack st)" "safe_result ctx (op_codeseparator pc st)"
  using assms(2)
  by (auto simp: safe_result_def op_if_def op_else_def op_endif_def op_toaltstack_def op_fromaltstack_def
      op_codeseparator_def cond_toggle_top_def cond_pop_back_def cond_empty_def word_gt_0 tap_inv_def tap_ready_def Let_def
      split: if_splits list.splits)

lemma op_checksig_safe:
  assumes "checker_safe ctx" "tap_inv ctx (st_execdata st)"
  shows "safe_result ctx (op_checksig ctx opcode st)" "safe_result ctx (op_checksigadd ctx st)"
proof -
  note c = EvalChecksig_safe [OF assms]
  show "safe_result ctx (op_checksig ctx opcode st)"
    using c by (auto simp: safe_result_def op_checksig_def split: list.splits if_splits)
  show "safe_result ctx (op_checksigadd ctx st)"
    using c by (auto simp: safe_result_def op_checksigadd_def is_int64_def split: list.splits if_splits dest!: script_num_bound)
qed

lemma op_checkmultisig_safe:
  assumes "checker_safe ctx" "tap_inv ctx (st_execdata st)"
  shows "safe_result ctx (op_checkmultisig ctx opcode st)"
  using assms(2)
  by (auto simp: safe_result_def op_checkmultisig_def Let_def multisig_no_Abort assms(1) simp del: multisig_cleanup.simps split: if_splits)

lemma eval_step_safe:
  assumes "checker_safe ctx" "tap_inv ctx (st_execdata st)"
  shows "eval_step ctx pc st \<noteq> Abort"
    and "eval_step ctx pc st = Ok (pc', st') \<Longrightarrow> tap_inv ctx (st_execdata st')"
proof -
  have op: "safe_result ctx (exec_op ctx e opcode pc st)"
    if "tap_inv ctx (st_execdata st)" for e opcode pc st
    by (rule exec_op_rel [where Q = "\<lambda>x y. safe_result ctx x" and ctx' = ctx])
       (auto intro: that on_stack_safe state_op_safe [OF assms(1)] op_checksig_safe [OF assms(1)]
          op_checkmultisig_safe [OF assms(1)] simp: stack_op_no_Abort num_op_no_Abort safe_result_def [of _ "Ok _"]
          safe_result_def [of _ "Fail _"])
  have ins: "safe_result ctx (eval_instruction ctx opcode d pc st)"
    if "tap_inv ctx (st_execdata st)" for opcode d pc st
    using op [OF that] that unfolding eval_instruction_def Let_def
    by (auto intro!: on_stack_safe simp: stack_op_no_Abort safe_result_def [of _ "Ok _"])
  show "eval_step ctx pc st \<noteq> Abort"
    using ins assms(2) by (auto simp: eval_step_def Let_def safe_result_def split: option.splits)
  show "tap_inv ctx (st_execdata st')" if "eval_step ctx pc st = Ok (pc', st')"
    using that
  proof (rule eval_step_OkE)
    fix opcode d st1 st2
    assume "st1 = (if counts_op ctx opcode then st\<lparr>st_nOpCount := st_nOpCount st + 1\<rparr> else st)"
      "eval_instruction ctx opcode d pc' st1 = Ok st2" "st' = st2\<lparr>st_opcode_pos := st_opcode_pos st2 + 1\<rparr>"
    with ins [of st1 opcode d pc'] assms(2) show ?thesis by (auto simp: safe_result_def split: if_splits)
  qed
qed

lemma eval_loop_safe:
  assumes "checker_safe ctx"
  shows "tap_inv ctx (st_execdata st) \<Longrightarrow> safe_result ctx (eval_loop ctx pc st)"
proof (induction pc arbitrary: st rule: length_induct)
  case (1 pc)
  show ?case
  proof (cases "pc = []")
    case True
    with "1.prems" show ?thesis by (simp add: eval_loop.simps safe_result_def)
  next
    case False
    show ?thesis
    proof (cases "eval_step ctx pc st")
      case (Ok x)
      obtain pc' st' where x: "x = (pc', st')" by (cases x)
      have "safe_result ctx (eval_loop ctx pc' st')"
        using "1.IH" eval_step_shorter eval_step_safe(2) [OF assms "1.prems"] Ok x by blast
      with False Ok x show ?thesis by (simp add: eval_loop.simps [of _ pc])
    qed (use False eval_step_safe(1) [OF assms "1.prems"] in \<open>auto simp: eval_loop.simps [of _ pc] safe_result_def\<close>)
  qed
qed

section \<open>Limits\<close>

lemma serialize_loop_length: "unat w < 256 ^ k \<Longrightarrow> length (serialize_loop w) \<le> k"
proof (induction k arbitrary: w)
  case 0
  then have "w = 0" by (simp add: unat_eq_zero)
  then show ?case by (simp add: serialize_loop.simps)
next
  case (Suc k)
  have "unat (drop_bit 8 w) = unat w div 256" by (simp only: unat_drop_bit_eq) (simp add: drop_bit_eq_div)
  then have "unat (drop_bit 8 w) < 256 ^ k" using Suc.prems by (simp add: less_mult_imp_div_less mult.commute)
  from Suc.IH [OF this] show ?case by (subst serialize_loop.simps) simp
qed

lemma scriptnum_serialize_length: "length (scriptnum_serialize n) \<le> 9"
proof -
  have "length (serialize_loop w) \<le> 8" "length (serialize_loop w) \<le> 9" for w
    using serialize_loop_length [of w 8] unat64_less [of w] by simp_all
  then show ?thesis
    by (auto simp: scriptnum_serialize_def Let_def intro: le_trans [OF diff_le_self])
qed

definition small_items :: "bytes list \<Rightarrow> bool" where
  "small_items s \<longleftrightarrow> (\<forall>v \<in> set s. length v \<le> MAX_SCRIPT_ELEMENT_SIZE)"

definition hash_sizes :: "Crypto \<Rightarrow> bool" where
  "hash_sizes cr \<longleftrightarrow> (\<forall>v. length (RIPEMD160 cr v) = 20 \<and> length (SHA1 cr v) = 20 \<and> length (SHA256 cr v) = 32)"

lemma small_items_simps [simp]:
  "small_items []" "small_items (v # s) \<longleftrightarrow> length v \<le> MAX_SCRIPT_ELEMENT_SIZE \<and> small_items s"
  by (auto simp: small_items_def)

lemma small_number [simp]: "length (scriptnum_serialize n) \<le> MAX_SCRIPT_ELEMENT_SIZE"
  using scriptnum_serialize_length [of n] by (simp add: MAX_SCRIPT_ELEMENT_SIZE_def)

lemma small_vch_bool [simp]: "length (vch_bool b) \<le> MAX_SCRIPT_ELEMENT_SIZE"
  by (simp add: vch_bool_def vchTrue_def vchFalse_def MAX_SCRIPT_ELEMENT_SIZE_def)

lemma small_hash:
  assumes "hash_sizes cr"
  shows "length (RIPEMD160 cr v) \<le> MAX_SCRIPT_ELEMENT_SIZE" "length (SHA1 cr v) \<le> MAX_SCRIPT_ELEMENT_SIZE"
    "length (SHA256 cr v) \<le> MAX_SCRIPT_ELEMENT_SIZE" "length (CHash160 cr v) \<le> MAX_SCRIPT_ELEMENT_SIZE"
    "length (CHash256 cr v) \<le> MAX_SCRIPT_ELEMENT_SIZE"
  using assms by (auto simp: hash_sizes_def CHash160_def CHash256_def MAX_SCRIPT_ELEMENT_SIZE_def)

lemma stack_op_small:
  assumes "small_items s"
  shows "op_push_number opcode s = Ok r \<Longrightarrow> small_items r" "op_checklocktimeverify ctx s = Ok r \<Longrightarrow> small_items r"
    "op_checksequenceverify ctx s = Ok r \<Longrightarrow> small_items r" "op_upgradable_nop ctx s = Ok r \<Longrightarrow> small_items r"
    "op_verify s = Ok r \<Longrightarrow> small_items r" "op_pairs opcode s = Ok r \<Longrightarrow> small_items r"
    "op_single opcode s = Ok r \<Longrightarrow> small_items r" "op_rot opcode s = Ok r \<Longrightarrow> small_items r"
    "op_equal opcode s = Ok r \<Longrightarrow> small_items r" "op_unary ctx opcode s = Ok r \<Longrightarrow> small_items r"
    "op_binary ctx opcode s = Ok r \<Longrightarrow> small_items r" "op_within ctx s = Ok r \<Longrightarrow> small_items r"
    "op_push ctx v opcode s = Ok r \<Longrightarrow> length v \<le> MAX_SCRIPT_ELEMENT_SIZE \<Longrightarrow> small_items r"
    "op_digest ctx opcode s = Ok r \<Longrightarrow> hash_sizes (ctx_crypto ctx) \<Longrightarrow> small_items r"
  using assms
  by (auto simp: op_push_number_def op_checklocktimeverify_def op_checksequenceverify_def op_upgradable_nop_def
      op_verify_def op_pairs_def op_single_def op_rot_def op_equal_def op_unary_def op_binary_def op_within_def
      op_push_def op_digest_def small_hash Let_def split: list.splits if_splits option.splits)

lemma op_pick_roll_small: "small_items s \<Longrightarrow> op_pick_roll ctx opcode s = Ok r \<Longrightarrow> small_items r"
  by (cases s)
     (auto simp: op_pick_roll_def small_items_def Let_def split: if_splits dest!: in_set_takeD in_set_dropD)


text \<open>The limits that hold between two iterations of the loop.\<close>

definition items_ok :: "EvalState \<Rightarrow> bool" where
  "items_ok st \<longleftrightarrow>
     small_items (st_stack st) \<and> small_items (st_altstack st) \<and> st_nOpCount st \<le> MAX_OPS_PER_SCRIPT"

definition within_limits :: "EvalState \<Rightarrow> bool" where
  "within_limits st \<longleftrightarrow>
     items_ok st \<and> length (st_stack st) + length (st_altstack st) \<le> MAX_STACK_SIZE"

lemma items_ok_stack: "items_ok st \<Longrightarrow> items_ok (st\<lparr>st_stack := s\<rparr>) \<longleftrightarrow> small_items s"
  by (auto simp: items_ok_def)

lemma state_op_items_ok:
  assumes "items_ok st"
  shows "op_if ctx e opcode st = Ok st' \<Longrightarrow> items_ok st'" "op_else st = Ok st' \<Longrightarrow> items_ok st'"
    "op_endif st = Ok st' \<Longrightarrow> items_ok st'" "op_toaltstack st = Ok st' \<Longrightarrow> items_ok st'"
    "op_fromaltstack st = Ok st' \<Longrightarrow> items_ok st'" "op_codeseparator pc st = Ok st' \<Longrightarrow> items_ok st'"
    "op_checksig ctx opcode st = Ok st' \<Longrightarrow> items_ok st'" "op_checksigadd ctx st = Ok st' \<Longrightarrow> items_ok st'"
  using assms
  by (auto simp: items_ok_def op_if_def op_else_def op_endif_def op_toaltstack_def op_fromaltstack_def
      op_codeseparator_def op_checksig_def op_checksigadd_def Let_def split: if_splits list.splits)

lemma multisig_cleanup_Ok: "multisig_cleanup b n i s = Ok r \<Longrightarrow> n \<le> length s \<and> r = drop n s"
  by (induction n arbitrary: i s) (auto split: list.splits if_splits)

lemma op_checkmultisig_items_ok:
  assumes "items_ok st" "op_checkmultisig ctx opcode st = Ok st'"
  shows "items_ok st'"
proof -
  have drop: "small_items (drop n s)" if "small_items s" for n s
    using that by (auto simp: small_items_def dest: in_set_dropD)
  have fin: "small_items r" if "multisig_finish ctx opcode b s = Ok r" "small_items s" for b s r
    using that by (auto simp: multisig_finish_def split: list.splits if_splits)
  show ?thesis
    using assms
    by (auto simp: op_checkmultisig_def items_ok_def Let_def drop simp del: multisig_cleanup.simps split: if_splits
        dest!: multisig_cleanup_Ok fin)
qed

lemma eval_step_limits:
  assumes "hash_sizes (ctx_crypto ctx)" "within_limits st" "eval_step ctx pc st = Ok (pc', st')"
  shows "within_limits st'"
  using assms(3)
proof (rule eval_step_OkE)
  fix opcode d st1 st2
  assume a: "length d \<le> MAX_SCRIPT_ELEMENT_SIZE"
    "st1 = (if counts_op ctx opcode then st\<lparr>st_nOpCount := st_nOpCount st + 1\<rparr> else st)"
    "counts_op ctx opcode \<longrightarrow> st_nOpCount st1 \<le> MAX_OPS_PER_SCRIPT"
    "eval_instruction ctx opcode d pc' st1 = Ok st2"
    "length (st_stack st2) + length (st_altstack st2) \<le> MAX_STACK_SIZE"
    "st' = st2\<lparr>st_opcode_pos := st_opcode_pos st2 + 1\<rparr>"
  have st1: "items_ok st1" using assms(2) a(2,3) by (auto simp: within_limits_def items_ok_def split: if_splits)
  have stack: "small_items (st_stack st1)" using st1 by (simp add: items_ok_def)
  have op: "exec_op ctx e opcode pc' st1 = Ok st2 \<longrightarrow> items_ok st2" for e
    by (rule exec_op_rel [where Q = "\<lambda>x y. x = Ok st2 \<longrightarrow> items_ok st2" and ctx' = ctx])
       (use st1 assms(1) in \<open>auto simp: items_ok_stack dest: stack_op_small [OF stack] op_pick_roll_small [OF stack]
          state_op_items_ok op_checkmultisig_items_ok\<close>)
  have "items_ok st2"
    using a(4) op st1 unfolding eval_instruction_def Let_def
    by (auto simp: items_ok_stack dest: stack_op_small(13) [OF stack _ a(1)] split: if_split_asm)
  with a(5,6) show ?thesis by (simp add: within_limits_def items_ok_def)
qed

text \<open>The positions and states a run passes through.\<close>

inductive eval_reach :: "EvalContext \<Rightarrow> bytes \<times> EvalState \<Rightarrow> bytes \<times> EvalState \<Rightarrow> bool" for ctx where
  start: "eval_reach ctx x x"
| step: "eval_reach ctx x (pc, st) \<Longrightarrow> pc \<noteq> [] \<Longrightarrow> eval_step ctx pc st = Ok (pc', st') \<Longrightarrow> eval_reach ctx x (pc', st')"

lemma eval_loop_reach: "eval_loop ctx pc st = Ok st' \<Longrightarrow> eval_reach ctx x (pc, st) \<Longrightarrow> eval_reach ctx x ([], st')"
proof (induction pc arbitrary: st rule: length_induct)
  case (1 pc)
  show ?case
  proof (cases "pc = []")
    case True
    with "1.prems" show ?thesis by (simp add: eval_loop.simps)
  next
    case False
    with "1.prems"(1) obtain pc1 st1 where s: "eval_step ctx pc st = Ok (pc1, st1)" "eval_loop ctx pc1 st1 = Ok st'"
      by (subst (asm) eval_loop.simps) (auto split: script_result.splits)
    with "1.IH" eval_step_shorter [OF s(1)] eval_reach.step [OF "1.prems"(2) False s(1)] show ?thesis by blast
  qed
qed

lemma eval_reach_limits:
  assumes "eval_reach ctx x y" "hash_sizes (ctx_crypto ctx)" "within_limits (snd x)"
  shows "within_limits (snd y)"
  using assms by (induction rule: eval_reach.induct) (auto dest: eval_step_limits)

section \<open>The condition stack as a list\<close>

text \<open>The compressed form of the condition values, outermost first.\<close>

definition cond_of :: "bool list \<Rightarrow> ConditionStack" where
  "cond_of bs =
     \<lparr>m_stack_size = of_nat (length bs),
      m_first_false_pos = (if False \<in> set bs then of_nat (length (takeWhile id bs)) else NO_FALSE)\<rparr>"

locale condition_stack =
  fixes new :: 'c and is_empty :: "'c \<Rightarrow> bool" and all_on :: "'c \<Rightarrow> bool"
    and push :: "bool \<Rightarrow> 'c \<Rightarrow> 'c" and pop :: "'c \<Rightarrow> 'c script_result" and toggle :: "'c \<Rightarrow> 'c script_result"
    and rep :: "bool list \<Rightarrow> 'c" and bound :: nat
  assumes rep_new: "rep [] = new"
    and rep_empty: "length bs \<le> bound \<Longrightarrow> is_empty (rep bs) \<longleftrightarrow> bs = []"
    and rep_all_on: "length bs \<le> bound \<Longrightarrow> all_on (rep bs) \<longleftrightarrow> False \<notin> set bs"
    and rep_push: "length bs < bound \<Longrightarrow> push b (rep bs) = rep (bs @ [b])"
    and rep_pop: "length bs \<le> bound \<Longrightarrow> bs \<noteq> [] \<Longrightarrow> pop (rep bs) = Ok (rep (butlast bs))"
    and rep_toggle: "length bs \<le> bound \<Longrightarrow> bs \<noteq> [] \<Longrightarrow> toggle (rep bs) = Ok (rep (butlast bs @ [\<not> last bs]))"
begin

lemma branch_active:
  assumes "length bs < bound"
  shows "all_on (push b (rep bs)) \<longleftrightarrow> all_on (rep bs) \<and> b"
  using assms by (auto simp: rep_push rep_all_on)

lemma branch_toggled:
  assumes "length bs < bound"
  shows "toggle (push b (rep bs)) = Ok (push (\<not> b) (rep bs))"
  using assms by (simp add: rep_push rep_toggle)

lemma branch_closed:
  assumes "length bs < bound"
  shows "pop (push b (rep bs)) = Ok (rep bs)"
  using assms by (simp add: rep_push rep_pop)

end

lemma of_nat_eq_32: "m < 2 ^ 32 \<Longrightarrow> n < 2 ^ 32 \<Longrightarrow> (of_nat m :: uint32) = of_nat n \<longleftrightarrow> m = n"
  by (simp add: word_of_nat_eq_iff take_bit_nat_eq_self_iff [THEN iffD2])

lemma takeWhile_true:
  "False \<notin> set bs \<Longrightarrow> takeWhile id bs = bs" "False \<in> set bs \<Longrightarrow> length (takeWhile id bs) < length bs"
  by (induction bs) auto

lemma cond_of_snoc:
  "cond_of (bs @ [b]) =
     \<lparr>m_stack_size = of_nat (length bs) + 1,
      m_first_false_pos =
        (if False \<in> set bs then of_nat (length (takeWhile id bs)) else if b then NO_FALSE else of_nat (length bs))\<rparr>"
proof (cases "False \<in> set bs")
  case False
  then have "takeWhile id (bs @ [b]) = bs @ takeWhile id [b]" by (intro takeWhile_append2) (auto, metis)
  with False show ?thesis by (auto simp: cond_of_def)
qed (auto simp: cond_of_def)

lemma cond_positions:
  assumes "length bs < 2 ^ 32 - 1"
  shows "of_nat (length bs) \<noteq> NO_FALSE" "of_nat (length bs) + 1 \<noteq> (0 :: uint32)"
    and "False \<in> set bs \<Longrightarrow> of_nat (length (takeWhile id bs)) \<noteq> NO_FALSE"
    and "False \<in> set bs \<Longrightarrow> (of_nat (length (takeWhile id bs)) :: uint32) \<noteq> of_nat (length bs)"
proof -
  have nf: "NO_FALSE = of_nat (2 ^ 32 - 1)" by (simp add: NO_FALSE_def)
  have one: "of_nat (length bs) + 1 = (of_nat (length bs + 1) :: uint32)" by simp
  show "of_nat (length bs) \<noteq> NO_FALSE" using assms of_nat_eq_32 [of "length bs" "2 ^ 32 - 1"] by (simp add: nf)
  show "of_nat (length bs) + 1 \<noteq> (0 :: uint32)" unfolding one using assms of_nat_eq_32 [of "length bs + 1" 0] by simp
  assume "False \<in> set bs"
  then have t: "length (takeWhile id bs) < length bs" by (rule takeWhile_true)
  show "of_nat (length (takeWhile id bs)) \<noteq> NO_FALSE"
    using assms t of_nat_eq_32 [of "length (takeWhile id bs)" "2 ^ 32 - 1"] by (simp add: nf)
  show "(of_nat (length (takeWhile id bs)) :: uint32) \<noteq> of_nat (length bs)"
    using assms t of_nat_eq_32 [of "length (takeWhile id bs)" "length bs"] by simp
qed

interpretation cond: condition_stack cond_new cond_empty all_true cond_push_back cond_pop_back cond_toggle_top
  cond_of "2 ^ 32 - 2"
proof
  show "cond_of [] = cond_new" by (simp add: cond_of_def cond_new_def)
next
  fix bs :: "bool list" assume l: "length bs \<le> 2 ^ 32 - 2"
  then show "cond_empty (cond_of bs) \<longleftrightarrow> bs = []"
    using of_nat_eq_32 [of "length bs" 0] by (simp add: cond_empty_def cond_of_def)
  show "all_true (cond_of bs) \<longleftrightarrow> False \<notin> set bs"
    using cond_positions(3) [of bs] l by (auto simp: all_true_def cond_of_def)
next
  fix bs :: "bool list" and b assume "length bs < 2 ^ 32 - 2"
  then show "cond_push_back b (cond_of bs) = cond_of (bs @ [b])"
    using cond_positions(3) [of bs] by (simp add: cond_of_snoc cond_push_back_def) (simp add: cond_of_def)
next
  fix bs :: "bool list" assume l: "length bs \<le> 2 ^ 32 - 2" and "bs \<noteq> []"
  then obtain xs x where bs: "bs = xs @ [x]" by (metis append_butlast_last_id)
  note p = cond_positions [of xs]
  show "cond_pop_back (cond_of bs) = Ok (cond_of (butlast bs))"
    using p l by (auto simp: bs cond_of_snoc cond_pop_back_def word_gt_0) (auto simp: cond_of_def)
  show "cond_toggle_top (cond_of bs) = Ok (cond_of (butlast bs @ [\<not> last bs]))"
    using p l by (auto simp: bs cond_of_snoc cond_toggle_top_def word_gt_0)
qed

section \<open>Multisignature as an embedding\<close>

definition signed_by :: "EvalContext \<Rightarrow> CScript \<Rightarrow> bytes \<Rightarrow> bytes \<Rightarrow> bool" where
  "signed_by ctx code sig k \<longleftrightarrow> CheckECDSASignature (ctx_checker ctx) sig k code (ctx_sigversion ctx) = Some True"

lemma multisig_loop_embedding:
  assumes "checker_safe ctx" "ctx_sigversion ctx \<noteq> TAPSCRIPT"
    and "\<forall>sig \<in> set sigs. CheckSignatureEncoding (ctx_crypto ctx) sig (ctx_flags ctx) = Ok ()"
    and "\<forall>k \<in> set ks. CheckPubKeyEncoding k (ctx_flags ctx) (ctx_sigversion ctx) = Ok ()"
  shows "multisig_loop ctx code sigs ks = Ok (list_emb (signed_by ctx code) sigs ks)"
  using assms(3,4)
proof (induction ks arbitrary: sigs)
  case Nil
  then show ?case by (cases sigs) auto
next
  case (Cons k ks)
  show ?case
  proof (cases sigs)
    case (Cons sig sigs')
    obtain ok where ok: "CheckECDSASignature (ctx_checker ctx) sig k code (ctx_sigversion ctx) = Some ok"
      using checker_safe_ECDSA [OF assms(1,2)] by blast
    let ?rest = "if ok then sigs' else sigs"
    have emb: "list_emb (signed_by ctx code) sigs (k # ks) \<longleftrightarrow> list_emb (signed_by ctx code) ?rest ks"
      using ok by (simp add: Cons signed_by_def)
    have loop: "multisig_loop ctx code sigs (k # ks) =
        (if length ?rest > length ks then Ok False else multisig_loop ctx code ?rest ks)"
      using Cons.prems ok by (simp add: Cons Let_def)
    have "multisig_loop ctx code ?rest ks = Ok (list_emb (signed_by ctx code) ?rest ks)"
      by (rule Cons.IH) (use Cons.prems Cons in auto)
    moreover have "\<not> list_emb (signed_by ctx code) ?rest ks" if "length ?rest > length ks"
      using that list_emb_length [of "signed_by ctx code" ?rest ks] by linarith
    ultimately show ?thesis by (simp only: loop emb) (simp split: if_split)
  qed simp
qed

section \<open>Whole scripts\<close>

lemma EvalScript_OkE:
  assumes "EvalScript ctx stack script ed = Ok (s, ed')"
  obtains st where "eval_reach ctx (script, eval_start stack script ed) ([], st)"
    "s = st_stack st" "ed' = st_execdata st" "cond_empty (st_vfExec st)" "ctx_sigversion ctx \<noteq> TAPROOT"
proof -
  obtain st where st: "eval_loop ctx script (eval_start stack script ed) = Ok st" "s = st_stack st" "ed' = st_execdata st"
      "cond_empty (st_vfExec st)" "ctx_sigversion ctx \<noteq> TAPROOT"
    using assms by (auto simp: EvalScript_def split: if_splits)
  from that [OF eval_loop_reach [OF st(1) eval_reach.start] st(2-)] show thesis .
qed

lemma eval_start_limits:
  "small_items stack \<Longrightarrow> length stack \<le> MAX_STACK_SIZE \<Longrightarrow> within_limits (eval_start stack script ed)"
  by (simp add: within_limits_def items_ok_def eval_start_def MAX_OPS_PER_SCRIPT_def)

lemma EvalScript_limits:
  assumes "EvalScript ctx stack script ed = Ok (s, ed')" "hash_sizes (ctx_crypto ctx)"
    and "small_items stack" "length stack \<le> MAX_STACK_SIZE"
  shows "small_items s" "length s \<le> MAX_STACK_SIZE"
proof -
  obtain st where "eval_reach ctx (script, eval_start stack script ed) ([], st)" "s = st_stack st"
    using assms(1) by (rule EvalScript_OkE)
  with eval_reach_limits [OF this(1) assms(2)] eval_start_limits [OF assms(3,4)]
  show "small_items s" "length s \<le> MAX_STACK_SIZE" by (auto simp: within_limits_def items_ok_def)
qed

lemma EvalScript_safe:
  assumes "checker_safe ctx" "ctx_sigversion ctx \<noteq> TAPROOT"
    and "ctx_sigversion ctx = TAPSCRIPT \<Longrightarrow>
      m_validation_weight_left_init ed \<and> m_annex_init ed \<and> m_tapleaf_hash_init ed"
  shows "EvalScript ctx stack script ed \<noteq> Abort"
proof -
  have "tap_inv ctx (st_execdata (eval_start stack script ed))"
    using assms(2,3) by (auto simp: tap_inv_def tap_ready_def eval_start_def)
  from eval_loop_safe [OF assms(1) this, of script] assms(2) show ?thesis
    by (auto simp: EvalScript_def safe_result_def)
qed

section \<open>The multisignature opcode on its arguments\<close>

lemma script_num_serialize:
  assumes "\<bar>n\<bar> < 2 ^ 31"
  shows "script_num ctx (scriptnum_serialize n) nDefaultMaxNumSize = Ok n"
proof -
  have "CScriptNum (scriptnum_serialize n) True 4 = Inr n" using CScriptNum_iff [of 4 _ n] assms by simp
  then have "CScriptNum (scriptnum_serialize n) (fRequireMinimal ctx) 4 = Inr n" by (rule CScriptNum_weaker) simp
  then show ?thesis by (simp add: script_num_def nDefaultMaxNumSize_def)
qed

lemma multisig_cleanup_all: "n \<le> length s \<Longrightarrow> multisig_cleanup False n i s = Ok (drop n s)"
  by (induction n arbitrary: i s) (auto simp: neq_Nil_conv Suc_le_length_iff)

lemma op_checkmultisig_args:
  assumes "ctx_sigversion ctx \<noteq> TAPSCRIPT" "length sigs \<le> length ks" "length ks \<le> 20"
    and "st_nOpCount st + int (length ks) \<le> 201"
    and s: "st_stack st =
      scriptnum_serialize (int (length ks)) # ks @ scriptnum_serialize (int (length sigs)) # sigs @ dummy # rest"
    and "multisig_script_code ctx sigs (st_pbegincodehash st) = Ok code"
    and "multisig_loop ctx code sigs ks = Ok ok"
    and "has_flag (ctx_flags ctx) SCRIPT_VERIFY_NULLDUMMY \<Longrightarrow> dummy = []"
    and "has_flag (ctx_flags ctx) SCRIPT_VERIFY_NULLFAIL \<Longrightarrow> ok"
  shows "op_checkmultisig ctx OP_CHECKMULTISIG st =
    Ok (st\<lparr>st_stack := vch_bool ok # rest, st_nOpCount := st_nOpCount st + int (length ks)\<rparr>)"
proof -
  let ?s = "st_stack st" and ?k = "length ks" and ?n = "length sigs"
  have num: "script_num ctx (scriptnum_serialize (int m)) nDefaultMaxNumSize = Ok (int m)" "getint (int m) = int m"
    if "m \<le> 20" for m
    using that script_num_serialize [of "int m" ctx] by (simp_all add: getint_def)
  have at: "?s ! 0 = scriptnum_serialize (int ?k)" "?s ! (?k + 1) = scriptnum_serialize (int ?n)"
    "take ?n (drop (?k + 2) ?s) = sigs" "take ?k (drop 1 ?s) = ks" "\<not> length ?s < ?k + ?n + 3"
    by (simp_all add: s)
  have nf: "(\<not> ok \<and> has_flag (ctx_flags ctx) SCRIPT_VERIFY_NULLFAIL) = False" using assms(9) by blast
  have clean: "multisig_cleanup (\<not> ok \<and> has_flag (ctx_flags ctx) SCRIPT_VERIFY_NULLFAIL) (?k + ?n + 2) (?k + 2) ?s =
      Ok (dummy # rest)"
    unfolding nf using multisig_cleanup_all [of "?k + ?n + 2" ?s "?k + 2"] by (simp add: s del: multisig_cleanup.simps)
  have fin: "multisig_finish ctx OP_CHECKMULTISIG ok (dummy # rest) = Ok (vch_bool ok # rest)"
    using assms(8) by (auto simp: multisig_finish_def)
  have n: "?n \<le> 20" using assms(2,3) by simp
  show ?thesis
    unfolding op_checkmultisig_def Let_def at(1) num(1) [OF assms(3)] sbind.simps num(2) [OF assms(3)] nat_int at(2-)
      num(1) [OF n] num(2) [OF n] assms(6,7) clean fin
    using assms(1-4) at(5) by (simp add: MAX_PUBKEYS_PER_MULTISIG_def MAX_OPS_PER_SCRIPT_def s)
qed

section \<open>A concrete checker\<close>

text \<open>Hash functions and signature checks for concrete runs: a signature is valid for the key that equals it.\<close>

definition example_crypto :: Crypto where
  "example_crypto =
     \<lparr>RIPEMD160 = (\<lambda>v. take 20 (v @ replicate 20 0)), SHA1 = (\<lambda>v. take 20 (v @ replicate 20 0)),
      SHA256 = (\<lambda>v. take 32 (v @ replicate 32 0)), SHAKE256 = (\<lambda>v. take 32 (v @ replicate 32 0)),
      CheckLowS = (\<lambda>_. True), ECDSA_Verify = (\<lambda>k h sig. sig = k), Schnorr_Verify = (\<lambda>k h sig. take 32 sig = k),
      CheckTapTweak = (\<lambda>q p root parity. q = p), MLDSA_Verify = (\<lambda>sig msg ctx k. sig = take 4 k)\<rparr>"

definition example_sig_checker :: BaseSignatureChecker where
  "example_sig_checker =
     \<lparr>CheckECDSASignature = (\<lambda>sig k c v. Some (sig = k)), CheckSchnorrSignature = (\<lambda>sig k v ed. Some (Inr ed)),
      CheckHybridSignature = (\<lambda>_ _ _ _ _. Some False), CheckLockTime = (\<lambda>_. True), CheckSequence = (\<lambda>_. True)\<rparr>"

definition example_ctx :: EvalContext where
  "example_ctx =
     \<lparr>ctx_flags = SCRIPT_VERIFY_P2SH OR SCRIPT_VERIFY_WITNESS, ctx_sigversion = WITNESS_V0,
      ctx_checker = example_sig_checker, ctx_crypto = example_crypto\<rparr>"

lemma example_hash_sizes: "hash_sizes example_crypto"
  by (auto simp: hash_sizes_def example_crypto_def)

lemma example_sig_checker_safe: "checker_safe example_ctx"
  by (simp add: checker_safe_def example_sig_checker_def example_ctx_def)

lemma example_eval: "EvalScript example_ctx [] [OP_2, OP_DUP, OP_ADD] new_execdata =
   Ok ([[4]], new_execdata\<lparr>m_codeseparator_pos := 0xffffffff, m_codeseparator_pos_init := True\<rparr>)"
  by code_simp

section \<open>Properties\<close>

text \<open>
  C14: No script exceeds the resource limits while it runs. Start from a stack of at most 1000
  items of at most 520 bytes, with hash functions of the documented sizes. Then at every point
  between two instructions that a run of \<open>EvalScript\<close> reaches, the two stacks together hold at
  most 1000 items, every item has at most 520 bytes, and at most 201 operations have been counted.
\<close>

theorem eval_limits:
  assumes "small_items stack" "length stack \<le> MAX_STACK_SIZE" "hash_sizes (ctx_crypto ctx)"
    and "eval_reach ctx (script, eval_start stack script ed) (pc, st)"
  shows "length (st_stack st) + length (st_altstack st) \<le> 1000 \<and>
    (\<forall>v. v \<in> set (st_stack st @ st_altstack st) \<longrightarrow> length v \<le> 520) \<and> st_nOpCount st \<le> 201"
proof -
  have "within_limits st"
    using eval_reach_limits [OF assms(4,3)] eval_start_limits [OF assms(1,2)] by simp
  then show ?thesis
    by (auto simp: within_limits_def items_ok_def small_items_def MAX_STACK_SIZE_def MAX_SCRIPT_ELEMENT_SIZE_def
        MAX_OPS_PER_SCRIPT_def)
qed

theorem eval_limits_witness:
  "EvalScript example_ctx [] [OP_2, OP_DUP, OP_ADD] new_execdata \<noteq> Abort \<and>
   (\<exists>st. eval_reach example_ctx ([OP_2, OP_DUP, OP_ADD], eval_start [] [OP_2, OP_DUP, OP_ADD] new_execdata) ([], st) \<and>
     st_stack st = [[4]] \<and> length (st_stack st) + length (st_altstack st) \<le> 1000)"
proof -
  obtain st where st: "eval_reach example_ctx ([OP_2, OP_DUP, OP_ADD], eval_start [] [OP_2, OP_DUP, OP_ADD] new_execdata) ([], st)"
      "st_stack st = [[4]]"
    using example_eval by (rule EvalScript_OkE) simp
  have "hash_sizes (ctx_crypto example_ctx)" using example_hash_sizes by (simp add: example_ctx_def)
  from eval_limits [OF _ _ this st(1)] st example_eval show ?thesis by auto
qed

text \<open>
  C31: The condition stack, which keeps only its size and the position of its first false value,
  behaves as a list of truth values below \<open>2 ^ 32 - 2\<close> levels: emptiness, the test that all are
  true, pushing, popping and toggling the top commute with the compression \<open>cond_of\<close> of a list.
\<close>

theorem condition_stack_refines:
  assumes "length bs < 2 ^ 32 - 2"
  shows "cond_of [] = cond_new \<and> (cond_empty (cond_of bs) \<longleftrightarrow> bs = []) \<and>
    (all_true (cond_of bs) \<longleftrightarrow> list_all id bs) \<and>
    cond_push_back b (cond_of bs) = cond_of (bs @ [b]) \<and>
    cond_pop_back (cond_of (bs @ [b])) = Ok (cond_of bs) \<and>
    cond_toggle_top (cond_of (bs @ [b])) = Ok (cond_of (bs @ [\<not> b]))"
proof -
  have "cond_pop_back (cond_of (bs @ [b])) = Ok (cond_of bs)"
    "cond_toggle_top (cond_of (bs @ [b])) = Ok (cond_of (bs @ [\<not> b]))"
    using cond.rep_pop [of "bs @ [b]"] cond.rep_toggle [of "bs @ [b]"] assms by simp_all
  moreover have "list_all id bs \<longleftrightarrow> False \<notin> set bs" by (induction bs) auto
  ultimately show ?thesis
    using assms cond.rep_new cond.rep_empty [of bs] cond.rep_all_on [of bs] cond.rep_push [of bs b] by simp
qed

theorem condition_stack_refines_witness:
  "length [True, False] < 2 ^ 32 - 2 \<and>
   cond_toggle_top (cond_of [True, False, True]) = Ok (cond_of [True, False, False])"
  using condition_stack_refines [of "[True, False]" True] by simp

text \<open>
  C12: \<open>OP_CHECKMULTISIG\<close> decides whether the signatures can be matched, in order, with distinct
  public keys. Let the stack hold a dummy item, the signatures and their number, the public keys
  and their number, with at most 20 keys and no more signatures than keys, and let the encoding
  rules and the flags for the dummy and for failed signatures be met. Then the opcode leaves
  true exactly when the list of signatures embeds into the list of keys under the signature
  check: the loop, which never goes back to an earlier key, misses no assignment.
\<close>

theorem checkmultisig_correct:
  assumes "ctx_sigversion ctx \<noteq> TAPSCRIPT" "checker_safe ctx"
    and "length sigs \<le> length ks" "length ks \<le> 20" "st_nOpCount st + int (length ks) \<le> 201"
    and "st_stack st =
      scriptnum_serialize (int (length ks)) # ks @ scriptnum_serialize (int (length sigs)) # sigs @ dummy # rest"
    and "\<forall>sig \<in> set sigs. CheckSignatureEncoding (ctx_crypto ctx) sig (ctx_flags ctx) = Ok ()"
    and "\<forall>k \<in> set ks. CheckPubKeyEncoding k (ctx_flags ctx) (ctx_sigversion ctx) = Ok ()"
    and "multisig_script_code ctx sigs (st_pbegincodehash st) = Ok code"
    and "has_flag (ctx_flags ctx) SCRIPT_VERIFY_NULLDUMMY \<Longrightarrow> dummy = []"
    and "has_flag (ctx_flags ctx) SCRIPT_VERIFY_NULLFAIL \<Longrightarrow> list_emb (signed_by ctx code) sigs ks"
  shows "op_checkmultisig ctx OP_CHECKMULTISIG st =
    Ok (st\<lparr>st_stack := vch_bool (list_emb (signed_by ctx code) sigs ks) # rest, st_nOpCount := st_nOpCount st + int (length ks)\<rparr>)"
  using op_checkmultisig_args [OF assms(1,3-6,9) multisig_loop_embedding [OF assms(2,1,7,8)] assms(10)] assms(11)
  by blast

definition example_multisig_state :: EvalState where
  "example_multisig_state =
     (eval_start [[2], [11], [12], [1], [12], [], [7]] [OP_CHECKMULTISIG] new_execdata)\<lparr>st_nOpCount := 1\<rparr>"

theorem checkmultisig_correct_witness:
  "op_checkmultisig example_ctx OP_CHECKMULTISIG example_multisig_state =
     Ok (example_multisig_state\<lparr>st_stack := vch_bool True # [[7]], st_nOpCount := 1 + 2\<rparr>)"
proof -
  have "ctx_sigversion example_ctx \<noteq> TAPSCRIPT" "checker_safe example_ctx"
    using example_sig_checker_safe by (simp_all add: example_ctx_def)
  moreover have "st_stack example_multisig_state =
      scriptnum_serialize (int (length [[11 :: uint8], [12]])) # [[11], [12]] @
      scriptnum_serialize (int (length [[12 :: uint8]])) # [[12]] @ [] # [[7]]"
    by code_simp
  moreover have "multisig_script_code example_ctx [[12]] (st_pbegincodehash example_multisig_state) = Ok [OP_CHECKMULTISIG]"
    by code_simp
  moreover have "list_emb (signed_by example_ctx [OP_CHECKMULTISIG]) [[12]] [[11], [12]]"
    by (simp add: signed_by_def example_ctx_def example_sig_checker_def)
  ultimately show ?thesis
    using checkmultisig_correct [of example_ctx "[[12]]" "[[11], [12]]" example_multisig_state "[]" "[[7]]" "[OP_CHECKMULTISIG]"]
    by (simp add: example_multisig_state_def eval_start_def example_ctx_def CheckSignatureEncoding_def
        CheckPubKeyEncoding_def has_flag_def)
qed

end
