(* ===== verification/Sig_Hash.thy ===== *)
theory Sig_Hash
  imports Interpreter
begin

text \<open>
  What a signature signs (\<open>src/script/interpreter.cpp\<close> from \<open>CTransactionSignatureSerializer\<close> to
  \<open>CheckSequence\<close>): the hashes of the parts of a transaction and their precomputation, the
  signature hashes, and the signature checker of a transaction input. The hash functions and the
  signature algorithms are those of the record \<open>Crypto\<close>.
\<close>

section \<open>Hash writers\<close>

text \<open>\<open>HashWriter\<close> (\<open>src/hash.h\<close>) collects bytes; these are its two results.\<close>

definition GetSHA256 :: "Crypto \<Rightarrow> bytes \<Rightarrow> uint256" where
  "GetSHA256 cr ss = SHA256 cr ss"

definition hw_GetHash :: "Crypto \<Rightarrow> bytes \<Rightarrow> uint256" where
  "hw_GetHash cr ss = SHA256 cr (SHA256 cr ss)"

definition SHA256Uint256 :: "Crypto \<Rightarrow> uint256 \<Rightarrow> uint256" where
  "SHA256Uint256 cr h = SHA256 cr h"

definition ascii :: "string \<Rightarrow> bytes" where
  "ascii s = map of_char s"

definition TaggedHash :: "Crypto \<Rightarrow> string \<Rightarrow> bytes" where
  "TaggedHash cr tag = (let taghash = SHA256 cr (ascii tag) in taghash @ taghash)"

section \<open>Parts of a transaction\<close>

definition GetPrevoutsSHA256 :: "Crypto \<Rightarrow> CTransaction \<Rightarrow> uint256" where
  "GetPrevoutsSHA256 cr txTo = GetSHA256 cr (concat (map (\<lambda>txin. ser_outpoint (prevout txin)) (vin txTo)))"

definition GetSequencesSHA256 :: "Crypto \<Rightarrow> CTransaction \<Rightarrow> uint256" where
  "GetSequencesSHA256 cr txTo = GetSHA256 cr (concat (map (\<lambda>txin. ser_word (nSequence txin)) (vin txTo)))"

definition GetOutputsSHA256 :: "Crypto \<Rightarrow> CTransaction \<Rightarrow> uint256" where
  "GetOutputsSHA256 cr txTo = GetSHA256 cr (concat (map ser_txout (vout txTo)))"

definition GetSpentAmountsSHA256 :: "Crypto \<Rightarrow> CTxOut list \<Rightarrow> uint256" where
  "GetSpentAmountsSHA256 cr outputs_spent = GetSHA256 cr (concat (map (\<lambda>txout. ser_int64 (nValue txout)) outputs_spent))"

definition GetSpentScriptsSHA256 :: "Crypto \<Rightarrow> CTxOut list \<Rightarrow> uint256" where
  "GetSpentScriptsSHA256 cr outputs_spent =
     GetSHA256 cr (concat (map (\<lambda>txout. ser_bytes (scriptPubKey txout)) outputs_spent))"

record PrecomputedTransactionData =
  m_prevouts_single_hash :: uint256
  m_sequences_single_hash :: uint256
  m_outputs_single_hash :: uint256
  m_spent_amounts_single_hash :: uint256
  m_spent_scripts_single_hash :: uint256
  m_bip341_taproot_ready :: bool
  hashPrevouts :: uint256
  hashSequence :: uint256
  hashOutputs :: uint256
  m_bip143_segwit_ready :: bool
  m_spent_outputs :: "CTxOut list"
  m_spent_outputs_ready :: bool

definition new_txdata :: PrecomputedTransactionData where
  "new_txdata =
     \<lparr>m_prevouts_single_hash = uint256_zero, m_sequences_single_hash = uint256_zero,
      m_outputs_single_hash = uint256_zero, m_spent_amounts_single_hash = uint256_zero,
      m_spent_scripts_single_hash = uint256_zero, m_bip341_taproot_ready = False, hashPrevouts = uint256_zero,
      hashSequence = uint256_zero, hashOutputs = uint256_zero, m_bip143_segwit_ready = False,
      m_spent_outputs = [], m_spent_outputs_ready = False\<rparr>"

definition WITNESS_V1_TAPROOT_SIZE :: nat where "WITNESS_V1_TAPROOT_SIZE = 32"

text \<open>Which hashes the inputs from position \<open>inpos\<close> on need: those of BIP 143 and those of BIP 341.\<close>

primrec init_scan :: "PrecomputedTransactionData \<Rightarrow> nat \<Rightarrow> CTxIn list \<Rightarrow> bool \<times> bool \<Rightarrow> bool \<times> bool" where
  "init_scan td inpos [] uses = uses"
| "init_scan td inpos (txin # ins) uses =
     (if fst uses \<and> snd uses then uses
      else init_scan td (inpos + 1) ins
             (if scriptWitness txin \<noteq> []
              then let spk = scriptPubKey (m_spent_outputs td ! inpos)
                   in if m_spent_outputs_ready td \<and> length spk = 2 + WITNESS_V1_TAPROOT_SIZE \<and> spk ! 0 = OP_1
                      then (fst uses, True)
                      else (True, snd uses)
              else uses))"

definition txdata_Init ::
  "Crypto \<Rightarrow> PrecomputedTransactionData \<Rightarrow> CTransaction \<Rightarrow> CTxOut list \<Rightarrow> bool \<Rightarrow> PrecomputedTransactionData option" where
  "txdata_Init cr td txTo spent_outputs force =
     (if m_spent_outputs_ready td then None
      else if spent_outputs \<noteq> [] \<and> length spent_outputs \<noteq> length (vin txTo) then None
      else let td1 = td\<lparr>m_spent_outputs := spent_outputs, m_spent_outputs_ready := (spent_outputs \<noteq> [])\<rparr>;
               (uses_bip143_segwit, uses_bip341_taproot) = init_scan td1 0 (vin txTo) (force, force);
               td2 = (if uses_bip143_segwit \<or> uses_bip341_taproot
                      then td1\<lparr>m_prevouts_single_hash := GetPrevoutsSHA256 cr txTo,
                               m_sequences_single_hash := GetSequencesSHA256 cr txTo,
                               m_outputs_single_hash := GetOutputsSHA256 cr txTo\<rparr>
                      else td1);
               td3 = (if uses_bip143_segwit
                      then td2\<lparr>hashPrevouts := SHA256Uint256 cr (m_prevouts_single_hash td2),
                               hashSequence := SHA256Uint256 cr (m_sequences_single_hash td2),
                               hashOutputs := SHA256Uint256 cr (m_outputs_single_hash td2),
                               m_bip143_segwit_ready := True\<rparr>
                      else td2)
           in Some (if uses_bip341_taproot \<and> m_spent_outputs_ready td3
                    then td3\<lparr>m_spent_amounts_single_hash := GetSpentAmountsSHA256 cr (m_spent_outputs td3),
                             m_spent_scripts_single_hash := GetSpentScriptsSHA256 cr (m_spent_outputs td3),
                             m_bip341_taproot_ready := True\<rparr>
                    else td3))"

section \<open>Legacy serialization\<close>

text \<open>
  The position at which \<open>GetScriptOp\<close> leaves a script whose next instruction it cannot read: after
  the opcode, and after the size of the data if that can be read.
\<close>

definition failed_op_rest :: "bytes \<Rightarrow> bytes" where
  "failed_op_rest script =
     (case script of
        [] \<Rightarrow> []
      | opcode # pc \<Rightarrow>
          if opcode = OP_PUSHDATA1 then (if length pc < 1 then pc else drop 1 pc)
          else if opcode = OP_PUSHDATA2 then (if length pc < 2 then pc else drop 2 pc)
          else if opcode = OP_PUSHDATA4 then (if length pc < 4 then pc else drop 4 pc)
          else pc)"

function count_separators :: "nat \<Rightarrow> bytes \<Rightarrow> nat" where
  "count_separators n it =
     (case GetScriptOp it of
        None \<Rightarrow> n
      | Some ((opcode, _), it') \<Rightarrow> count_separators (if opcode = OP_CODESEPARATOR then n + 1 else n) it')"
  by pat_completeness auto
termination
  by (relation "measure (\<lambda>(_, it). length it)") (auto dest: GetScriptOp_shorter)

function write_without_separators :: "bytes \<Rightarrow> bytes \<Rightarrow> bytes" where
  "write_without_separators itBegin it =
     (case GetScriptOp it of
        None \<Rightarrow> if itBegin \<noteq> [] then take (length itBegin - length (failed_op_rest it)) itBegin else []
      | Some ((opcode, _), it') \<Rightarrow>
          if opcode = OP_CODESEPARATOR
          then take (length itBegin - length it' - 1) itBegin @ write_without_separators it' it'
          else write_without_separators itBegin it')"
  by pat_completeness auto
termination
  by (relation "measure (\<lambda>(_, it). length it)") (auto dest: GetScriptOp_shorter)

declare count_separators.simps [simp del] write_without_separators.simps [simp del]

definition SerializeScriptCode :: "CScript \<Rightarrow> bytes" where
  "SerializeScriptCode scriptCode =
     WriteCompactSize (of_nat (length scriptCode - count_separators 0 scriptCode)) @
     write_without_separators scriptCode scriptCode"

definition fAnyoneCanPay :: "int \<Rightarrow> bool" where
  "fAnyoneCanPay nHashType \<longleftrightarrow> nHashType AND uint SIGHASH_ANYONECANPAY \<noteq> 0"

definition fHashSingle :: "int \<Rightarrow> bool" where
  "fHashSingle nHashType \<longleftrightarrow> nHashType AND 0x1f = uint SIGHASH_SINGLE"

definition fHashNone :: "int \<Rightarrow> bool" where
  "fHashNone nHashType \<longleftrightarrow> nHashType AND 0x1f = uint SIGHASH_NONE"

definition SerializeInput :: "CTransaction \<Rightarrow> CScript \<Rightarrow> nat \<Rightarrow> int \<Rightarrow> nat \<Rightarrow> bytes" where
  "SerializeInput txTo scriptCode nIn nHashType nInput0 =
     (let nInput = (if fAnyoneCanPay nHashType then nIn else nInput0)
      in ser_outpoint (prevout (vin txTo ! nInput)) @
         (if nInput \<noteq> nIn then ser_bytes [] else SerializeScriptCode scriptCode) @
         (if nInput \<noteq> nIn \<and> (fHashSingle nHashType \<or> fHashNone nHashType) then ser_int32 0
          else ser_word (nSequence (vin txTo ! nInput))))"

definition SerializeOutput :: "CTransaction \<Rightarrow> nat \<Rightarrow> int \<Rightarrow> nat \<Rightarrow> bytes" where
  "SerializeOutput txTo nIn nHashType nOutput =
     (if fHashSingle nHashType \<and> nOutput \<noteq> nIn then ser_txout txout_null else ser_txout (vout txTo ! nOutput))"

definition SerializeForSignature :: "CTransaction \<Rightarrow> CScript \<Rightarrow> nat \<Rightarrow> int \<Rightarrow> bytes" where
  "SerializeForSignature txTo scriptCode nIn nHashType =
     (let nInputs = (if fAnyoneCanPay nHashType then 1 else length (vin txTo));
          nOutputs = (if fHashNone nHashType then 0 else if fHashSingle nHashType then nIn + 1 else length (vout txTo))
      in ser_int32 (txVersion txTo) @
         WriteCompactSize (of_nat nInputs) @
         concat (map (SerializeInput txTo scriptCode nIn nHashType) [0..<nInputs]) @
         WriteCompactSize (of_nat nOutputs) @
         concat (map (SerializeOutput txTo nIn nHashType) [0..<nOutputs]) @
         ser_word (nLockTime txTo))"

section \<open>Signature hashes\<close>

definition uint256_ONE :: uint256 where "uint256_ONE = 1 # replicate 31 0"

definition WitnessV0Preimage ::
  "Crypto \<Rightarrow> CScript \<Rightarrow> CTransaction \<Rightarrow> nat \<Rightarrow> int \<Rightarrow> int \<Rightarrow> PrecomputedTransactionData option \<Rightarrow> bytes" where
  "WitnessV0Preimage cr scriptCode txTo nIn nHashType amount cache =
     (let cacheready = (case cache of None \<Rightarrow> False | Some c \<Rightarrow> m_bip143_segwit_ready c);
          all = \<not> fHashSingle nHashType \<and> \<not> fHashNone nHashType;
          prevouts = (if \<not> fAnyoneCanPay nHashType
                      then if cacheready then hashPrevouts (the cache) else SHA256Uint256 cr (GetPrevoutsSHA256 cr txTo)
                      else uint256_zero);
          sequences = (if \<not> fAnyoneCanPay nHashType \<and> all
                       then if cacheready then hashSequence (the cache) else SHA256Uint256 cr (GetSequencesSHA256 cr txTo)
                       else uint256_zero);
          outputs = (if all
                     then if cacheready then hashOutputs (the cache) else SHA256Uint256 cr (GetOutputsSHA256 cr txTo)
                     else if fHashSingle nHashType \<and> nIn < length (vout txTo)
                     then hw_GetHash cr (ser_txout (vout txTo ! nIn))
                     else uint256_zero)
      in ser_int32 (txVersion txTo) @ prevouts @ sequences @
         ser_outpoint (prevout (vin txTo ! nIn)) @ ser_bytes scriptCode @ ser_int64 amount @
         ser_word (nSequence (vin txTo ! nIn)) @ outputs @ ser_word (nLockTime txTo) @ ser_int32 nHashType)"

definition SignatureHash ::
  "Crypto \<Rightarrow> CScript \<Rightarrow> CTransaction \<Rightarrow> nat \<Rightarrow> int \<Rightarrow> int \<Rightarrow> SigVersion \<Rightarrow> PrecomputedTransactionData option \<Rightarrow>
   uint256 option" where
  "SignatureHash cr scriptCode txTo nIn nHashType amount sigversion cache =
     (if \<not> nIn < length (vin txTo) then None
      else Some (if sigversion = WITNESS_V0
                 then hw_GetHash cr (WitnessV0Preimage cr scriptCode txTo nIn nHashType amount cache)
                 else if fHashSingle nHashType \<and> nIn \<ge> length (vout txTo) then uint256_ONE
                 else hw_GetHash cr (SerializeForSignature txTo scriptCode nIn nHashType @ ser_int32 nHashType)))"

datatype MissingDataBehavior = ASSERT_FAIL | FAIL

definition HandleMissingData :: "MissingDataBehavior \<Rightarrow> bool option" where
  "HandleMissingData mdb = (case mdb of ASSERT_FAIL \<Rightarrow> None | FAIL \<Rightarrow> Some False)"

text \<open>
  A Schnorr signature hash. The outer option is a failed assertion, the inner one the result
  \<open>false\<close>. The hash of the single output is kept in the execution data.
\<close>

definition SignatureHashSchnorr ::
  "Crypto \<Rightarrow> ScriptExecutionData \<Rightarrow> CTransaction \<Rightarrow> uint32 \<Rightarrow> uint8 \<Rightarrow> SigVersion \<Rightarrow> PrecomputedTransactionData \<Rightarrow>
   MissingDataBehavior \<Rightarrow> (uint256 \<times> ScriptExecutionData) option option" where
  "SignatureHashSchnorr cr execdata tx_to in_pos hash_type sigversion cache mdb =
     (if \<not> (sigversion = TAPROOT \<or> sigversion = TAPSCRIPT) then None
      else if \<not> unat in_pos < length (vin tx_to) then None
      else if \<not> (m_bip341_taproot_ready cache \<and> m_spent_outputs_ready cache)
      then map_option (\<lambda>_. None) (HandleMissingData mdb)
      else let ext_flag = (if sigversion = TAPSCRIPT then 1 else 0 :: uint8);
               key_version = 0 :: uint8;
               output_type = (if hash_type = SIGHASH_DEFAULT then SIGHASH_ALL else hash_type AND SIGHASH_OUTPUT_MASK);
               input_type = hash_type AND SIGHASH_INPUT_MASK;
               i = unat in_pos
           in if \<not> (hash_type \<le> 0x03 \<or> (hash_type \<ge> 0x81 \<and> hash_type \<le> 0x83)) then Some None
              else if \<not> m_annex_init execdata then None
              else if output_type = SIGHASH_SINGLE \<and> i \<ge> length (vout tx_to) then Some None
              else let output_hash = (case m_output_hash execdata of
                                        Some h \<Rightarrow> h
                                      | None \<Rightarrow> GetSHA256 cr (ser_txout (vout tx_to ! i)));
                       execdata' = (if output_type = SIGHASH_SINGLE then execdata\<lparr>m_output_hash := Some output_hash\<rparr>
                                    else execdata);
                       have_annex = m_annex_present execdata;
                       spend_type = push_bit 1 ext_flag + (if have_annex then 1 else 0);
                       ss = TaggedHash cr ''TapSighash'' @ ser_word (0 :: uint8) @ ser_word hash_type @
                         ser_int32 (txVersion tx_to) @ ser_word (nLockTime tx_to) @
                         (if input_type \<noteq> SIGHASH_ANYONECANPAY
                          then m_prevouts_single_hash cache @ m_spent_amounts_single_hash cache @
                               m_spent_scripts_single_hash cache @ m_sequences_single_hash cache
                          else []) @
                         (if output_type = SIGHASH_ALL then m_outputs_single_hash cache else []) @
                         ser_word spend_type @
                         (if input_type = SIGHASH_ANYONECANPAY
                          then ser_outpoint (prevout (vin tx_to ! i)) @ ser_txout (m_spent_outputs cache ! i) @
                               ser_word (nSequence (vin tx_to ! i))
                          else ser_word in_pos) @
                         (if have_annex then m_annex_hash execdata else []) @
                         (if output_type = SIGHASH_SINGLE then output_hash else [])
                   in if sigversion = TAPSCRIPT
                      then if \<not> m_tapleaf_hash_init execdata \<or> \<not> m_codeseparator_pos_init execdata then None
                           else Some (Some (GetSHA256 cr (ss @ m_tapleaf_hash execdata @ ser_word key_version @
                                              ser_word (m_codeseparator_pos execdata)), execdata'))
                      else Some (Some (GetSHA256 cr ss, execdata')))"

section \<open>The signature checker of a transaction\<close>

definition GetLen :: "uint8 \<Rightarrow> nat" where
  "GetLen chHeader =
     (if chHeader = 2 \<or> chHeader = 3 then COMPRESSED_SIZE
      else if chHeader = 4 \<or> chHeader = 6 \<or> chHeader = 7 then PUBKEY_SIZE
      else 0)"

text \<open>A key made from these bytes is valid.\<close>

definition pubkey_IsValid :: "bytes \<Rightarrow> bool" where
  "pubkey_IsValid v \<longleftrightarrow> v \<noteq> [] \<and> GetLen (hd v) \<noteq> 0 \<and> GetLen (hd v) = length v"

text \<open>\<open>GenericTransactionSignatureChecker\<close>: the transaction, the input it checks and the amount it spends.\<close>

record TxChecker =
  chk_txTo :: CTransaction
  chk_mdb :: MissingDataBehavior
  chk_nIn :: uint32
  chk_amount :: int
  chk_txdata :: "PrecomputedTransactionData option"

definition tx_CheckECDSASignature :: "Crypto \<Rightarrow> TxChecker \<Rightarrow> bytes \<Rightarrow> bytes \<Rightarrow> CScript \<Rightarrow> SigVersion \<Rightarrow> bool option" where
  "tx_CheckECDSASignature cr chk vchSigIn vchPubKey scriptCode sigversion =
     (if \<not> pubkey_IsValid vchPubKey then Some False
      else if vchSigIn = [] then Some False
      else let nHashType = uint (last vchSigIn); vchSig = butlast vchSigIn
           in if sigversion = WITNESS_V0 \<and> chk_amount chk < 0 then HandleMissingData (chk_mdb chk)
              else do {
                sighash \<leftarrow> SignatureHash cr scriptCode (chk_txTo chk) (unat (chk_nIn chk)) nHashType (chk_amount chk)
                  sigversion (chk_txdata chk);
                Some (ECDSA_Verify cr vchPubKey sighash vchSig)
              })"

definition hybrid_script_code :: "bytes \<Rightarrow> CScript" where
  "hybrid_script_code program = [OP_2] @ push_data program"

definition tx_CheckHybridSignature ::
  "Crypto \<Rightarrow> TxChecker \<Rightarrow> bytes \<Rightarrow> bytes \<Rightarrow> bytes \<Rightarrow> bytes \<Rightarrow> bytes \<Rightarrow> bool option" where
  "tx_CheckHybridSignature cr chk ecdsa_sig ecdsa_pub mldsa_sig mldsa_pub program =
     (if length ecdsa_pub \<noteq> 33 then Some False
      else if length mldsa_pub \<noteq> 1312 then Some False
      else if length program \<noteq> 32 then Some False
      else if SHAKE256 cr (ecdsa_pub @ mldsa_pub) \<noteq> program then Some False
      else if chk_amount chk < 0 then HandleMissingData (chk_mdb chk)
      else do {
        sighash \<leftarrow> SignatureHash cr (hybrid_script_code program) (chk_txTo chk) (unat (chk_nIn chk)) (uint SIGHASH_ALL)
          (chk_amount chk) WITNESS_V0 (chk_txdata chk);
        Some (if ecdsa_sig = [] \<or> last ecdsa_sig \<noteq> SIGHASH_ALL then False
              else if \<not> pubkey_IsValid ecdsa_pub then False
              else if \<not> ECDSA_Verify cr ecdsa_pub sighash (butlast ecdsa_sig) then False
              else MLDSA_Verify cr mldsa_sig sighash (ascii ''BitcoBoost-bb1z-v2'') mldsa_pub)
      })"

definition tx_CheckSchnorrSignature ::
  "Crypto \<Rightarrow> TxChecker \<Rightarrow> bytes \<Rightarrow> bytes \<Rightarrow> SigVersion \<Rightarrow> ScriptExecutionData \<Rightarrow>
   (ScriptError option + ScriptExecutionData) option" where
  "tx_CheckSchnorrSignature cr chk sig pubkey_in sigversion execdata =
     (if \<not> (sigversion = TAPROOT \<or> sigversion = TAPSCRIPT) then None
      else if length pubkey_in \<noteq> 32 then None
      else if length sig \<noteq> 64 \<and> length sig \<noteq> 65 then Some (Inl (Some SCRIPT_ERR_SCHNORR_SIG_SIZE))
      else let hashtype = (if length sig = 65 then last sig else SIGHASH_DEFAULT);
               sig' = (if length sig = 65 then butlast sig else sig)
           in if length sig = 65 \<and> hashtype = SIGHASH_DEFAULT then Some (Inl (Some SCRIPT_ERR_SCHNORR_SIG_HASHTYPE))
              else case chk_txdata chk of
                     None \<Rightarrow> map_option (\<lambda>_. Inl None) (HandleMissingData (chk_mdb chk))
                   | Some txdata \<Rightarrow>
                       (case SignatureHashSchnorr cr execdata (chk_txTo chk) (chk_nIn chk) hashtype sigversion txdata
                               (chk_mdb chk) of
                          None \<Rightarrow> None
                        | Some None \<Rightarrow> Some (Inl (Some SCRIPT_ERR_SCHNORR_SIG_HASHTYPE))
                        | Some (Some (sighash, execdata')) \<Rightarrow>
                            if \<not> Schnorr_Verify cr pubkey_in sighash sig' then Some (Inl (Some SCRIPT_ERR_SCHNORR_SIG))
                            else Some (Inr execdata')))"

definition tx_CheckLockTime :: "TxChecker \<Rightarrow> int \<Rightarrow> bool" where
  "tx_CheckLockTime chk nLockTimeOp =
     (let txLockTime = uint (nLockTime (chk_txTo chk))
      in if \<not> ((txLockTime < LOCKTIME_THRESHOLD \<and> nLockTimeOp < LOCKTIME_THRESHOLD) \<or>
               (txLockTime \<ge> LOCKTIME_THRESHOLD \<and> nLockTimeOp \<ge> LOCKTIME_THRESHOLD))
         then False
         else if nLockTimeOp > txLockTime then False
         else if SEQUENCE_FINAL = nSequence (vin (chk_txTo chk) ! unat (chk_nIn chk)) then False
         else True)"

definition tx_CheckSequence :: "TxChecker \<Rightarrow> int \<Rightarrow> bool" where
  "tx_CheckSequence chk nSequenceOp =
     (let txToSequence = uint (nSequence (vin (chk_txTo chk) ! unat (chk_nIn chk)));
          type_flag = uint SEQUENCE_LOCKTIME_TYPE_FLAG;
          nLockTimeMask = uint (SEQUENCE_LOCKTIME_TYPE_FLAG OR SEQUENCE_LOCKTIME_MASK);
          txToSequenceMasked = txToSequence AND nLockTimeMask;
          nSequenceMasked = nSequenceOp AND nLockTimeMask
      in if (word_of_int (txVersion (chk_txTo chk)) :: uint32) < 2 then False
         else if txToSequence AND uint SEQUENCE_LOCKTIME_DISABLE_FLAG \<noteq> 0 then False
         else if \<not> ((txToSequenceMasked < type_flag \<and> nSequenceMasked < type_flag) \<or>
                    (txToSequenceMasked \<ge> type_flag \<and> nSequenceMasked \<ge> type_flag))
         then False
         else if nSequenceMasked > txToSequenceMasked then False
         else True)"

definition TransactionSignatureChecker :: "Crypto \<Rightarrow> TxChecker \<Rightarrow> BaseSignatureChecker" where
  "TransactionSignatureChecker cr chk =
     \<lparr>CheckECDSASignature = tx_CheckECDSASignature cr chk,
      CheckSchnorrSignature = tx_CheckSchnorrSignature cr chk,
      CheckHybridSignature = tx_CheckHybridSignature cr chk,
      CheckLockTime = tx_CheckLockTime chk,
      CheckSequence = tx_CheckSequence chk\<rparr>"

section \<open>Precomputed hashes\<close>

lemma init_scan_mono: "fst u \<Longrightarrow> fst (init_scan td i ins u)" "snd u \<Longrightarrow> snd (init_scan td i ins u)"
  by (induction ins arbitrary: i u) (auto simp: Let_def)

text \<open>An input with a witness that spends a taproot output makes the taproot hashes available.\<close>

lemma init_scan_taproot:
  assumes "m_spent_outputs_ready td" "j < length ins" "scriptWitness (ins ! j) \<noteq> []"
    and "length (scriptPubKey (m_spent_outputs td ! (i + j))) = 34" "scriptPubKey (m_spent_outputs td ! (i + j)) ! 0 = OP_1"
  shows "snd (init_scan td i ins u)"
  using assms(2-)
proof (induction ins arbitrary: i j u)
  case (Cons txin ins)
  show ?case
  proof (cases j)
    case 0
    with Cons.prems assms(1) show ?thesis
      by (auto simp: Let_def WITNESS_V1_TAPROOT_SIZE_def init_scan_mono)
  next
    case (Suc j')
    have "snd (init_scan td (i + 1) ins u')" for u' by (rule Cons.IH [of j']) (use Cons.prems Suc in auto)
    then show ?thesis by simp
  qed
qed simp

definition txdata_right :: "Crypto \<Rightarrow> CTransaction \<Rightarrow> PrecomputedTransactionData \<Rightarrow> bool" where
  "txdata_right cr tx td \<longleftrightarrow>
     (m_bip143_segwit_ready td \<longrightarrow>
        hashPrevouts td = SHA256Uint256 cr (GetPrevoutsSHA256 cr tx) \<and>
        hashSequence td = SHA256Uint256 cr (GetSequencesSHA256 cr tx) \<and>
        hashOutputs td = SHA256Uint256 cr (GetOutputsSHA256 cr tx)) \<and>
     (m_bip341_taproot_ready td \<longrightarrow>
        m_prevouts_single_hash td = GetPrevoutsSHA256 cr tx \<and>
        m_sequences_single_hash td = GetSequencesSHA256 cr tx \<and>
        m_outputs_single_hash td = GetOutputsSHA256 cr tx \<and>
        m_spent_amounts_single_hash td = GetSpentAmountsSHA256 cr (m_spent_outputs td) \<and>
        m_spent_scripts_single_hash td = GetSpentScriptsSHA256 cr (m_spent_outputs td))"

lemma txdata_Init_right:
  assumes "txdata_Init cr new_txdata tx spent force = Some td"
  shows "txdata_right cr tx td" "m_spent_outputs td = spent" "m_spent_outputs_ready td \<longleftrightarrow> spent \<noteq> []"
    and "spent \<noteq> [] \<Longrightarrow> snd (init_scan (new_txdata\<lparr>m_spent_outputs := spent, m_spent_outputs_ready := True\<rparr>) 0 (vin tx) (force, force)) \<Longrightarrow>
      m_bip341_taproot_ready td"
  using assms
  by (auto simp: txdata_Init_def Let_def txdata_right_def new_txdata_def split: if_splits prod.splits)

lemma SignatureHash_cached:
  assumes "txdata_right cr tx td"
  shows "SignatureHash cr code tx nIn ht amount v (Some td) = SignatureHash cr code tx nIn ht amount v None"
proof -
  have "WitnessV0Preimage cr code tx nIn ht amount (Some td) = WitnessV0Preimage cr code tx nIn ht amount None"
    using assms by (auto simp: WitnessV0Preimage_def Let_def txdata_right_def)
  then show ?thesis by (simp add: SignatureHash_def)
qed

section \<open>The checker of a transaction does not abort\<close>

definition eval_ctx :: "Crypto \<Rightarrow> BaseSignatureChecker \<Rightarrow> uint32 \<Rightarrow> SigVersion \<Rightarrow> EvalContext" where
  "eval_ctx cr checker flags v =
     \<lparr>ctx_flags = flags, ctx_sigversion = v, ctx_checker = checker, ctx_crypto = cr\<rparr>"

definition chk_ok :: "TxChecker \<Rightarrow> bool" where
  "chk_ok chk \<longleftrightarrow> unat (chk_nIn chk) < length (vin (chk_txTo chk)) \<and> chk_amount chk \<ge> 0"

lemma ECDSA_no_Abort: "chk_ok chk \<Longrightarrow> tx_CheckECDSASignature cr chk sig k c v \<noteq> None"
  by (auto simp: tx_CheckECDSASignature_def chk_ok_def SignatureHash_def Let_def)

lemma Hybrid_no_Abort: "chk_ok chk \<Longrightarrow> tx_CheckHybridSignature cr chk e ep m mp prog \<noteq> None"
  by (auto simp: tx_CheckHybridSignature_def chk_ok_def SignatureHash_def Let_def)

definition taproot_ready :: "TxChecker \<Rightarrow> bool" where
  "taproot_ready chk \<longleftrightarrow>
     (\<exists>td. chk_txdata chk = Some td \<and> m_bip341_taproot_ready td \<and> m_spent_outputs_ready td)"

lemma SignatureHashSchnorr_ready:
  assumes "chk_ok chk" "m_bip341_taproot_ready td" "m_spent_outputs_ready td" "m_annex_init ed"
    and "v = TAPROOT \<or> v = TAPSCRIPT \<and> tap_ready ed"
  shows "SignatureHashSchnorr cr ed (chk_txTo chk) (chk_nIn chk) ht v td mdb \<noteq> None"
    and "SignatureHashSchnorr cr ed (chk_txTo chk) (chk_nIn chk) ht v td mdb = Some (Some (h, ed')) \<Longrightarrow>
      tap_ready ed' \<longleftrightarrow> tap_ready ed"
  using assms by (auto simp: SignatureHashSchnorr_def Let_def chk_ok_def tap_ready_def split: if_splits option.splits)

lemma Schnorr_no_Abort:
  assumes "chk_ok chk" "taproot_ready chk" "m_annex_init ed" "v = TAPROOT \<or> v = TAPSCRIPT \<and> tap_ready ed" "length k = 32"
  shows "tx_CheckSchnorrSignature cr chk sig k v ed \<noteq> None"
    and "tx_CheckSchnorrSignature cr chk sig k v ed = Some (Inr ed') \<Longrightarrow> tap_ready ed' \<longleftrightarrow> tap_ready ed"
proof -
  obtain td where td: "chk_txdata chk = Some td" "m_bip341_taproot_ready td" "m_spent_outputs_ready td"
    using assms(2) by (auto simp: taproot_ready_def)
  note h = SignatureHashSchnorr_ready [OF assms(1) td(2,3) assms(3,4)]
  have v: "v = TAPROOT \<or> v = TAPSCRIPT" using assms(4) by blast
  show "tx_CheckSchnorrSignature cr chk sig k v ed \<noteq> None"
    using v assms(5) td(1) by (simp add: tx_CheckSchnorrSignature_def Let_def h(1) split: option.splits)
  show "tx_CheckSchnorrSignature cr chk sig k v ed = Some (Inr ed') \<Longrightarrow> tap_ready ed' \<longleftrightarrow> tap_ready ed"
    using h(2) td(1) by (auto simp: tx_CheckSchnorrSignature_def Let_def split: option.splits if_splits)
qed

lemma tx_checker_safe:
  assumes "chk_ok chk" "v = TAPSCRIPT \<Longrightarrow> taproot_ready chk"
  shows "checker_safe (eval_ctx cr (TransactionSignatureChecker cr chk) flags v)"
proof (cases "v = TAPSCRIPT")
  case True
  have a: "m_annex_init ed" "TAPSCRIPT = TAPROOT \<or> TAPSCRIPT = TAPSCRIPT \<and> tap_ready ed" if "tap_ready ed" for ed
    using that by (auto simp: tap_ready_def)
  note s = Schnorr_no_Abort [OF assms(1) assms(2) [OF True]]
  show ?thesis
    using s(1) [OF a(1) a(2)] s(2) [OF a(1) a(2)]
    by (simp add: True checker_safe_def eval_ctx_def TransactionSignatureChecker_def)
next
  case False
  with ECDSA_no_Abort [OF assms(1)] show ?thesis
    by (simp add: checker_safe_def eval_ctx_def TransactionSignatureChecker_def)
qed

section \<open>What a signature commits to\<close>

context codec
begin

lemma concat_inject:
  assumes "\<And>x. ser x \<noteq> []"
  shows "\<forall>x \<in> set xs. valid x \<Longrightarrow> \<forall>y \<in> set ys. valid y \<Longrightarrow> concat (map ser xs) = concat (map ser ys) \<Longrightarrow> xs = ys"
proof (induction xs arbitrary: ys)
  case Nil
  then show ?case using assms by (cases ys) auto
next
  case (Cons x xs)
  show ?case
  proof (cases ys)
    case Nil
    with Cons.prems assms show ?thesis by simp
  next
    case (Cons y ys')
    with Cons.prems prefix_free [of x y "concat (map ser xs)" "concat (map ser ys')"]
    have "x = y" "concat (map ser xs) = concat (map ser ys')" by auto
    with Cons.IH [of ys'] Cons.prems Cons show ?thesis by simp
  qed
qed

end

definition prevouts_bytes :: "CTransaction \<Rightarrow> bytes" where
  "prevouts_bytes tx = concat (map ser_outpoint (map prevout (vin tx)))"

definition sequences_bytes :: "CTransaction \<Rightarrow> bytes" where
  "sequences_bytes tx = concat (map ser_word (map nSequence (vin tx)))"

definition outputs_bytes :: "CTransaction \<Rightarrow> bytes" where
  "outputs_bytes tx = concat (map ser_txout (vout tx))"

text \<open>The byte strings that are hashed for a signature of the whole transaction.\<close>

definition sighash_inputs :: "Crypto \<Rightarrow> CScript \<Rightarrow> CTransaction \<Rightarrow> nat \<Rightarrow> int \<Rightarrow> bytes set" where
  "sighash_inputs cr code tx nIn amount =
     (let parts = {prevouts_bytes tx, sequences_bytes tx, outputs_bytes tx,
                   WitnessV0Preimage cr code tx nIn (uint SIGHASH_ALL) amount None}
      in parts \<union> SHA256 cr ` parts)"

definition signable :: "CScript \<Rightarrow> CTransaction \<Rightarrow> nat \<Rightarrow> int \<Rightarrow> bool" where
  "signable code tx nIn amount \<longleftrightarrow>
     nIn < length (vin tx) \<and> is_int32 (txVersion tx) \<and> is_int64 amount \<and> length code \<le> unat MAX_SIZE \<and>
     list_all (\<lambda>i. wf_outpoint (prevout i)) (vin tx) \<and> list_all wf_txout (vout tx)"

lemma ser_nonempty: "ser_outpoint p \<noteq> []" "ser_word (w :: uint32) \<noteq> []" "ser_txout t \<noteq> []"
  by (simp_all add: ser_outpoint_def ser_word_def le_bytes_def ser_txout_def ser_int64_def)

lemma parts_inject:
  assumes "signable c1 tx1 i1 a1" "signable c2 tx2 i2 a2"
  shows "prevouts_bytes tx1 = prevouts_bytes tx2 \<Longrightarrow> map prevout (vin tx1) = map prevout (vin tx2)"
    and "sequences_bytes tx1 = sequences_bytes tx2 \<Longrightarrow> map nSequence (vin tx1) = map nSequence (vin tx2)"
    and "outputs_bytes tx1 = outputs_bytes tx2 \<Longrightarrow> vout tx1 = vout tx2"
  using assms outpoint.concat_inject [OF ser_nonempty(1), of "map prevout (vin tx1)" "map prevout (vin tx2)"]
    ser32.concat_inject [OF ser_nonempty(2), of "map nSequence (vin tx1)" "map nSequence (vin tx2)"]
    txout.concat_inject [OF ser_nonempty(3), of "vout tx1" "vout tx2"]
  by (auto simp: signable_def prevouts_bytes_def sequences_bytes_def outputs_bytes_def list_all_iff)

lemma preimage_all:
  "WitnessV0Preimage cr code tx nIn (uint SIGHASH_ALL) amount None =
     ser_int32 (txVersion tx) @ SHA256 cr (SHA256 cr (prevouts_bytes tx)) @ SHA256 cr (SHA256 cr (sequences_bytes tx)) @
     ser_outpoint (prevout (vin tx ! nIn)) @ ser_bytes code @ ser_int64 amount @ ser_word (nSequence (vin tx ! nIn)) @
     SHA256 cr (SHA256 cr (outputs_bytes tx)) @ ser_word (nLockTime tx) @ ser_int32 1"
  by (simp add: WitnessV0Preimage_def Let_def SIGHASH_ALL_def SIGHASH_NONE_def SIGHASH_SINGLE_def SIGHASH_ANYONECANPAY_def
      fAnyoneCanPay_def fHashSingle_def fHashNone_def SHA256Uint256_def GetPrevoutsSHA256_def GetSequencesSHA256_def
      GetOutputsSHA256_def GetSHA256_def prevouts_bytes_def sequences_bytes_def outputs_bytes_def comp_def)

lemma preimage_inject:
  assumes "\<forall>v. length (SHA256 cr v) = 32" "signable c1 tx1 i1 a1" "signable c2 tx2 i2 a2"
    and eq: "WitnessV0Preimage cr c1 tx1 i1 (uint SIGHASH_ALL) a1 None =
      WitnessV0Preimage cr c2 tx2 i2 (uint SIGHASH_ALL) a2 None"
  shows "txVersion tx1 = txVersion tx2 \<and> c1 = c2 \<and> a1 = a2 \<and> nLockTime tx1 = nLockTime tx2 \<and>
    prevout (vin tx1 ! i1) = prevout (vin tx2 ! i2) \<and>
    SHA256 cr (SHA256 cr (prevouts_bytes tx1)) = SHA256 cr (SHA256 cr (prevouts_bytes tx2)) \<and>
    SHA256 cr (SHA256 cr (sequences_bytes tx1)) = SHA256 cr (SHA256 cr (sequences_bytes tx2)) \<and>
    SHA256 cr (SHA256 cr (outputs_bytes tx1)) = SHA256 cr (SHA256 cr (outputs_bytes tx2))"
proof -
  have w: "is_int32 (txVersion tx1)" "is_int32 (txVersion tx2)" "is_int64 a1" "is_int64 a2"
    "length c1 \<le> unat MAX_SIZE" "length c2 \<le> unat MAX_SIZE"
    "wf_outpoint (prevout (vin tx1 ! i1))" "wf_outpoint (prevout (vin tx2 ! i2))"
    using assms(2,3) by (auto simp: signable_def list_all_length)
  note e1 = ser_i32.prefix_free [OF w(1,2) eq [unfolded preimage_all]]
  have e2: "SHA256 cr (SHA256 cr (prevouts_bytes tx1)) = SHA256 cr (SHA256 cr (prevouts_bytes tx2)) \<and>
      SHA256 cr (SHA256 cr (sequences_bytes tx1)) = SHA256 cr (SHA256 cr (sequences_bytes tx2)) \<and>
      ser_outpoint (prevout (vin tx1 ! i1)) @ ser_bytes c1 @ ser_int64 a1 @ ser_word (nSequence (vin tx1 ! i1)) @
        SHA256 cr (SHA256 cr (outputs_bytes tx1)) @ ser_word (nLockTime tx1) @ ser_int32 1 =
      ser_outpoint (prevout (vin tx2 ! i2)) @ ser_bytes c2 @ ser_int64 a2 @ ser_word (nSequence (vin tx2 ! i2)) @
        SHA256 cr (SHA256 cr (outputs_bytes tx2)) @ ser_word (nLockTime tx2) @ ser_int32 1"
    using e1 assms(1) by simp
  note e3 = outpoint.prefix_free [OF w(7,8) e2 [THEN conjunct2, THEN conjunct2]]
  note e4 = byte_vector.prefix_free [OF w(5,6) e3 [THEN conjunct2]]
  note e5 = ser_i64.prefix_free [OF w(3,4) e4 [THEN conjunct2]]
  note e6 = ser32.prefix_free [OF TrueI TrueI e5 [THEN conjunct2]]
  have e7: "SHA256 cr (SHA256 cr (outputs_bytes tx1)) = SHA256 cr (SHA256 cr (outputs_bytes tx2))"
    "ser_word (nLockTime tx1) @ ser_int32 1 = ser_word (nLockTime tx2) @ ser_int32 1"
    using e6 assms(1) by simp_all
  show ?thesis using e1 e2 e3 e4 e5 e7(1) ser32.prefix_free [OF TrueI TrueI e7(2)] by blast
qed

section \<open>Concrete transactions\<close>

text \<open>A hash function with 32-byte results that separates the strings below: their length and first bytes.\<close>

definition tag_crypto :: Crypto where
  "tag_crypto = example_crypto\<lparr>SHA256 := \<lambda>v. take 32 (of_nat (length v) # v @ replicate 32 0)\<rparr>"

definition signed_tx :: "CScript \<Rightarrow> bytes list \<Rightarrow> CTransaction" where
  "signed_tx sig wit =
     \<lparr>vin = [\<lparr>prevout = \<lparr>op_hash = replicate 32 7, op_n = 0\<rparr>, scriptSig = sig, nSequence = 5, scriptWitness = wit\<rparr>],
      vout = [\<lparr>nValue = 40, scriptPubKey = []\<rparr>], txVersion = 2, nLockTime = 0\<rparr>"

lemma tag_crypto_sizes: "\<forall>v. length (SHA256 tag_crypto v) = 32"
  by (auto simp: tag_crypto_def)

lemma signable_example: "signable [OP_1] (signed_tx sig wit) 0 50"
  by (simp add: signable_def signed_tx_def is_int32_def is_int64_def wf_outpoint_def wf_uint256_def wf_txout_def MAX_SIZE_def)

definition example_parts :: "bytes list" where
  "example_parts =
     (let tx = signed_tx [] []; ps = [prevouts_bytes tx, sequences_bytes tx, outputs_bytes tx,
            WitnessV0Preimage tag_crypto [OP_1] tx 0 (uint SIGHASH_ALL) 50 None]
      in ps @ map (SHA256 tag_crypto) ps)"

lemma example_parts_eq: "sighash_inputs tag_crypto [OP_1] (signed_tx sig wit) 0 50 = set example_parts"
  by (simp add: sighash_inputs_def example_parts_def Let_def prevouts_bytes_def sequences_bytes_def outputs_bytes_def
      preimage_all signed_tx_def) blast

lemma example_parts_distinct: "distinct (map (SHA256 tag_crypto) example_parts)"
  by code_simp

section \<open>Properties\<close>

text \<open>
  C23: The hashes precomputed for a transaction are the hashes that would be computed without
  them. After \<open>PrecomputedTransactionData::Init\<close>, for every script code, input, hash type, amount
  and signature version, \<open>SignatureHash\<close> with the precomputed data returns what it returns with
  none; and when the taproot data is marked ready, its five hashes are those of the transaction
  and of the outputs it spends.
\<close>

theorem precomputed_sighash:
  assumes "txdata_Init cr new_txdata tx spent force = Some td"
  shows "SignatureHash cr code tx nIn ht amount v (Some td) = SignatureHash cr code tx nIn ht amount v None \<and>
    (m_bip341_taproot_ready td \<longrightarrow>
       m_prevouts_single_hash td = GetPrevoutsSHA256 cr tx \<and> m_sequences_single_hash td = GetSequencesSHA256 cr tx \<and>
       m_outputs_single_hash td = GetOutputsSHA256 cr tx \<and>
       m_spent_amounts_single_hash td = GetSpentAmountsSHA256 cr spent \<and>
       m_spent_scripts_single_hash td = GetSpentScriptsSHA256 cr spent)"
  using SignatureHash_cached [OF txdata_Init_right(1) [OF assms]] txdata_Init_right(1,2) [OF assms]
  by (simp add: txdata_right_def)

theorem precomputed_sighash_witness:
  "\<exists>td. txdata_Init tag_crypto new_txdata (signed_tx [] [[1]]) [\<lparr>nValue = 50, scriptPubKey = []\<rparr>] False = Some td \<and>
     m_bip143_segwit_ready td \<and>
     SignatureHash tag_crypto [OP_1] (signed_tx [] [[1]]) 0 1 50 WITNESS_V0 (Some td) =
     SignatureHash tag_crypto [OP_1] (signed_tx [] [[1]]) 0 1 50 WITNESS_V0 None"
proof -
  obtain td where td: "txdata_Init tag_crypto new_txdata (signed_tx [] [[1]]) [\<lparr>nValue = 50, scriptPubKey = []\<rparr>] False = Some td"
      "m_bip143_segwit_ready td"
    by (simp add: txdata_Init_def new_txdata_def signed_tx_def Let_def WITNESS_V1_TAPROOT_SIZE_def)
  with precomputed_sighash [OF td(1), of "[OP_1]" 0 1 50 WITNESS_V0] show ?thesis by blast
qed

text \<open>
  C15: A signature over a whole transaction signs all of it. If two well-formed transactions have
  the same segwit signature hash with \<open>SIGHASH_ALL\<close>, and SHA-256 has no collision among the
  byte strings hashed for the two, then the version, the lock time, all the outpoints spent, all
  sequence numbers, all outputs, the outpoint being signed, its script code and its amount agree.
  What may differ is only the signature scripts and the witnesses. The hybrid signatures of
  witness version 2 use this hash.
\<close>

theorem sighash_all_binds:
  assumes "\<forall>v. length (SHA256 cr v) = 32" "signable c1 tx1 i1 a1" "signable c2 tx2 i2 a2"
    and "inj_on (SHA256 cr) (sighash_inputs cr c1 tx1 i1 a1 \<union> sighash_inputs cr c2 tx2 i2 a2)"
    and "SignatureHash cr c1 tx1 i1 (uint SIGHASH_ALL) a1 WITNESS_V0 None =
      SignatureHash cr c2 tx2 i2 (uint SIGHASH_ALL) a2 WITNESS_V0 None"
  shows "txVersion tx1 = txVersion tx2 \<and> nLockTime tx1 = nLockTime tx2 \<and>
    map prevout (vin tx1) = map prevout (vin tx2) \<and> map nSequence (vin tx1) = map nSequence (vin tx2) \<and>
    vout tx1 = vout tx2 \<and> prevout (vin tx1 ! i1) = prevout (vin tx2 ! i2) \<and> c1 = c2 \<and> a1 = a2"
proof -
  have inj: "x = y" if "SHA256 cr (SHA256 cr x) = SHA256 cr (SHA256 cr y)"
      "x \<in> sighash_inputs cr c1 tx1 i1 a1" "SHA256 cr x \<in> sighash_inputs cr c1 tx1 i1 a1"
      "y \<in> sighash_inputs cr c2 tx2 i2 a2" "SHA256 cr y \<in> sighash_inputs cr c2 tx2 i2 a2" for x y
    using that assms(4) by (meson UnCI inj_onD)
  have "nIn < length (vin tx) \<Longrightarrow> SignatureHash cr c tx nIn (uint SIGHASH_ALL) a WITNESS_V0 None =
      Some (SHA256 cr (SHA256 cr (WitnessV0Preimage cr c tx nIn (uint SIGHASH_ALL) a None)))" for c tx nIn a
    by (simp add: SignatureHash_def hw_GetHash_def)
  then have "SHA256 cr (SHA256 cr (WitnessV0Preimage cr c1 tx1 i1 (uint SIGHASH_ALL) a1 None)) =
      SHA256 cr (SHA256 cr (WitnessV0Preimage cr c2 tx2 i2 (uint SIGHASH_ALL) a2 None))"
    using assms(2,3,5) by (simp add: signable_def)
  then have "WitnessV0Preimage cr c1 tx1 i1 (uint SIGHASH_ALL) a1 None =
      WitnessV0Preimage cr c2 tx2 i2 (uint SIGHASH_ALL) a2 None"
    by (rule inj) (simp_all add: sighash_inputs_def Let_def)
  note p = preimage_inject [OF assms(1-3) this]
  have "prevouts_bytes tx1 = prevouts_bytes tx2" "sequences_bytes tx1 = sequences_bytes tx2"
    "outputs_bytes tx1 = outputs_bytes tx2"
    by (rule inj; use p in \<open>simp add: sighash_inputs_def Let_def\<close>)+
  with p parts_inject [OF assms(2,3)] show ?thesis by blast
qed

theorem sighash_all_binds_witness:
  "SignatureHash tag_crypto [OP_1] (signed_tx [] []) 0 (uint SIGHASH_ALL) 50 WITNESS_V0 None =
     SignatureHash tag_crypto [OP_1] (signed_tx [3] [[9]]) 0 (uint SIGHASH_ALL) 50 WITNESS_V0 None \<and>
   vout (signed_tx [] []) = vout (signed_tx [3] [[9]])"
proof -
  have eq: "SignatureHash tag_crypto [OP_1] (signed_tx [] []) 0 (uint SIGHASH_ALL) 50 WITNESS_V0 None =
      SignatureHash tag_crypto [OP_1] (signed_tx [3] [[9]]) 0 (uint SIGHASH_ALL) 50 WITNESS_V0 None"
    by (simp add: SignatureHash_def preimage_all signed_tx_def prevouts_bytes_def sequences_bytes_def outputs_bytes_def)
  have "inj_on (SHA256 tag_crypto) (set example_parts)"
    using example_parts_distinct by (simp only: distinct_map)
  then show ?thesis
    using eq sighash_all_binds [OF tag_crypto_sizes signable_example signable_example _ eq]
    by (simp add: example_parts_eq)
qed

end
