(* ===== verification/Verify_Script.thy ===== *)
theory Verify_Script
  imports Sig_Hash Connect_Block
begin

text \<open>
  Script verification (the end of \<open>src/script/interpreter.cpp\<close>): witness programs, taproot
  commitments, the hybrid programs of witness version 2 and \<open>VerifyScript\<close>, and the script check
  of a transaction input (\<open>CScriptCheck\<close> of \<open>src/validation.cpp\<close>).
\<close>

section \<open>Witness scripts\<close>

text \<open>Whether a tapscript contains an \<open>OP_SUCCESSx\<close>, which ends its verification.\<close>

function op_success_scan :: "uint32 \<Rightarrow> bytes \<Rightarrow> bool script_result" where
  "op_success_scan flags pc =
     (if pc = [] then Ok False
      else case GetScriptOp pc of
             None \<Rightarrow> Fail SCRIPT_ERR_BAD_OPCODE
           | Some ((opcode, _), pc') \<Rightarrow>
               if IsOpSuccess opcode
               then if has_flag flags SCRIPT_VERIFY_DISCOURAGE_OP_SUCCESS then Fail SCRIPT_ERR_DISCOURAGE_OP_SUCCESS
                    else Ok True
               else op_success_scan flags pc')"
  by pat_completeness auto
termination
  by (relation "measure (\<lambda>(_, pc). length pc)") (auto dest: GetScriptOp_shorter)

declare op_success_scan.simps [simp del]

definition ExecuteWitnessScript ::
  "Crypto \<Rightarrow> BaseSignatureChecker \<Rightarrow> bytes list \<Rightarrow> CScript \<Rightarrow> uint32 \<Rightarrow> SigVersion \<Rightarrow> ScriptExecutionData \<Rightarrow>
   unit script_result" where
  "ExecuteWitnessScript cr checker stack exec_script flags sigversion execdata =
     sbind (if sigversion = TAPSCRIPT then op_success_scan flags exec_script else Ok False) (\<lambda>op_success.
     if op_success then Ok ()
     else if sigversion = TAPSCRIPT \<and> length stack > MAX_STACK_SIZE then Fail SCRIPT_ERR_STACK_SIZE
     else if list_ex (\<lambda>elem. length elem > MAX_SCRIPT_ELEMENT_SIZE) stack then Fail SCRIPT_ERR_PUSH_SIZE
     else sbind (EvalScript (eval_ctx cr checker flags sigversion) stack exec_script execdata) (\<lambda>(stack', _).
          if length stack' \<noteq> 1 then Fail SCRIPT_ERR_CLEANSTACK
          else if \<not> CastToBool (hd stack') then Fail SCRIPT_ERR_EVAL_FALSE
          else Ok ()))"

section \<open>Taproot commitments\<close>

definition TAPROOT_LEAF_MASK :: uint8 where "TAPROOT_LEAF_MASK = 0xfe"
definition TAPROOT_LEAF_TAPSCRIPT :: uint8 where "TAPROOT_LEAF_TAPSCRIPT = 0xc0"
definition TAPROOT_CONTROL_BASE_SIZE :: nat where "TAPROOT_CONTROL_BASE_SIZE = 33"
definition TAPROOT_CONTROL_NODE_SIZE :: nat where "TAPROOT_CONTROL_NODE_SIZE = 32"
definition TAPROOT_CONTROL_MAX_NODE_COUNT :: nat where "TAPROOT_CONTROL_MAX_NODE_COUNT = 128"

definition TAPROOT_CONTROL_MAX_SIZE :: nat where
  "TAPROOT_CONTROL_MAX_SIZE = TAPROOT_CONTROL_BASE_SIZE + TAPROOT_CONTROL_NODE_SIZE * TAPROOT_CONTROL_MAX_NODE_COUNT"

definition ANNEX_TAG :: uint8 where "ANNEX_TAG = 0x50"

definition ComputeTapleafHash :: "Crypto \<Rightarrow> uint8 \<Rightarrow> bytes \<Rightarrow> uint256" where
  "ComputeTapleafHash cr leaf_version script =
     GetSHA256 cr (TaggedHash cr ''TapLeaf'' @ ser_word leaf_version @ WriteCompactSize (of_nat (length script)) @ script)"

fun lexicographical_compare :: "bytes \<Rightarrow> bytes \<Rightarrow> bool" where
  "lexicographical_compare _ [] = False"
| "lexicographical_compare [] (_ # _) = True"
| "lexicographical_compare (x # xs) (y # ys) =
     (if x < y then True else if y < x then False else lexicographical_compare xs ys)"

definition ComputeTapbranchHash :: "Crypto \<Rightarrow> bytes \<Rightarrow> bytes \<Rightarrow> uint256" where
  "ComputeTapbranchHash cr a b =
     GetSHA256 cr (TaggedHash cr ''TapBranch'' @ (if lexicographical_compare a b then a @ b else b @ a))"

definition ComputeTaprootMerkleRoot :: "Crypto \<Rightarrow> bytes \<Rightarrow> uint256 \<Rightarrow> uint256 option" where
  "ComputeTaprootMerkleRoot cr control tapleaf_hash =
     (if \<not> (length control \<ge> TAPROOT_CONTROL_BASE_SIZE \<and> length control \<le> TAPROOT_CONTROL_MAX_SIZE \<and>
            (length control - TAPROOT_CONTROL_BASE_SIZE) mod TAPROOT_CONTROL_NODE_SIZE = 0)
      then None
      else let path_len = (length control - TAPROOT_CONTROL_BASE_SIZE) div TAPROOT_CONTROL_NODE_SIZE
           in Some (foldl (\<lambda>k i. let node = take TAPROOT_CONTROL_NODE_SIZE
                                        (drop (TAPROOT_CONTROL_BASE_SIZE + TAPROOT_CONTROL_NODE_SIZE * i) control)
                                in ComputeTapbranchHash cr k node)
                     tapleaf_hash [0..<path_len]))"

definition VerifyTaprootCommitment :: "Crypto \<Rightarrow> bytes \<Rightarrow> bytes \<Rightarrow> uint256 \<Rightarrow> bool option" where
  "VerifyTaprootCommitment cr control program tapleaf_hash =
     (if length control < TAPROOT_CONTROL_BASE_SIZE \<or> length program \<noteq> 32 then None
      else do {
        merkle_root \<leftarrow> ComputeTaprootMerkleRoot cr control tapleaf_hash;
        Some (CheckTapTweak cr program (take (TAPROOT_CONTROL_BASE_SIZE - 1) (drop 1 control)) merkle_root
                (control ! 0 AND 1 \<noteq> 0))
      })"

section \<open>Witness programs\<close>

definition p2wpkh_script :: "bytes \<Rightarrow> CScript" where
  "p2wpkh_script program = [OP_DUP, OP_HASH160] @ push_data program @ [OP_EQUALVERIFY, OP_CHECKSIG]"

definition verify_witness_v0 ::
  "Crypto \<Rightarrow> BaseSignatureChecker \<Rightarrow> bytes list \<Rightarrow> bytes \<Rightarrow> uint32 \<Rightarrow> unit script_result" where
  "verify_witness_v0 cr checker witness program flags =
     (if length program = WITNESS_V0_SCRIPTHASH_SIZE
      then case rev witness of
             [] \<Rightarrow> Fail SCRIPT_ERR_WITNESS_PROGRAM_WITNESS_EMPTY
           | exec_script # stack \<Rightarrow>
               if SHA256 cr exec_script \<noteq> program then Fail SCRIPT_ERR_WITNESS_PROGRAM_MISMATCH
               else ExecuteWitnessScript cr checker stack exec_script flags WITNESS_V0 new_execdata
      else if length program = WITNESS_V0_KEYHASH_SIZE
      then if length witness \<noteq> 2 then Fail SCRIPT_ERR_WITNESS_PROGRAM_MISMATCH
           else ExecuteWitnessScript cr checker (rev witness) (p2wpkh_script program) flags WITNESS_V0 new_execdata
      else Fail SCRIPT_ERR_WITNESS_PROGRAM_WRONG_LENGTH)"

text \<open>The annex, if the last item is one, and the remaining items, last first.\<close>

definition drop_annex :: "Crypto \<Rightarrow> bytes list \<Rightarrow> bytes list \<times> ScriptExecutionData" where
  "drop_annex cr stack =
     (if length stack \<ge> 2 \<and> hd stack \<noteq> [] \<and> hd (hd stack) = ANNEX_TAG
      then (tl stack, new_execdata\<lparr>m_annex_hash := GetSHA256 cr (ser_bytes (hd stack)), m_annex_present := True,
                                   m_annex_init := True\<rparr>)
      else (stack, new_execdata\<lparr>m_annex_present := False, m_annex_init := True\<rparr>))"

text \<open>
  A key path check that returns false without an error leaves the one of the evaluation before
  it, \<open>SCRIPT_ERR_OK\<close>.
\<close>

definition verify_taproot_key ::
  "BaseSignatureChecker \<Rightarrow> bytes \<Rightarrow> bytes \<Rightarrow> ScriptExecutionData \<Rightarrow> unit script_result" where
  "verify_taproot_key checker sig program execdata =
     (case CheckSchnorrSignature checker sig program TAPROOT execdata of
        None \<Rightarrow> Abort
      | Some (Inl None) \<Rightarrow> Fail SCRIPT_ERR_OK
      | Some (Inl (Some serror)) \<Rightarrow> Fail serror
      | Some (Inr _) \<Rightarrow> Ok ())"

definition verify_taproot_script ::
  "Crypto \<Rightarrow> BaseSignatureChecker \<Rightarrow> bytes list \<Rightarrow> bytes \<Rightarrow> bytes \<Rightarrow> bytes list \<Rightarrow> bytes \<Rightarrow> uint32 \<Rightarrow>
   ScriptExecutionData \<Rightarrow> unit script_result" where
  "verify_taproot_script cr checker witness control script stack program flags execdata =
     (if length control < TAPROOT_CONTROL_BASE_SIZE \<or> length control > TAPROOT_CONTROL_MAX_SIZE \<or>
         (length control - TAPROOT_CONTROL_BASE_SIZE) mod TAPROOT_CONTROL_NODE_SIZE \<noteq> 0
      then Fail SCRIPT_ERR_TAPROOT_WRONG_CONTROL_SIZE
      else let leaf_version = control ! 0 AND TAPROOT_LEAF_MASK;
               tapleaf_hash = ComputeTapleafHash cr leaf_version script
           in case VerifyTaprootCommitment cr control program tapleaf_hash of
                None \<Rightarrow> Abort
              | Some committed \<Rightarrow>
                  if \<not> committed then Fail SCRIPT_ERR_WITNESS_PROGRAM_MISMATCH
                  else if leaf_version = TAPROOT_LEAF_TAPSCRIPT
                  then ExecuteWitnessScript cr checker stack script flags TAPSCRIPT
                         (execdata\<lparr>m_tapleaf_hash := tapleaf_hash, m_tapleaf_hash_init := True,
                                   m_validation_weight_left := int (length (ser_stack witness)) + VALIDATION_WEIGHT_OFFSET,
                                   m_validation_weight_left_init := True\<rparr>)
                  else if has_flag flags SCRIPT_VERIFY_DISCOURAGE_UPGRADABLE_TAPROOT_VERSION
                  then Fail SCRIPT_ERR_DISCOURAGE_UPGRADABLE_TAPROOT_VERSION
                  else Ok ())"

definition verify_taproot ::
  "Crypto \<Rightarrow> BaseSignatureChecker \<Rightarrow> bytes list \<Rightarrow> bytes \<Rightarrow> uint32 \<Rightarrow> unit script_result" where
  "verify_taproot cr checker witness program flags =
     (if \<not> has_flag flags SCRIPT_VERIFY_TAPROOT then Ok ()
      else if witness = [] then Fail SCRIPT_ERR_WITNESS_PROGRAM_WITNESS_EMPTY
      else case drop_annex cr (rev witness) of
             ([sig], execdata) \<Rightarrow> verify_taproot_key checker sig program execdata
           | (control # script # stack, execdata) \<Rightarrow>
               verify_taproot_script cr checker witness control script stack program flags execdata
           | ([], execdata) \<Rightarrow> Abort)"

definition VerifyWitnessProgram ::
  "Crypto \<Rightarrow> BaseSignatureChecker \<Rightarrow> bytes list \<Rightarrow> int \<Rightarrow> bytes \<Rightarrow> uint32 \<Rightarrow> bool \<Rightarrow> unit script_result" where
  "VerifyWitnessProgram cr checker witness witversion program flags is_p2sh =
     (if witversion = 0 then verify_witness_v0 cr checker witness program flags
      else if witversion = 1 \<and> length program = WITNESS_V1_TAPROOT_SIZE \<and> \<not> is_p2sh
      then verify_taproot cr checker witness program flags
      else if witversion = 2 \<and> length program = 32 \<and> \<not> is_p2sh
      then if length witness \<noteq> 4 then Fail SCRIPT_ERR_WITNESS_PROGRAM_MISMATCH
           else case CheckHybridSignature checker (witness ! 0) (witness ! 1) (witness ! 2) (witness ! 3) program of
                  None \<Rightarrow> Abort
                | Some ok \<Rightarrow> if \<not> ok then Fail SCRIPT_ERR_WITNESS_PROGRAM_MISMATCH else Ok ()
      else if has_flag flags SCRIPT_VERIFY_DISCOURAGE_UPGRADABLE_WITNESS_PROGRAM
      then Fail SCRIPT_ERR_DISCOURAGE_UPGRADABLE_WITNESS_PROGRAM
      else Ok ())"

section \<open>Script verification\<close>

text \<open>A result that is false at the top, or absent.\<close>

definition check_top :: "bytes list \<Rightarrow> unit script_result" where
  "check_top stack =
     (if stack = [] then Fail SCRIPT_ERR_EVAL_FALSE
      else if \<not> CastToBool (hd stack) then Fail SCRIPT_ERR_EVAL_FALSE
      else Ok ())"

text \<open>The stack cut to its bottom item, as \<open>resize(1)\<close> leaves a stack that is not empty.\<close>

definition resize_1 :: "bytes list \<Rightarrow> bytes list" where
  "resize_1 stack = [last stack]"

definition verify_bare_witness ::
  "Crypto \<Rightarrow> BaseSignatureChecker \<Rightarrow> CScript \<Rightarrow> CScript \<Rightarrow> bytes list \<Rightarrow> uint32 \<Rightarrow> bytes list \<Rightarrow>
   (bool \<times> bytes list) script_result" where
  "verify_bare_witness cr checker script_sig script_pubkey witness flags stack =
     (if has_flag flags SCRIPT_VERIFY_WITNESS
      then case IsWitnessProgram script_pubkey of
             None \<Rightarrow> Ok (False, stack)
           | Some (witnessversion, witnessprogram) \<Rightarrow>
               if length script_sig \<noteq> 0 then Fail SCRIPT_ERR_WITNESS_MALLEATED
               else sbind (VerifyWitnessProgram cr checker witness witnessversion witnessprogram flags False) (\<lambda>_.
                    Ok (True, resize_1 stack))
      else Ok (False, stack))"

definition verify_p2sh_witness ::
  "Crypto \<Rightarrow> BaseSignatureChecker \<Rightarrow> CScript \<Rightarrow> CScript \<Rightarrow> bytes list \<Rightarrow> uint32 \<Rightarrow> bool \<Rightarrow> bytes list \<Rightarrow>
   (bool \<times> bytes list) script_result" where
  "verify_p2sh_witness cr checker script_sig pubKey2 witness flags hadWitness stack =
     (if has_flag flags SCRIPT_VERIFY_WITNESS
      then case IsWitnessProgram pubKey2 of
             None \<Rightarrow> Ok (hadWitness, stack)
           | Some (witnessversion, witnessprogram) \<Rightarrow>
               if script_sig \<noteq> push_data pubKey2 then Fail SCRIPT_ERR_WITNESS_MALLEATED_P2SH
               else sbind (VerifyWitnessProgram cr checker witness witnessversion witnessprogram flags True) (\<lambda>_.
                    Ok (True, resize_1 stack))
      else Ok (hadWitness, stack))"

definition verify_p2sh ::
  "Crypto \<Rightarrow> BaseSignatureChecker \<Rightarrow> CScript \<Rightarrow> CScript \<Rightarrow> bytes list \<Rightarrow> uint32 \<Rightarrow> bytes list \<Rightarrow> bool \<Rightarrow> bytes list \<Rightarrow>
   (bool \<times> bytes list) script_result" where
  "verify_p2sh cr checker script_sig script_pubkey witness flags stackCopy hadWitness stack =
     (if has_flag flags SCRIPT_VERIFY_P2SH \<and> IsPayToScriptHash script_pubkey
      then if \<not> IsPushOnly script_sig then Fail SCRIPT_ERR_SIG_PUSHONLY
           else case stackCopy of
                  [] \<Rightarrow> Abort
                | pubKey2 # stack' \<Rightarrow>
                    sbind (EvalScript (eval_ctx cr checker flags BASE) stack' pubKey2 new_execdata) (\<lambda>(stack'', _).
                    sbind (check_top stack'') (\<lambda>_.
                    verify_p2sh_witness cr checker script_sig pubKey2 witness flags hadWitness stack''))
      else Ok (hadWitness, stack))"

definition verify_end :: "bytes list \<Rightarrow> uint32 \<Rightarrow> bool \<Rightarrow> bytes list \<Rightarrow> unit script_result" where
  "verify_end witness flags hadWitness stack =
     (if has_flag flags SCRIPT_VERIFY_CLEANSTACK \<and>
         \<not> (has_flag flags SCRIPT_VERIFY_P2SH \<and> has_flag flags SCRIPT_VERIFY_WITNESS)
      then Abort
      else if has_flag flags SCRIPT_VERIFY_CLEANSTACK \<and> length stack \<noteq> 1 then Fail SCRIPT_ERR_CLEANSTACK
      else if has_flag flags SCRIPT_VERIFY_WITNESS \<and> \<not> has_flag flags SCRIPT_VERIFY_P2SH then Abort
      else if has_flag flags SCRIPT_VERIFY_WITNESS \<and> \<not> hadWitness \<and> witness \<noteq> []
      then Fail SCRIPT_ERR_WITNESS_UNEXPECTED
      else Ok ())"

definition VerifyScript ::
  "Crypto \<Rightarrow> BaseSignatureChecker \<Rightarrow> CScript \<Rightarrow> CScript \<Rightarrow> bytes list \<Rightarrow> uint32 \<Rightarrow> unit script_result" where
  "VerifyScript cr checker script_sig script_pubkey witness flags =
     (if has_flag flags SCRIPT_VERIFY_SIGPUSHONLY \<and> \<not> IsPushOnly script_sig then Fail SCRIPT_ERR_SIG_PUSHONLY
      else sbind (EvalScript (eval_ctx cr checker flags BASE) [] script_sig new_execdata) (\<lambda>(stackCopy, _).
           sbind (EvalScript (eval_ctx cr checker flags BASE) stackCopy script_pubkey new_execdata) (\<lambda>(stack, _).
           sbind (check_top stack) (\<lambda>_.
           sbind (verify_bare_witness cr checker script_sig script_pubkey witness flags stack) (\<lambda>(hadWitness, stack1).
           sbind (verify_p2sh cr checker script_sig script_pubkey witness flags stackCopy hadWitness stack1)
             (\<lambda>(hadWitness', stack2). verify_end witness flags hadWitness' stack2))))))"

section \<open>The check of a transaction input\<close>

text \<open>
  The checker of a \<open>CScriptCheck\<close>: the transaction data are initialised from the outputs spent
  (\<open>CheckInputScripts\<close>). The cache of valid signatures answers as the verification itself.
\<close>

definition input_checker :: "CTransaction \<Rightarrow> CTxOut list \<Rightarrow> nat \<Rightarrow> PrecomputedTransactionData \<Rightarrow> TxChecker" where
  "input_checker tx spent nIn txdata =
     \<lparr>chk_txTo = tx, chk_mdb = ASSERT_FAIL, chk_nIn = of_nat nIn, chk_amount = nValue (spent ! nIn),
      chk_txdata = Some txdata\<rparr>"

definition run_script_check :: "Crypto \<Rightarrow> CTransaction \<Rightarrow> CTxOut list \<Rightarrow> nat \<Rightarrow> uint32 \<Rightarrow> unit script_result" where
  "run_script_check cr tx spent nIn flags =
     (case txdata_Init cr new_txdata tx spent False of
        None \<Rightarrow> Abort
      | Some txdata \<Rightarrow>
          VerifyScript cr (TransactionSignatureChecker cr (input_checker tx spent nIn txdata))
            (scriptSig (vin tx ! nIn)) (scriptPubKey (spent ! nIn)) (scriptWitness (vin tx ! nIn)) flags)"

section \<open>Fewer flags accept more\<close>

lemma eval_ctx_flags: "eval_ctx cr chk f v = (eval_ctx cr chk g v)\<lparr>ctx_flags := f\<rparr>"
  by (simp add: eval_ctx_def)

lemma EvalScript_flags:
  assumes "flags_subset f g" "EvalScript (eval_ctx cr chk g v) s script ed = Ok r"
  shows "EvalScript (eval_ctx cr chk f v) s script ed = Ok r"
  unfolding eval_ctx_flags [of cr chk f v g]
  by (rule EvalScript_weaker) (use assms in \<open>simp_all add: eval_ctx_def\<close>)

lemma op_success_scan_flags:
  assumes "flags_subset f g"
  shows "op_success_scan g pc = Ok b \<Longrightarrow> op_success_scan f pc = Ok b"
proof (induction pc rule: length_induct)
  case (1 pc)
  show ?case
  proof (cases "GetScriptOp pc")
    case (Some x)
    obtain opcode d pc' where x: "x = ((opcode, d), pc')" by (metis surj_pair)
    have "length pc' < length pc" using Some x GetScriptOp_shorter by simp
    with 1 Some x has_flag_mono [OF assms] show ?thesis
      by (auto simp: op_success_scan.simps [of _ pc] split: if_splits)
  qed (use 1 in \<open>auto simp: op_success_scan.simps [of _ pc] split: if_splits\<close>)
qed

lemma ExecuteWitnessScript_flags:
  assumes "flags_subset f g" "ExecuteWitnessScript cr chk s script g v ed = Ok ()"
  shows "ExecuteWitnessScript cr chk s script f v ed = Ok ()"
  using assms(2) unfolding ExecuteWitnessScript_def
  by (auto simp: op_success_scan_flags [OF assms(1)] EvalScript_flags [OF assms(1)] split: if_splits)

lemma verify_taproot_script_flags:
  assumes "flags_subset f g" "verify_taproot_script cr chk wit control script s prog g ed = Ok ()"
  shows "verify_taproot_script cr chk wit control script s prog f ed = Ok ()"
  using assms(2) has_flag_mono [OF assms(1)] unfolding verify_taproot_script_def
  by (auto simp: Let_def ExecuteWitnessScript_flags [OF assms(1)] split: if_splits option.splits)

lemma verify_taproot_flags:
  assumes "flags_subset f g" "verify_taproot cr chk wit prog g = Ok ()"
  shows "verify_taproot cr chk wit prog f = Ok ()"
  using assms(2) has_flag_mono [OF assms(1)] verify_taproot_script_flags [OF assms(1)] unfolding verify_taproot_def
  by (auto split: if_splits prod.splits list.splits)

lemma verify_witness_v0_flags:
  assumes "flags_subset f g" "verify_witness_v0 cr chk wit prog g = Ok ()"
  shows "verify_witness_v0 cr chk wit prog f = Ok ()"
  using assms(2) unfolding verify_witness_v0_def
  by (auto simp: ExecuteWitnessScript_flags [OF assms(1)] split: if_split_asm list.splits)

lemma VerifyWitnessProgram_flags:
  assumes "flags_subset f g" "VerifyWitnessProgram cr chk wit v prog g p2sh = Ok ()"
  shows "VerifyWitnessProgram cr chk wit v prog f p2sh = Ok ()"
proof -
  have "\<not> has_flag f SCRIPT_VERIFY_DISCOURAGE_UPGRADABLE_WITNESS_PROGRAM"
    if "\<not> has_flag g SCRIPT_VERIFY_DISCOURAGE_UPGRADABLE_WITNESS_PROGRAM"
    using that has_flag_mono [OF assms(1)] by blast
  with assms(2) show ?thesis
    unfolding VerifyWitnessProgram_def
    by (simp add: verify_witness_v0_flags [OF assms(1)] verify_taproot_flags [OF assms(1)] split: if_split_asm) blast
qed

text \<open>The flags that need each other are set together; otherwise \<open>VerifyScript\<close> asserts.\<close>

definition flags_consistent :: "uint32 \<Rightarrow> bool" where
  "flags_consistent f \<longleftrightarrow>
     (has_flag f SCRIPT_VERIFY_WITNESS \<longrightarrow> has_flag f SCRIPT_VERIFY_P2SH) \<and>
     (has_flag f SCRIPT_VERIFY_CLEANSTACK \<longrightarrow> has_flag f SCRIPT_VERIFY_P2SH \<and> has_flag f SCRIPT_VERIFY_WITNESS)"

lemma verify_end_no_witness:
  "flags_consistent f \<Longrightarrow> \<not> has_flag f SCRIPT_VERIFY_WITNESS \<Longrightarrow> verify_end wit f had s = Ok ()"
  by (auto simp: verify_end_def flags_consistent_def)

lemma verify_bare_witness_flags:
  assumes "flags_subset f g" "verify_bare_witness cr chk sig spk wit g s = Ok r"
  shows "verify_bare_witness cr chk sig spk wit f s =
    Ok (if has_flag f SCRIPT_VERIFY_WITNESS then r else (False, s))"
  using assms(2) has_flag_mono [OF assms(1)] VerifyWitnessProgram_flags [OF assms(1)]
  unfolding verify_bare_witness_def by (auto split: if_splits option.splits)

lemma verify_p2sh_witness_flags:
  assumes "flags_subset f g" "verify_p2sh_witness cr chk sig k wit g had s = Ok r"
  shows "\<exists>r'. verify_p2sh_witness cr chk sig k wit f had' s = Ok r'"
    and "has_flag f SCRIPT_VERIFY_WITNESS \<Longrightarrow> verify_p2sh_witness cr chk sig k wit f had s = Ok r"
  using assms(2) has_flag_mono [OF assms(1)] VerifyWitnessProgram_flags [OF assms(1)]
  unfolding verify_p2sh_witness_def
  by (auto split: if_splits option.splits) (rule exI [of _ True], simp)

lemma verify_p2sh_flags:
  assumes "flags_subset f g" "verify_p2sh cr chk sig spk wit g copy had s = Ok r"
  shows "\<exists>r'. verify_p2sh cr chk sig spk wit f copy had' s' = Ok r'"
    and "has_flag f SCRIPT_VERIFY_P2SH \<Longrightarrow> has_flag f SCRIPT_VERIFY_WITNESS \<Longrightarrow>
      verify_p2sh cr chk sig spk wit f copy had s = Ok r"
proof -
  have sub: "has_flag f x \<Longrightarrow> has_flag g x" for x by (rule has_flag_mono [OF assms(1)])
  have "(\<exists>r'. verify_p2sh cr chk sig spk wit f copy had' s' = Ok r') \<and>
    (has_flag f SCRIPT_VERIFY_P2SH \<longrightarrow> has_flag f SCRIPT_VERIFY_WITNESS \<longrightarrow>
      verify_p2sh cr chk sig spk wit f copy had s = Ok r)"
  proof (cases "has_flag f SCRIPT_VERIFY_P2SH \<and> IsPayToScriptHash spk")
    case True
    with sub have g: "has_flag g SCRIPT_VERIFY_P2SH \<and> IsPayToScriptHash spk" by blast
    then have p: "IsPushOnly sig" using assms(2) unfolding verify_p2sh_def by (auto split: if_splits)
    with g assms(2) obtain k copy' where k: "copy = k # copy'" unfolding verify_p2sh_def by (cases copy) auto
    with g p assms(2) obtain s1 ed where
      e: "EvalScript (eval_ctx cr chk g BASE) copy' k new_execdata = Ok (s1, ed)" "check_top s1 = Ok ()"
        "verify_p2sh_witness cr chk sig k wit g had s1 = Ok r"
      unfolding verify_p2sh_def by auto
    have "verify_p2sh cr chk sig spk wit f copy h s2 = verify_p2sh_witness cr chk sig k wit f h s1" for h s2
      using True p EvalScript_flags [OF assms(1) e(1)] e(2) by (simp add: verify_p2sh_def k)
    with verify_p2sh_witness_flags [OF assms(1) e(3)] show ?thesis by simp
  next
    case False
    then have "verify_p2sh cr chk sig spk wit f copy h s2 = Ok (h, s2)" for h s2 by (auto simp: verify_p2sh_def)
    moreover have "r = (had, s)" if "has_flag f SCRIPT_VERIFY_P2SH"
      using that False assms(2) by (auto simp: verify_p2sh_def)
    ultimately show ?thesis by simp
  qed
  then show "\<exists>r'. verify_p2sh cr chk sig spk wit f copy had' s' = Ok r'"
    and "has_flag f SCRIPT_VERIFY_P2SH \<Longrightarrow> has_flag f SCRIPT_VERIFY_WITNESS \<Longrightarrow>
      verify_p2sh cr chk sig spk wit f copy had s = Ok r" by blast+
qed

lemma VerifyScript_OkE:
  assumes "VerifyScript cr chk sig spk wit flags = Ok ()"
  obtains copy e1 stack e2 had1 s1 had2 s2 where
    "has_flag flags SCRIPT_VERIFY_SIGPUSHONLY \<longrightarrow> IsPushOnly sig"
    "EvalScript (eval_ctx cr chk flags BASE) [] sig new_execdata = Ok (copy, e1)"
    "EvalScript (eval_ctx cr chk flags BASE) copy spk new_execdata = Ok (stack, e2)"
    "check_top stack = Ok ()"
    "verify_bare_witness cr chk sig spk wit flags stack = Ok (had1, s1)"
    "verify_p2sh cr chk sig spk wit flags copy had1 s1 = Ok (had2, s2)"
    "verify_end wit flags had2 s2 = Ok ()"
proof -
  have push: "has_flag flags SCRIPT_VERIFY_SIGPUSHONLY \<longrightarrow> IsPushOnly sig"
    using assms by (simp add: VerifyScript_def split: if_split_asm)
  then have body: "sbind (EvalScript (eval_ctx cr chk flags BASE) [] sig new_execdata) (\<lambda>(stackCopy, _).
       sbind (EvalScript (eval_ctx cr chk flags BASE) stackCopy spk new_execdata) (\<lambda>(stack, _).
       sbind (check_top stack) (\<lambda>_.
       sbind (verify_bare_witness cr chk sig spk wit flags stack) (\<lambda>(hadWitness, stack1).
       sbind (verify_p2sh cr chk sig spk wit flags stackCopy hadWitness stack1)
         (\<lambda>(hadWitness', stack2). verify_end wit flags hadWitness' stack2))))) = Ok ()"
    using assms unfolding VerifyScript_def by (simp split: if_split_asm)
  then obtain copy e1 where 1: "EvalScript (eval_ctx cr chk flags BASE) [] sig new_execdata = Ok (copy, e1)"
    by auto
  from body obtain stack e2 where
    2: "EvalScript (eval_ctx cr chk flags BASE) copy spk new_execdata = Ok (stack, e2)"
    by (auto simp: 1)
  from body have 3: "check_top stack = Ok ()" by (auto simp: 1 2)
  from body obtain had1 s1 where 4: "verify_bare_witness cr chk sig spk wit flags stack = Ok (had1, s1)"
    by (auto simp: 1 2 3)
  from body obtain had2 s2 where 5: "verify_p2sh cr chk sig spk wit flags copy had1 s1 = Ok (had2, s2)"
    by (auto simp: 1 2 3 4)
  from body have "verify_end wit flags had2 s2 = Ok ()" by (simp add: 1 2 3 4 5)
  from that [OF push 1 2 3 4 5 this] show thesis .
qed

lemma VerifyScript_flags:
  assumes "flags_subset f g" "flags_consistent f" "VerifyScript cr chk sig spk wit g = Ok ()"
  shows "VerifyScript cr chk sig spk wit f = Ok ()"
  using assms(3)
proof (rule VerifyScript_OkE)
  fix copy e1 stack e2 had1 s1 had2 s2
  assume a: "has_flag g SCRIPT_VERIFY_SIGPUSHONLY \<longrightarrow> IsPushOnly sig"
    "EvalScript (eval_ctx cr chk g BASE) [] sig new_execdata = Ok (copy, e1)"
    "EvalScript (eval_ctx cr chk g BASE) copy spk new_execdata = Ok (stack, e2)"
    "check_top stack = Ok ()"
    "verify_bare_witness cr chk sig spk wit g stack = Ok (had1, s1)"
    "verify_p2sh cr chk sig spk wit g copy had1 s1 = Ok (had2, s2)"
    "verify_end wit g had2 s2 = Ok ()"
  have push: "\<not> (has_flag f SCRIPT_VERIFY_SIGPUSHONLY \<and> \<not> IsPushOnly sig)"
    using a(1) has_flag_mono [OF assms(1)] by blast
  note ev = EvalScript_flags [OF assms(1) a(2)] EvalScript_flags [OF assms(1) a(3)]
  note bare = verify_bare_witness_flags [OF assms(1) a(5)]
  show ?thesis
  proof (cases "has_flag f SCRIPT_VERIFY_WITNESS")
    case True
    then have p: "has_flag f SCRIPT_VERIFY_P2SH" using assms(2) by (simp add: flags_consistent_def)
    have "verify_end wit f had2 s2 = Ok ()"
      using a(7) True p has_flag_mono [OF assms(1)] by (auto simp: verify_end_def split: if_splits)
    with push ev a(4) bare True verify_p2sh_flags(2) [OF assms(1) a(6) p True] show ?thesis
      by (simp add: VerifyScript_def)
  next
    case False
    obtain h s where "verify_p2sh cr chk sig spk wit f copy False stack = Ok (h, s)"
      using verify_p2sh_flags(1) [OF assms(1) a(6)] by (metis surj_pair)
    with push ev a(4) bare False verify_end_no_witness [OF assms(2) False] show ?thesis
      by (simp add: VerifyScript_def)
  qed
qed

section \<open>Verification does not abort\<close>

lemma op_success_scan_no_Abort: "op_success_scan flags pc \<noteq> Abort"
proof (induction pc rule: length_induct)
  case (1 pc)
  show ?case
  proof (cases "GetScriptOp pc")
    case (Some x)
    obtain opcode d pc' where x: "x = ((opcode, d), pc')" by (metis surj_pair)
    have "length pc' < length pc" using Some x GetScriptOp_shorter by simp
    with 1 Some x show ?thesis by (auto simp: op_success_scan.simps [of _ pc])
  qed (auto simp: op_success_scan.simps [of _ pc])
qed

lemma ExecuteWitnessScript_no_Abort:
  assumes "checker_safe (eval_ctx cr chk flags v)" "v \<noteq> TAPROOT"
    and "v = TAPSCRIPT \<Longrightarrow> m_validation_weight_left_init ed \<and> m_annex_init ed \<and> m_tapleaf_hash_init ed"
  shows "ExecuteWitnessScript cr chk s script flags v ed \<noteq> Abort"
proof -
  have "EvalScript (eval_ctx cr chk flags v) s script ed \<noteq> Abort"
    by (rule EvalScript_safe [OF assms(1)]) (use assms(2,3) in \<open>simp_all add: eval_ctx_def\<close>)
  then show ?thesis by (auto simp: ExecuteWitnessScript_def op_success_scan_no_Abort)
qed

lemma taproot_no_Abort:
  assumes "chk_ok chk" "taproot_ready chk" "length program = 32"
  shows "verify_taproot cr (TransactionSignatureChecker cr chk) wit program flags \<noteq> Abort"
proof -
  let ?c = "TransactionSignatureChecker cr chk"
  obtain s ed where a: "drop_annex cr (rev wit) = (s, ed)" by (cases "drop_annex cr (rev wit)")
  have ed: "m_annex_init ed" using a by (auto simp: drop_annex_def split: if_splits)
  have s: "s \<noteq> []" if "wit \<noteq> []"
    using a that by (cases wit rule: rev_cases) (auto simp: drop_annex_def split: if_splits)
  have key: "verify_taproot_key ?c sig program ed \<noteq> Abort" for sig
    using Schnorr_no_Abort(1) [OF assms(1,2) ed _ assms(3), of TAPROOT]
    by (auto simp: verify_taproot_key_def TransactionSignatureChecker_def split: option.splits sum.splits)
  have script: "verify_taproot_script cr ?c wit control script st program flags ed \<noteq> Abort" for control script st
  proof -
    have "ExecuteWitnessScript cr ?c st script flags TAPSCRIPT
        (ed\<lparr>m_tapleaf_hash := h, m_tapleaf_hash_init := True, m_validation_weight_left := w,
            m_validation_weight_left_init := True\<rparr>) \<noteq> Abort" for h w
      by (rule ExecuteWitnessScript_no_Abort [OF tx_checker_safe [OF assms(1)]]) (use ed assms(2) in simp_all)
    then show ?thesis
      using assms(3)
      by (auto simp: verify_taproot_script_def Let_def VerifyTaprootCommitment_def ComputeTaprootMerkleRoot_def
          split: option.splits)
  qed
  show ?thesis
    using key script s by (auto simp: verify_taproot_def a split: list.splits)
qed

lemma VerifyWitnessProgram_no_Abort:
  assumes "chk_ok chk" "v = 1 \<Longrightarrow> length program = 32 \<Longrightarrow> \<not> p2sh \<Longrightarrow> wit \<noteq> [] \<Longrightarrow> taproot_ready chk"
  shows "VerifyWitnessProgram cr (TransactionSignatureChecker cr chk) wit v program flags p2sh \<noteq> Abort"
proof -
  let ?c = "TransactionSignatureChecker cr chk"
  have v0: "verify_witness_v0 cr ?c wit program flags \<noteq> Abort"
    using ExecuteWitnessScript_no_Abort [OF tx_checker_safe [OF assms(1)], of WITNESS_V0]
    by (simp add: verify_witness_v0_def split: list.splits)
  have tap: "verify_taproot cr ?c wit program flags \<noteq> Abort" if "v = 1" "length program = 32" "\<not> p2sh"
    using taproot_no_Abort [OF assms(1) assms(2) [OF that]] that by (cases "wit = []") (auto simp: verify_taproot_def)
  have hyb: "CheckHybridSignature ?c e ep m mp prog \<noteq> None" for e ep m mp prog
    using Hybrid_no_Abort [OF assms(1)] by (simp add: TransactionSignatureChecker_def)
  show ?thesis
    using v0 tap by (auto simp: VerifyWitnessProgram_def WITNESS_V1_TAPROOT_SIZE_def hyb split: option.splits)
qed

lemma eval_ctx_select [simp]:
  "ctx_flags (eval_ctx cr chk flags v) = flags" "ctx_sigversion (eval_ctx cr chk flags v) = v"
  "ctx_checker (eval_ctx cr chk flags v) = chk" "ctx_crypto (eval_ctx cr chk flags v) = cr"
  by (simp_all add: eval_ctx_def)

lemma GetScriptOp_op: "opcode > OP_PUSHDATA4 \<Longrightarrow> GetScriptOp (opcode # pc) = Some ((opcode, []), pc)"
proof -
  assume "opcode > OP_PUSHDATA4"
  then have "(opcode \<le> OP_PUSHDATA4) = False" by simp
  then show ?thesis unfolding GetScriptOp_def by (simp only: list.case if_False)
qed

text \<open>The script of a script hash output fails on an empty stack.\<close>

lemma p2sh_empty_stack:
  assumes "IsPayToScriptHash spk"
  shows "EvalScript (eval_ctx cr chk flags BASE) [] spk ed = Fail SCRIPT_ERR_INVALID_STACK_OPERATION"
proof -
  obtain pc where spk: "spk = OP_HASH160 # pc" "length spk = 23"
    using assms by (cases spk) (auto simp: IsPayToScriptHash_def)
  let ?ctx = "eval_ctx cr chk flags BASE"
  have "eval_step ?ctx spk (eval_start [] spk ed) = Fail SCRIPT_ERR_INVALID_STACK_OPERATION"
    by (simp add: eval_step_def spk(1) GetScriptOp_op Let_def eval_start_def counts_op_def op_disabled_def
        MAX_OPS_PER_SCRIPT_def MAX_SCRIPT_ELEMENT_SIZE_def eval_instruction_def all_true_def cond_new_def exec_op_def
        on_stack_def op_digest_def)
  then have "eval_loop ?ctx spk (eval_start [] spk ed) = Fail SCRIPT_ERR_INVALID_STACK_OPERATION"
    by (subst eval_loop.simps) (simp add: spk(1))
  moreover have "\<not> length spk > MAX_SCRIPT_SIZE" by (simp add: spk(2) MAX_SCRIPT_SIZE_def)
  ultimately show ?thesis by (simp add: EvalScript_def)
qed

lemma VerifyScript_no_Abort:
  assumes "chk_ok chk" "flags_consistent flags"
    and "\<And>program. IsWitnessProgram spk = Some (1, program) \<Longrightarrow> length program = 32 \<Longrightarrow> wit \<noteq> [] \<Longrightarrow> taproot_ready chk"
  shows "VerifyScript cr (TransactionSignatureChecker cr chk) sig spk wit flags \<noteq> Abort"
proof -
  let ?c = "TransactionSignatureChecker cr chk" and ?ctx = "eval_ctx cr (TransactionSignatureChecker cr chk) flags BASE"
  have ev: "EvalScript ?ctx s script new_execdata \<noteq> Abort" for s script
    by (rule EvalScript_safe [OF tx_checker_safe [OF assms(1)]]) (simp_all add: eval_ctx_def)
  have bare: "verify_bare_witness cr ?c sig spk wit flags s \<noteq> Abort" for s
    using VerifyWitnessProgram_no_Abort [OF assms(1), of _ _ False] assms(3)
    by (auto simp: verify_bare_witness_def split: option.splits)
  have p2sh_wit: "verify_p2sh_witness cr ?c sig k wit flags had s \<noteq> Abort" for k had s
    using VerifyWitnessProgram_no_Abort [OF assms(1), of _ _ True]
    by (auto simp: verify_p2sh_witness_def split: option.splits)
  have top: "check_top s \<noteq> Abort" for s by (simp add: check_top_def)
  have p2sh: "verify_p2sh cr ?c sig spk wit flags copy had s \<noteq> Abort"
    if "EvalScript ?ctx copy spk new_execdata = Ok r" for copy had s r
  proof (cases copy)
    case Nil
    with that p2sh_empty_stack [of spk] have "\<not> IsPayToScriptHash spk" by auto
    then show ?thesis by (simp add: verify_p2sh_def)
  qed (auto simp: verify_p2sh_def ev p2sh_wit top)
  have fin: "verify_end wit flags had s \<noteq> Abort" for had s
    using assms(2) by (auto simp: verify_end_def flags_consistent_def)
  show ?thesis
    unfolding VerifyScript_def by (auto simp: ev bare top p2sh fin split: prod.splits)
qed

lemma IsWitnessProgram_taproot:
  assumes "IsWitnessProgram spk = Some (1, program)" "length program = 32"
  shows "length spk = 34" "spk ! 0 = OP_1"
proof -
  have d: "DecodeOP_N (spk ! 0) = Some 1" "program = drop 2 spk" "\<not> length spk < 4"
    using assms(1) by (auto simp: IsWitnessProgram_def split: if_split_asm)
  then show "length spk = 34" using assms(2) by simp
  from d(1) have "uint (spk ! 0) = 81" by (simp add: DecodeOP_N_def split: if_split_asm)
  then have "uint (spk ! 0) = uint OP_1" by simp
  then show "spk ! 0 = OP_1" by (rule word_uint_eqI)
qed

lemma run_script_check_no_Abort:
  assumes "nIn < length (vin tx)" "length spent = length (vin tx)" "nIn < 2 ^ 32" "nValue (spent ! nIn) \<ge> 0"
    and "flags_consistent flags"
  shows "run_script_check cr tx spent nIn flags \<noteq> Abort"
proof -
  have ne: "spent \<noteq> []" using assms(1,2) by auto
  have "txdata_Init cr new_txdata tx spent False \<noteq> None"
    using assms(2) by (simp add: txdata_Init_def new_txdata_def Let_def split: prod.split)
  then obtain td where td: "txdata_Init cr new_txdata tx spent False = Some td" by blast
  let ?chk = "input_checker tx spent nIn td"
  have n: "unat (of_nat nIn :: uint32) = nIn" using assms(3) by (simp add: unat_of_nat)
  have ok: "chk_ok ?chk" using assms(1,4) n by (simp add: chk_ok_def input_checker_def)
  have tap: "taproot_ready ?chk"
    if "IsWitnessProgram (scriptPubKey (spent ! nIn)) = Some (1, program)" "length program = 32"
      "scriptWitness (vin tx ! nIn) \<noteq> []" for program
  proof -
    have "snd (init_scan (new_txdata\<lparr>m_spent_outputs := spent, m_spent_outputs_ready := True\<rparr>) 0 (vin tx) (False, False))"
      by (rule init_scan_taproot [of _ nIn]) (use that assms(1) IsWitnessProgram_taproot [OF that(1,2)] in simp_all)
    with txdata_Init_right [OF td] ne show ?thesis by (simp add: taproot_ready_def input_checker_def)
  qed
  show ?thesis
    using VerifyScript_no_Abort [OF ok assms(5) tap] by (simp add: run_script_check_def td)
qed

section \<open>Running fixed scripts\<close>

lemma eval_loop_step: "pc \<noteq> [] \<Longrightarrow> eval_step ctx pc st = Ok (pc', st') \<Longrightarrow> eval_loop ctx pc st = eval_loop ctx pc' st'"
  by (simp add: eval_loop.simps [of _ pc])

lemma GetScriptOp_push:
  assumes "length d < 76"
  shows "GetScriptOp (of_nat (length d) # d @ pc) = Some ((of_nat (length d), d), pc)"
proof -
  have u: "unat (of_nat (length d) :: uint8) = length d" using assms by (simp add: unat_of_nat)
  then have "(of_nat (length d) :: uint8) < OP_PUSHDATA1" "(of_nat (length d) :: uint8) \<le> OP_PUSHDATA4"
    using assms by (simp_all add: word_less_nat_alt word_le_nat_alt)
  then show ?thesis unfolding GetScriptOp_def using u by simp
qed

lemma not_disabled: "op \<le> OP_16 \<Longrightarrow> \<not> op_disabled op" "op \<le> OP_16 \<Longrightarrow> \<not> counts_op ctx op" "op \<le> OP_16 \<Longrightarrow> op \<noteq> OP_CODESEPARATOR"
  by (auto simp: op_disabled_def counts_op_def)

text \<open>A push of at least two bytes, which is the shortest possible.\<close>

lemma push_step:
  assumes "all_true (st_vfExec st)" "2 \<le> length d" "length d \<le> 75"
    and "length (st_stack st) + length (st_altstack st) < MAX_STACK_SIZE"
  shows "eval_step ctx (of_nat (length d) # d @ pc) st =
    Ok (pc, st\<lparr>st_stack := d # st_stack st, st_opcode_pos := st_opcode_pos st + 1\<rparr>)"
proof -
  let ?n = "of_nat (length d) :: uint8"
  have u: "unat ?n = length d" using assms(3) by (simp add: unat_of_nat)
  then have n: "?n \<le> OP_PUSHDATA4" "?n \<le> OP_16" using assms(3) by (simp_all add: word_le_nat_alt)
  have "CheckMinimalPush d ?n = Some True"
    using n(1) u assms(2,3) by (auto simp: CheckMinimalPush_def)
  then have i: "eval_instruction ctx ?n d pc st = Ok (st\<lparr>st_stack := d # st_stack st\<rparr>)"
    using assms(1) n(1) by (simp add: eval_instruction_def op_push_def on_stack_def)
  have d: "length d \<le> MAX_SCRIPT_ELEMENT_SIZE" using assms(3) by (simp add: MAX_SCRIPT_ELEMENT_SIZE_def)
  show ?thesis
    using GetScriptOp_push [of d pc] not_disabled [OF n(2)] i d assms(3,4) by (simp add: eval_step_def Let_def)
qed

text \<open>The version number that starts a witness program.\<close>

lemma version_step:
  assumes "DecodeOP_N op = Some v" "all_true (st_vfExec st)"
    and "length (st_stack st) + length (st_altstack st) < MAX_STACK_SIZE"
  shows "eval_step ctx (op # pc) st =
    Ok (pc, st\<lparr>st_stack := scriptnum_serialize v # st_stack st, st_opcode_pos := st_opcode_pos st + 1\<rparr>)"
proof (cases "op = OP_0")
  case True
  have "v = 0" using assms(1) True by (simp add: DecodeOP_N_def)
  moreover have "GetScriptOp (OP_0 # pc) = Some ((OP_0, []), pc)" using GetScriptOp_push [of "[]" pc] by simp
  ultimately show ?thesis
    using True assms(2,3) not_disabled [of OP_0]
    by (simp add: eval_step_def Let_def eval_instruction_def op_push_def on_stack_def CheckMinimalPush_def
        scriptnum_serialize_def)
next
  case False
  then have op: "OP_1 \<le> op" "op \<le> OP_16" "v = uint op - (uint OP_1 - 1)"
    using assms(1) by (auto simp: DecodeOP_N_def split: if_split_asm)
  then have gt: "op > OP_PUSHDATA4" by (auto intro: less_le_trans [of _ "OP_1"])
  then have "\<not> op \<le> OP_PUSHDATA4" by simp
  then have "eval_instruction ctx op [] pc st = Ok (st\<lparr>st_stack := scriptnum_serialize v # st_stack st\<rparr>)"
    using op assms(2)
    by (simp add: eval_instruction_def exec_op_def on_stack_def op_push_number_def)
  then show ?thesis
    using GetScriptOp_op [OF gt, of pc] not_disabled [OF op(2)] assms(3)
    by (simp add: eval_step_def Let_def)
qed

text \<open>A witness program leaves itself on the stack, above its version.\<close>

lemma EvalScript_witness_program:
  assumes "IsWitnessProgram spk = Some (v, program)"
  shows "\<exists>ed'. EvalScript (eval_ctx cr chk flags BASE) [] spk ed = Ok ([program, scriptnum_serialize v], ed')"
proof -
  let ?ctx = "eval_ctx cr chk flags BASE"
  have a: "DecodeOP_N (spk ! 0) = Some v" "program = drop 2 spk" "\<not> length spk < 4" "\<not> length spk > 42"
      "unat (spk ! 1) + 2 = length spk"
    using assms by (auto simp: IsWitnessProgram_def split: if_split_asm)
  have len: "length program = unat (spk ! 1)" "2 \<le> length program" "length program \<le> 75" using a by simp_all
  have n: "spk ! 1 = of_nat (length program)" by (simp add: len(1))
  have spk: "spk = spk ! 0 # of_nat (length program) # program @ []"
    using a(2,3) n by (cases spk; cases "tl spk") auto
  have st: "all_true (st_vfExec (eval_start [] spk ed))" by (simp add: eval_start_def cond_new_def all_true_def)
  define s where "s = eval_start [] spk ed"
  have s: "st_stack s = []" "st_altstack s = []" "st_opcode_pos s = 0" "all_true (st_vfExec s)"
    using st by (simp_all add: s_def eval_start_def)
  have "eval_loop ?ctx (spk ! 0 # of_nat (length program) # program @ []) s =
      eval_loop ?ctx [] (s\<lparr>st_stack := [program, scriptnum_serialize v], st_opcode_pos := 2\<rparr>)"
    using s len(2,3)
    by (simp add: eval_loop_step [OF _ version_step [OF a(1)]] eval_loop_step [OF _ push_step [where pc = "[]", simplified]]
        MAX_STACK_SIZE_def)
  then have "eval_loop ?ctx spk s = Ok (s\<lparr>st_stack := [program, scriptnum_serialize v], st_opcode_pos := 2\<rparr>)"
    unfolding spk [symmetric] by (simp add: eval_loop.simps [of _ "[]"])
  moreover have "\<not> length spk > MAX_SCRIPT_SIZE" using a(4) by (simp add: MAX_SCRIPT_SIZE_def)
  ultimately show ?thesis
    by (simp add: EvalScript_def s_def eval_start_def cond_empty_def cond_new_def)
qed


lemma EvalScript_empty: "v \<noteq> TAPROOT \<Longrightarrow> \<exists>ed'. EvalScript (eval_ctx cr chk flags v) stack [] ed = Ok (stack, ed')"
  by (simp add: EvalScript_def eval_loop.simps eval_start_def cond_empty_def cond_new_def)

text \<open>An output that is a witness program is spent by what the rules of the program accept, and by an empty scriptSig.\<close>

lemma VerifyScript_witness:
  assumes "IsWitnessProgram spk = Some (v, program)"
    and "has_flag flags SCRIPT_VERIFY_P2SH" "has_flag flags SCRIPT_VERIFY_WITNESS"
  shows "VerifyScript cr chk script_sig spk witness flags = Ok () \<longleftrightarrow>
    script_sig = [] \<and> CastToBool program \<and> VerifyWitnessProgram cr chk witness v program flags False = Ok ()"
proof -
  obtain ed where spk: "EvalScript (eval_ctx cr chk flags BASE) [] spk new_execdata = Ok ([program, scriptnum_serialize v], ed)"
    using EvalScript_witness_program [OF assms(1)] by blast
  obtain ed' where sig: "EvalScript (eval_ctx cr chk flags BASE) [] [] new_execdata = Ok ([], ed')"
    using EvalScript_empty [of BASE] by blast
  have "\<not> IsPayToScriptHash spk"
    using assms(1) by (auto simp: IsPayToScriptHash_def IsWitnessProgram_def DecodeOP_N_def split: if_split_asm)
  then have p2sh: "verify_p2sh cr chk sg spk witness flags sc h st = Ok (h, st)" for sg sc h st
    by (simp add: verify_p2sh_def)
  have empty: "VerifyScript cr chk [] spk witness flags = Ok () \<longleftrightarrow>
      CastToBool program \<and> VerifyWitnessProgram cr chk witness v program flags False = Ok ()"
    using assms spk sig
    by (cases "VerifyWitnessProgram cr chk witness v program flags False")
      (auto simp: VerifyScript_def p2sh check_top_def verify_bare_witness_def verify_end_def resize_1_def IsPushOnly.simps)
  have "VerifyScript cr chk script_sig spk witness flags \<noteq> Ok ()" if "script_sig \<noteq> []"
    using that assms by (auto simp: VerifyScript_def verify_bare_witness_def split: if_split_asm)
  with empty show ?thesis by blast
qed

section \<open>Spending a hybrid output\<close>

definition hybrid_spent :: "Crypto \<Rightarrow> CTransaction \<Rightarrow> nat \<Rightarrow> int \<Rightarrow> bytes \<Rightarrow> bool" where
  "hybrid_spent cr tx nIn amount program \<longleftrightarrow>
     (\<exists>ecdsa_sig ecdsa_pub mldsa_sig mldsa_pub sighash.
        scriptWitness (vin tx ! nIn) = [ecdsa_sig @ [SIGHASH_ALL], ecdsa_pub, mldsa_sig, mldsa_pub] \<and>
        length ecdsa_pub = 33 \<and> length mldsa_pub = 1312 \<and> pubkey_IsValid ecdsa_pub \<and>
        SHAKE256 cr (ecdsa_pub @ mldsa_pub) = program \<and>
        SignatureHash cr (hybrid_script_code program) tx nIn (uint SIGHASH_ALL) amount WITNESS_V0 None = Some sighash \<and>
        ECDSA_Verify cr ecdsa_pub sighash ecdsa_sig \<and>
        MLDSA_Verify cr mldsa_sig sighash (ascii ''BitcoBoost-bb1z-v2'') mldsa_pub)"

lemma length_4: "length xs = 4 \<longleftrightarrow> (\<exists>a b c d. xs = [a, b, c, d])"
  by (auto simp: eval_nat_numeral length_Suc_conv)

lemma hybrid_program:
  assumes "length program = 32"
  shows "IsWitnessProgram (hybrid_script_code program) = Some (2, program)" "hybrid_script_code program = OP_2 # 0x20 # program"
proof -
  have "push_data program = 0x20 # program" using assms by (simp add: push_data_def)
  then show s: "hybrid_script_code program = OP_2 # 0x20 # program" by (simp add: hybrid_script_code_def)
  show "IsWitnessProgram (hybrid_script_code program) = Some (2, program)"
    unfolding s using assms by (simp add: IsWitnessProgram_def DecodeOP_N_def)
qed

lemma hybrid_check:
  assumes "length program = 32" "chk_txTo chk = tx" "unat (chk_nIn chk) = nIn" "chk_amount chk = amount" "0 \<le> amount"
    and "chk_txdata chk = Some td" "txdata_right cr tx td"
  shows "(length w = 4 \<and> tx_CheckHybridSignature cr chk (w ! 0) (w ! 1) (w ! 2) (w ! 3) program = Some True) \<longleftrightarrow>
    (\<exists>ecdsa_sig ecdsa_pub mldsa_sig mldsa_pub sighash.
        w = [ecdsa_sig @ [SIGHASH_ALL], ecdsa_pub, mldsa_sig, mldsa_pub] \<and>
        length ecdsa_pub = 33 \<and> length mldsa_pub = 1312 \<and> pubkey_IsValid ecdsa_pub \<and>
        SHAKE256 cr (ecdsa_pub @ mldsa_pub) = program \<and>
        SignatureHash cr (hybrid_script_code program) tx nIn (uint SIGHASH_ALL) amount WITNESS_V0 None = Some sighash \<and>
        ECDSA_Verify cr ecdsa_pub sighash ecdsa_sig \<and>
        MLDSA_Verify cr mldsa_sig sighash (ascii ''BitcoBoost-bb1z-v2'') mldsa_pub)" (is "?l = ?r")
proof
  note cached = SignatureHash_cached [OF assms(7)]
  assume ?l
  then obtain a b c d where w: "w = [a, b, c, d]" and "tx_CheckHybridSignature cr chk a b c d program = Some True"
    unfolding length_4 by auto
  then obtain sighash where h: "length b = 33" "length d = 1312" "SHAKE256 cr (b @ d) = program" "pubkey_IsValid b"
      "SignatureHash cr (hybrid_script_code program) tx nIn (uint SIGHASH_ALL) amount WITNESS_V0 None = Some sighash"
      "a \<noteq> []" "last a = SIGHASH_ALL" "ECDSA_Verify cr b sighash (butlast a)"
      "MLDSA_Verify cr c sighash (ascii ''BitcoBoost-bb1z-v2'') d"
    using assms by (auto simp: tx_CheckHybridSignature_def cached bind_eq_Some_conv split: if_split_asm)
  have "a = butlast a @ [SIGHASH_ALL]" using h(6,7) by (metis append_butlast_last_id)
  with w h show ?r by blast
next
  assume ?r
  then show ?l using assms by (auto simp: tx_CheckHybridSignature_def SignatureHash_cached [OF assms(7)])
qed

lemma txdata_Init_total: "length spent = length (vin tx) \<or> spent = [] \<Longrightarrow> txdata_Init cr new_txdata tx spent False \<noteq> None"
  by (auto simp: txdata_Init_def new_txdata_def Let_def split: prod.splits)

lemma unat_nIn: "n < length (vin tx) \<Longrightarrow> length (vin tx) < 2 ^ 32 \<Longrightarrow> unat (of_nat n :: uint32) = n"
  by (simp add: unat_of_nat)

lemma run_hybrid:
  assumes "nIn < length (vin tx)" "length (vin tx) < 2 ^ 32" "length spent = length (vin tx)" "0 \<le> nValue (spent ! nIn)"
    and "scriptPubKey (spent ! nIn) = hybrid_script_code program" "length program = 32"
    and "has_flag flags SCRIPT_VERIFY_P2SH" "has_flag flags SCRIPT_VERIFY_WITNESS"
  shows "run_script_check cr tx spent nIn flags = Ok () \<longleftrightarrow>
    scriptSig (vin tx ! nIn) = [] \<and> CastToBool program \<and> hybrid_spent cr tx nIn (nValue (spent ! nIn)) program"
proof -
  obtain td where td: "txdata_Init cr new_txdata tx spent False = Some td" using txdata_Init_total assms(3) by blast
  define chk where "chk = input_checker tx spent nIn td"
  have chk: "chk_txTo chk = tx" "unat (chk_nIn chk) = nIn" "chk_amount chk = nValue (spent ! nIn)" "chk_txdata chk = Some td"
    by (simp_all add: chk_def input_checker_def unat_nIn [OF assms(1,2)])
  let ?w = "scriptWitness (vin tx ! nIn)"
  have v: "VerifyWitnessProgram cr (TransactionSignatureChecker cr chk) ?w 2 program flags False = Ok () \<longleftrightarrow>
      length ?w = 4 \<and> tx_CheckHybridSignature cr chk (?w ! 0) (?w ! 1) (?w ! 2) (?w ! 3) program = Some True"
    using assms(6) by (simp add: VerifyWitnessProgram_def TransactionSignatureChecker_def split: option.splits)
  have h: "hybrid_spent cr tx nIn (nValue (spent ! nIn)) program \<longleftrightarrow>
      length ?w = 4 \<and> tx_CheckHybridSignature cr chk (?w ! 0) (?w ! 1) (?w ! 2) (?w ! 3) program = Some True"
    unfolding hybrid_spent_def
    by (rule hybrid_check [OF assms(6) chk(1-3) assms(4) chk(4) txdata_Init_right(1) [OF td], symmetric])
  show ?thesis
    unfolding run_script_check_def td option.case chk_def [symmetric] assms(5)
      VerifyScript_witness [OF hybrid_program(1) [OF assms(6)] assms(7,8)] v h ..
qed

section \<open>Spending a key hash\<close>

lemma eval_loop_bind: "pc \<noteq> [] \<Longrightarrow> eval_loop ctx pc st = sbind (eval_step ctx pc st) (\<lambda>(pc', st'). eval_loop ctx pc' st')"
  by (cases "eval_step ctx pc st") (auto simp: eval_loop.simps [of _ pc])

lemma op_step:
  assumes "opcode > OP_16" "\<not> op_disabled opcode" "opcode \<noteq> OP_CODESEPARATOR" "all_true (st_vfExec st)"
    and "ctx_sigversion ctx = WITNESS_V0" "st_nOpCount st < MAX_OPS_PER_SCRIPT"
  shows "eval_step ctx (opcode # pc) st =
    sbind (exec_op ctx True opcode pc (st\<lparr>st_nOpCount := st_nOpCount st + 1\<rparr>))
      (\<lambda>st2. if length (st_stack st2) + length (st_altstack st2) > MAX_STACK_SIZE then Fail SCRIPT_ERR_STACK_SIZE
            else Ok (pc, st2\<lparr>st_opcode_pos := st_opcode_pos st2 + 1\<rparr>))"
proof -
  have gt: "opcode > OP_PUSHDATA4" using assms(1) by (rule less_trans [rotated]) simp
  then have "\<not> opcode \<le> OP_PUSHDATA4" by simp
  then show ?thesis
    using GetScriptOp_op [OF gt, of pc] assms
    by (simp add: eval_step_def Let_def counts_op_def eval_instruction_def)
qed

lemma exec_p2wpkh:
  "exec_op ctx True OP_DUP pc st = on_stack (op_single OP_DUP) st"
  "exec_op ctx True OP_HASH160 pc st = on_stack (op_digest ctx OP_HASH160) st"
  "exec_op ctx True OP_EQUALVERIFY pc st = on_stack (op_equal OP_EQUALVERIFY) st"
  "exec_op ctx True OP_CHECKSIG pc st = op_checksig ctx OP_CHECKSIG st"
  by (simp_all add: exec_op_def)

lemma EvalScript_p2wpkh:
  assumes "length program = 20" "ctx_sigversion ctx = WITNESS_V0"
  shows "EvalScript ctx [pk, sig] (p2wpkh_script program) ed =
    (if CHash160 (ctx_crypto ctx) pk \<noteq> program then Fail SCRIPT_ERR_EQUALVERIFY
     else sbind (EvalChecksigPreTapscript ctx sig pk (p2wpkh_script program))
            (\<lambda>ok. Ok ([vch_bool ok], ed\<lparr>m_codeseparator_pos := 0xffffffff, m_codeseparator_pos_init := True\<rparr>)))"
proof -
  have s: "p2wpkh_script program = OP_DUP # OP_HASH160 # of_nat (length program) # program @ [OP_EQUALVERIFY, OP_CHECKSIG]"
    using assms(1) by (simp add: p2wpkh_script_def push_data_def)
  have push: "eval_step ctx (20 # program @ pc) st = Ok (pc, st\<lparr>st_stack := program # st_stack st, st_opcode_pos := st_opcode_pos st + 1\<rparr>)"
    if "all_true (st_vfExec st)" "length (st_stack st) + length (st_altstack st) < MAX_STACK_SIZE" for pc st
    using push_step [OF that(1) _ _ that(2), of program ctx pc] assms(1) by simp
  define scr where "scr = p2wpkh_script program"
  have "length scr \<le> MAX_SCRIPT_SIZE" using assms(1) by (simp add: scr_def s MAX_SCRIPT_SIZE_def)
  moreover have "eval_loop ctx (OP_DUP # OP_HASH160 # of_nat (length program) # program @ [OP_EQUALVERIFY, OP_CHECKSIG]) (eval_start [pk, sig] scr ed) =
     (if CHash160 (ctx_crypto ctx) pk \<noteq> program then Fail SCRIPT_ERR_EQUALVERIFY
     else sbind (EvalChecksigPreTapscript ctx sig pk scr)
            (\<lambda>ok. Ok ((eval_start [pk, sig] scr ed)\<lparr>st_stack := [vch_bool ok], st_nOpCount := 4, st_opcode_pos := 5\<rparr>)))"
    using assms
    by (cases "EvalChecksigPreTapscript ctx sig pk scr")
      (simp_all add: eval_loop_bind op_step push exec_p2wpkh op_disabled_def eval_start_def cond_new_def all_true_def
        MAX_OPS_PER_SCRIPT_def MAX_STACK_SIZE_def on_stack_def op_single_def op_digest_def op_equal_def op_checksig_def
        EvalChecksig_def eval_loop.simps [of _ "[]"])
  ultimately show ?thesis
    using assms(2) unfolding s [symmetric] scr_def [symmetric]
    by (cases "EvalChecksigPreTapscript ctx sig pk scr") (simp_all add: EvalScript_def eval_start_def cond_empty_def cond_new_def)
qed


lemma CastToBool_vch_bool: "CastToBool (vch_bool b) = b"
  by (cases b) (simp_all add: vch_bool_def CastToBool_def vchTrue_def vchFalse_def)

lemma length_2: "length xs = 2 \<longleftrightarrow> (\<exists>a b. xs = [a, b])"
  by (auto simp: eval_nat_numeral length_Suc_conv)

lemma p2wpkh_program:
  assumes "length program = 20"
  shows "IsWitnessProgram (OP_0 # 20 # program) = Some (0, program)"
  using assms by (simp add: IsWitnessProgram_def DecodeOP_N_def)

definition p2wpkh_spent :: "Crypto \<Rightarrow> CTransaction \<Rightarrow> nat \<Rightarrow> int \<Rightarrow> bytes \<Rightarrow> uint32 \<Rightarrow> bool" where
  "p2wpkh_spent cr tx nIn amount program flags \<longleftrightarrow>
     (\<exists>sig pubkey sighash.
        scriptWitness (vin tx ! nIn) = [sig, pubkey] \<and> sig \<noteq> [] \<and> pubkey_IsValid pubkey \<and>
        length sig \<le> MAX_SCRIPT_ELEMENT_SIZE \<and> length pubkey \<le> MAX_SCRIPT_ELEMENT_SIZE \<and>
        CheckSignatureEncoding cr sig flags = Ok () \<and> CheckPubKeyEncoding pubkey flags WITNESS_V0 = Ok () \<and>
        CHash160 cr pubkey = program \<and>
        SignatureHash cr (p2wpkh_script program) tx nIn (uint (last sig)) amount WITNESS_V0 None = Some sighash \<and>
        ECDSA_Verify cr pubkey sighash (butlast sig))"

lemma checksig_v0:
  assumes "chk_txTo chk = tx" "unat (chk_nIn chk) = nIn" "chk_amount chk = amount" "0 \<le> amount"
    and "chk_txdata chk = Some td" "txdata_right cr tx td"
  shows "EvalChecksigPreTapscript (eval_ctx cr (TransactionSignatureChecker cr chk) flags WITNESS_V0) sig pk code = Ok True \<longleftrightarrow>
    CheckSignatureEncoding cr sig flags = Ok () \<and> CheckPubKeyEncoding pk flags WITNESS_V0 = Ok () \<and> sig \<noteq> [] \<and> pubkey_IsValid pk \<and>
    (\<exists>h. SignatureHash cr code tx nIn (uint (last sig)) amount WITNESS_V0 None = Some h \<and> ECDSA_Verify cr pk h (butlast sig))"
proof (cases "CheckSignatureEncoding cr sig flags = Ok () \<and> CheckPubKeyEncoding pk flags WITNESS_V0 = Ok ()")
  case True
  with assms show ?thesis
    by (cases "SignatureHash cr code tx nIn (uint (last sig)) amount WITNESS_V0 None")
      (auto simp: EvalChecksigPreTapscript_def TransactionSignatureChecker_def tx_CheckECDSASignature_def Let_def
        SignatureHash_cached [OF assms(6)] split: if_split_asm)
next
  case False
  then show ?thesis by (auto simp: EvalChecksigPreTapscript_def split: if_split_asm)
qed

lemma verify_p2wpkh:
  assumes "length program = 20"
  shows "VerifyWitnessProgram cr chk witness 0 program flags False = Ok () \<longleftrightarrow>
    (\<exists>sig pk. witness = [sig, pk] \<and> length sig \<le> MAX_SCRIPT_ELEMENT_SIZE \<and> length pk \<le> MAX_SCRIPT_ELEMENT_SIZE \<and>
       CHash160 cr pk = program \<and>
       EvalChecksigPreTapscript (eval_ctx cr chk flags WITNESS_V0) sig pk (p2wpkh_script program) = Ok True)"
proof (cases "length witness = 2")
  case True
  then obtain sig pk where w: "witness = [sig, pk]" by (auto simp: length_2)
  show ?thesis
    using assms
    by (cases "EvalChecksigPreTapscript (eval_ctx cr chk flags WITNESS_V0) sig pk (p2wpkh_script program)")
      (auto simp: w VerifyWitnessProgram_def verify_witness_v0_def WITNESS_V0_SCRIPTHASH_SIZE_def WITNESS_V0_KEYHASH_SIZE_def
        ExecuteWitnessScript_def EvalScript_p2wpkh CastToBool_vch_bool split: if_split_asm)
next
  case False
  with assms show ?thesis
    by (auto simp: VerifyWitnessProgram_def verify_witness_v0_def WITNESS_V0_SCRIPTHASH_SIZE_def WITNESS_V0_KEYHASH_SIZE_def)
qed

lemma run_p2wpkh:
  assumes "nIn < length (vin tx)" "length (vin tx) < 2 ^ 32" "length spent = length (vin tx)" "0 \<le> nValue (spent ! nIn)"
    and "scriptPubKey (spent ! nIn) = OP_0 # 20 # program" "length program = 20"
    and "has_flag flags SCRIPT_VERIFY_P2SH" "has_flag flags SCRIPT_VERIFY_WITNESS"
  shows "run_script_check cr tx spent nIn flags = Ok () \<longleftrightarrow>
    scriptSig (vin tx ! nIn) = [] \<and> CastToBool program \<and> p2wpkh_spent cr tx nIn (nValue (spent ! nIn)) program flags"
proof -
  obtain td where td: "txdata_Init cr new_txdata tx spent False = Some td" using txdata_Init_total assms(3) by blast
  define chk where "chk = input_checker tx spent nIn td"
  have chk: "chk_txTo chk = tx" "unat (chk_nIn chk) = nIn" "chk_amount chk = nValue (spent ! nIn)" "chk_txdata chk = Some td"
    by (simp_all add: chk_def input_checker_def unat_nIn [OF assms(1,2)])
  note sig = checksig_v0 [OF chk(1-3) assms(4) chk(4) txdata_Init_right(1) [OF td]]
  show ?thesis
    unfolding run_script_check_def td option.case chk_def [symmetric] assms(5)
      VerifyScript_witness [OF p2wpkh_program [OF assms(6)] assms(7,8)] verify_p2wpkh [OF assms(6)] sig p2wpkh_spent_def
    by blast
qed

section \<open>Spent examples\<close>

definition hybrid_ecdsa_pub :: bytes where "hybrid_ecdsa_pub = 2 # replicate 32 1"
definition hybrid_mldsa_pub :: bytes where "hybrid_mldsa_pub = replicate 1312 3"
definition hybrid_key_hash :: bytes where "hybrid_key_hash = 2 # replicate 31 1"

definition hybrid_coin :: Coin where
  "hybrid_coin = mk_Coin \<lparr>nValue = 1000, scriptPubKey = hybrid_script_code hybrid_key_hash\<rparr> 5 False"

definition hybrid_tx :: CTransaction where
  "hybrid_tx =
     \<lparr>vin = [\<lparr>prevout = example_point, scriptSig = [], nSequence = 0,
              scriptWitness = [hybrid_ecdsa_pub @ [SIGHASH_ALL], hybrid_ecdsa_pub, [3, 3, 3, 3], hybrid_mldsa_pub]\<rparr>],
      vout = [\<lparr>nValue = 900, scriptPubKey = [OP_1]\<rparr>], txVersion = 1, nLockTime = 0\<rparr>"

definition example_flags :: uint32 where
  "example_flags = SCRIPT_VERIFY_P2SH OR SCRIPT_VERIFY_WITNESS OR SCRIPT_VERIFY_TAPROOT"

definition key_hash :: bytes where "key_hash = 2 # replicate 19 1"

definition key_hash_tx :: CTransaction where
  "key_hash_tx =
     hybrid_tx\<lparr>vin := [\<lparr>prevout = example_point, scriptSig = [], nSequence = 0,
                        scriptWitness = [hybrid_ecdsa_pub @ [SIGHASH_ALL], hybrid_ecdsa_pub]\<rparr>]\<rparr>"

lemma example_flags_set: "has_flag example_flags SCRIPT_VERIFY_P2SH" "has_flag example_flags SCRIPT_VERIFY_WITNESS" "flags_consistent example_flags"
  by code_simp+

section \<open>Properties\<close>

text \<open>
  C4: A hybrid output is spent by both signatures and by nothing else. For an output whose script is
  \<open>OP_2\<close> and a program of 32 bytes, under flags with P2SH and WITNESS, the check of an input
  succeeds exactly if the scriptSig is empty, the program is not all zero, and the witness is an
  ECDSA signature with the hash type SIGHASH_ALL, a key of 33 bytes, an ML-DSA signature and a key
  of 1312 bytes such that the SHAKE256 hash of the two keys is the program and both signatures
  verify for the signature hash of the transaction, computed without precomputed data.
\<close>

theorem hybrid_spend:
  assumes "nIn < length (vin tx)" "length (vin tx) < 2 ^ 32" "length spent = length (vin tx)" "0 \<le> nValue (spent ! nIn)"
    and "scriptPubKey (spent ! nIn) = hybrid_script_code program" "length program = 32"
    and "has_flag flags SCRIPT_VERIFY_P2SH" "has_flag flags SCRIPT_VERIFY_WITNESS"
  shows "run_script_check cr tx spent nIn flags = Ok () \<longleftrightarrow>
    scriptSig (vin tx ! nIn) = [] \<and> CastToBool program \<and> hybrid_spent cr tx nIn (nValue (spent ! nIn)) program"
  using assms by (rule run_hybrid)

theorem hybrid_spend_witness:
  "run_script_check example_crypto hybrid_tx [coin_out hybrid_coin] 0 example_flags = Ok () \<and>
   hybrid_spent example_crypto hybrid_tx 0 1000 hybrid_key_hash"
proof -
  have ok: "run_script_check example_crypto hybrid_tx [coin_out hybrid_coin] 0 example_flags = Ok ()" by code_simp
  with hybrid_spend [of 0 hybrid_tx "[coin_out hybrid_coin]" hybrid_key_hash example_flags example_crypto] example_flags_set
  show ?thesis by (simp add: hybrid_tx_def hybrid_coin_def hybrid_key_hash_def mk_Coin_def)
qed

text \<open>
  C30: A key hash output is spent by its key. For an output whose script is \<open>OP_0\<close> and a program
  of 20 bytes, under flags with P2SH and WITNESS, the check of an input runs the script
  \<open>OP_DUP OP_HASH160 program OP_EQUALVERIFY OP_CHECKSIG\<close> to success exactly if the scriptSig is
  empty, the program is not all zero, and the witness is a signature and a key that satisfy the
  encoding rules of the flags, the key hashes to the program, and the signature verifies for the
  signature hash of its hash type.
\<close>

theorem p2wpkh_spend:
  assumes "nIn < length (vin tx)" "length (vin tx) < 2 ^ 32" "length spent = length (vin tx)" "0 \<le> nValue (spent ! nIn)"
    and "scriptPubKey (spent ! nIn) = OP_0 # 20 # program" "length program = 20"
    and "has_flag flags SCRIPT_VERIFY_P2SH" "has_flag flags SCRIPT_VERIFY_WITNESS"
  shows "run_script_check cr tx spent nIn flags = Ok () \<longleftrightarrow>
    scriptSig (vin tx ! nIn) = [] \<and> CastToBool program \<and> p2wpkh_spent cr tx nIn (nValue (spent ! nIn)) program flags"
  using assms by (rule run_p2wpkh)

theorem p2wpkh_spend_witness:
  "run_script_check example_crypto key_hash_tx [\<lparr>nValue = 1000, scriptPubKey = OP_0 # 20 # key_hash\<rparr>] 0 example_flags = Ok () \<and>
   p2wpkh_spent example_crypto key_hash_tx 0 1000 key_hash example_flags"
proof -
  let ?spent = "[\<lparr>nValue = 1000, scriptPubKey = OP_0 # 20 # key_hash\<rparr>]"
  have ok: "run_script_check example_crypto key_hash_tx ?spent 0 example_flags = Ok ()" by code_simp
  with p2wpkh_spend [of 0 key_hash_tx ?spent key_hash example_flags example_crypto] example_flags_set
  show ?thesis by (simp add: key_hash_tx_def key_hash_def)
qed

text \<open>
  C11: Script verification does not abort. For flags in which WITNESS comes with P2SH and CLEANSTACK
  with both, and an input of the transaction that spends an amount that is not negative, with the
  spent outputs of all inputs at hand, the check of the input ends with success or with a script
  error: no assertion, no read outside a stack, and no missing transaction data.
\<close>

theorem script_check_total:
  assumes "nIn < length (vin tx)" "length spent = length (vin tx)" "nIn < 2 ^ 32" "0 \<le> nValue (spent ! nIn)" "flags_consistent flags"
  shows "run_script_check cr tx spent nIn flags = Ok () \<or> (\<exists>serror. run_script_check cr tx spent nIn flags = Fail serror)"
  using run_script_check_no_Abort [OF assms, of cr] by (cases "run_script_check cr tx spent nIn flags") auto

theorem script_check_total_witness:
  "run_script_check example_crypto hybrid_tx [\<lparr>nValue = 5, scriptPubKey = [OP_1, OP_IF]\<rparr>] 0 example_flags = Ok () \<or>
   (\<exists>serror. run_script_check example_crypto hybrid_tx [\<lparr>nValue = 5, scriptPubKey = [OP_1, OP_IF]\<rparr>] 0 example_flags = Fail serror)"
  by (rule script_check_total) (simp_all add: hybrid_tx_def example_flags_set)

text \<open>
  C6: Flags are soft forks. What verifies under a set of flags verifies under every subset of it in
  which WITNESS comes with P2SH and CLEANSTACK with both, for every signature checker.
\<close>

theorem flags_soft_fork:
  assumes "flags_consistent f" "VerifyScript cr checker script_sig script_pubkey witness (f OR g) = Ok ()"
  shows "VerifyScript cr checker script_sig script_pubkey witness f = Ok ()"
proof -
  have "flags_subset f (f OR g)" by (simp add: flags_subset_def)
  from VerifyScript_flags [OF this assms] show ?thesis .
qed

theorem flags_soft_fork_witness:
  "VerifyScript example_crypto example_sig_checker [OP_2] [OP_DUP, OP_EQUAL] []
     (example_flags OR (SCRIPT_VERIFY_CLEANSTACK OR SCRIPT_VERIFY_SIGPUSHONLY OR SCRIPT_VERIFY_MINIMALDATA)) = Ok () \<and>
   VerifyScript example_crypto example_sig_checker [OP_2] [OP_DUP, OP_EQUAL] [] example_flags = Ok ()"
proof -
  have ok: "VerifyScript example_crypto example_sig_checker [OP_2] [OP_DUP, OP_EQUAL] []
     (example_flags OR (SCRIPT_VERIFY_CLEANSTACK OR SCRIPT_VERIFY_SIGPUSHONLY OR SCRIPT_VERIFY_MINIMALDATA)) = Ok ()"
    by code_simp
  with flags_soft_fork [OF example_flags_set(3) ok] show ?thesis by blast
qed

end
