(* ===== verification/Block_Scripts.thy ===== *)
theory Block_Scripts
  imports Verify_Script
begin

text \<open>
  The script checks of a block: \<open>ConnectBlock\<close> with the script verification of the development as
  the check of an input. A coin locked by a hybrid output script leaves the set of coins only with
  both signatures.
\<close>

section \<open>The result of a check\<close>

text \<open>
  What \<open>CheckInputScripts\<close> makes of a check of an input. The checks of a block are those of
  transactions that \<open>CheckTxInputs\<close> accepted, and do not abort.
\<close>

definition check_result :: "Crypto \<Rightarrow> CTransaction \<Rightarrow> CTxOut list \<Rightarrow> nat \<Rightarrow> uint32 \<Rightarrow> string + unit" where
  "check_result cr tx spent nIn flags =
     (case run_script_check cr tx spent nIn flags of
        Ok _ \<Rightarrow> Inr ()
      | Fail serror \<Rightarrow> Inl (ScriptErrorString serror)
      | Abort \<Rightarrow> Inl [])"

lemma check_result_Inr: "check_result cr tx spent nIn flags = Inr () \<longleftrightarrow> run_script_check cr tx spent nIn flags = Ok ()"
  by (simp add: check_result_def split: script_result.splits)

section \<open>The coins before a transaction\<close>

lemma txs_scripts_ok_nth:
  "txs_scripts_ok env height flags txs m \<Longrightarrow> k < length txs \<Longrightarrow> \<not> IsCoinBase (txs ! k) \<Longrightarrow>
   scripts_ok env flags (apply_txs (env_Hash env) height (take k txs) m) (txs ! k)"
proof (induction txs arbitrary: m k)
  case (Cons tx txs)
  then show ?case by (cases k) auto
qed simp

lemma txs_apply_take: "txs_apply Hash height txs m \<Longrightarrow> txs_apply Hash height (take k txs) m"
proof (induction txs arbitrary: m k)
  case (Cons tx txs)
  then show ?case by (cases k) auto
qed simp

lemma has_flag_OR: "has_flag (f OR g) h \<longleftrightarrow> has_flag f h \<or> has_flag g h"
  by (simp add: has_flag_def bit.conj_disj_distrib2 or_eq_0_iff)

lemma block_flags:
  assumes "script_flag_exceptions params p = None"
  shows "has_flag (GetBlockScriptFlags p b params) SCRIPT_VERIFY_P2SH" "has_flag (GetBlockScriptFlags p b params) SCRIPT_VERIFY_WITNESS"
  using assms by (simp_all add: GetBlockScriptFlags_def has_flag_OR) (simp_all add: has_flag_def)

lemma vin_short:
  assumes "CheckTransaction tx = Inr ()"
  shows "length (vin tx) < 2 ^ 32"
proof -
  have "1 * length xs \<le> length (concat (map ser_txin xs))" for xs
  proof (induction xs)
    case (Cons x xs)
    then show ?case by (simp add: ser_txin_def ser_outpoint_def ser_word_def)
  qed simp
  then have "length (vin tx) \<le> length (SerializeTransaction False tx)"
    by (simp add: SerializeTransaction_def ser_vector_def trans_le_add2 trans_le_add1)
  with assms show ?thesis by (simp add: CheckTransaction_iff)
qed

section \<open>Coins that leave the set\<close>

text \<open>
  The circumstances of a block whose scripts are checked: it is connected to well-formed coins, the
  checks are those of the script verification, none is skipped, and none of its transactions is in
  the cache of script executions.
\<close>

definition scripts_checked ::
  "Crypto \<Rightarrow> ConnectEnv \<Rightarrow> ChainstateManager \<Rightarrow> CBlock \<Rightarrow> block_ptr \<Rightarrow> CBlockIndex \<Rightarrow> coins_state \<Rightarrow> CBlockUndo \<Rightarrow>
   coins_state \<Rightarrow> ChainstateManager \<Rightarrow> bool" where
  "scripts_checked cr env cm block p b s undo s' cm' \<longleftrightarrow>
     connects env cm block p b s undo s' cm' \<and> cache_inv (env_usage env) s \<and> good_coins (cache_coins s) \<and>
     finite (dom (cache_coins s)) \<and> 0 < nHeight b \<and> nHeight b < 2 ^ 31 \<and>
     env_VerifyScript env = check_result cr \<and> script_checks_needed env cm p b = Some True \<and>
     (\<forall>tx \<in> set (vtx block). \<not> env_script_cached env tx (GetBlockScriptFlags p b (env_params env)))"

text \<open>Each input of a connected block has passed the check of its script for the coins before its transaction.\<close>

lemma connected_input:
  assumes c: "scripts_checked cr env cm block p b s undo s' cm'"
    and k: "0 < k" "k < length (vtx block)" and tx: "tx = vtx block ! k" and j: "j < length (vin tx)"
    and m: "m = apply_txs (env_Hash env) (nHeight b) (take k (vtx block)) (cache_coins s)"
  shows "run_script_check cr tx (spent_by m tx) j (GetBlockScriptFlags p b (env_params env)) = Ok ()"
    "good_coins m" "CheckTransaction tx = Inr ()"
proof -
  note c' = c [unfolded scripts_checked_def]
  from c' have con: "connects env cm block p b s undo s' cm'" and inv: "cache_inv (env_usage env) s" by blast+
  have ok: "txs_scripts_ok env (nHeight b) (GetBlockScriptFlags p b (env_params env)) (vtx block) (cache_coins s)"
    using connects_scripts [OF con inv] c' by blast
  have ap: "txs_apply (env_Hash env) (nHeight b) (vtx block) (cache_coins s)" by (rule connects_ok [OF con inv])
  then show "good_coins m"
    unfolding m using good_coins_txs [OF txs_apply_take [OF ap]] c' by blast
  have t: "\<not> IsCoinBase tx \<and> CheckTransaction tx = Inr ()"
    by (rule connects_txs [OF con inv]) (use k tx in \<open>auto simp: list_all_length nth_Cons'\<close>)
  then show "CheckTransaction tx = Inr ()" ..
  from txs_scripts_ok_nth [OF ok k(2)] t have "scripts_ok env (GetBlockScriptFlags p b (env_params env)) m tx"
    unfolding tx m by blast
  with j c' show "run_script_check cr tx (spent_by m tx) j (GetBlockScriptFlags p b (env_params env)) = Ok ()"
    by (simp add: scripts_ok_def check_result_Inr)
qed

lemma connected_hybrid:
  assumes c: "scripts_checked cr env cm block p b s undo s' cm'"
    and k: "0 < k" "k < length (vtx block)" and tx: "tx = vtx block ! k" and j: "j < length (vin tx)"
    and m: "m = apply_txs (env_Hash env) (nHeight b) (take k (vtx block)) (cache_coins s)"
    and coin: "m (prevout (vin tx ! j)) = Some coin" "scriptPubKey (coin_out coin) = hybrid_script_code program" "length program = 32"
    and ex: "script_flag_exceptions (env_params env) p = None"
  shows "scriptSig (vin tx ! j) = [] \<and> hybrid_spent cr tx j (nValue (coin_out coin)) program"
proof -
  note i = connected_input [OF c k tx j m]
  have sp: "length (spent_by m tx) = length (vin tx)" "spent_by m tx ! j = coin_out coin"
    using coin(1) j by (simp_all add: spent_by_def)
  have "0 \<le> nValue (coin_out coin)" using i(2) coin(1) by (auto simp: good_coins_def good_coin_def)
  with run_hybrid [OF j vin_short [OF i(3)] sp(1) _ _ coin(3) block_flags [OF ex], of cr b] i(1) coin(2) show ?thesis
    unfolding sp(2) by simp
qed

section \<open>A hybrid spend\<close>

definition hybrid_block :: CBlock where
  "hybrid_block =
     (CBlock_of_header ((example_header (example_hash 1) 1600)\<lparr>hdrMerkleRoot := example_hash 10\<rparr>))\<lparr>vtx := [example_reward, hybrid_tx]\<rparr>"

definition hybrid_db :: CCoinsView where
  "hybrid_db = ViewDB \<lparr>db_coins = [example_point \<mapsto> hybrid_coin], db_best_block = Some (example_hash 1), db_head_blocks = None\<rparr>"

definition hybrid_env :: ConnectEnv where
  "hybrid_env = example_env\<lparr>env_Hash := \<lambda>v. if length v = 62 then example_hash 9 else example_hash 10,
                            env_VerifyScript := check_result example_crypto\<rparr>"


definition hybrid_index :: CBlockIndex where
  "hybrid_index = (CBlockIndex_of_header (example_header (example_hash 1) 1600))
     \<lparr>pprev := Some (example_hash 1), pskip := Some (example_hash 1), nHeight := 1\<rparr>"

lemma hybrid_block_parts:
  "vtx hybrid_block = [example_reward, hybrid_tx]" "\<not> fChecked hybrid_block" "\<not> m_checked_merkle_root hybrid_block"
  "hdrMerkleRoot hybrid_block = example_hash 10" "hdrBits hybrid_block = 0x1d00ffff"
  by (simp_all add: hybrid_block_def CBlock_of_header_def example_header_def)

lemma hybrid_env_parts:
  "env_GetHash hybrid_env = (\<lambda>_. example_hash 2)" "env_signet hybrid_env = (\<lambda>_ _. False)" "env_usage hybrid_env = (\<lambda>_. 0)"
  "env_write_undo hybrid_env = (\<lambda>_ bm _. Some bm)" "env_params hybrid_env = CMainParams (example_hash 1)"
  "env_assumed_valid hybrid_env = uint256_zero" "env_VerifyScript hybrid_env = check_result example_crypto"
  "env_script_cached hybrid_env = (\<lambda>_ _. False)" "env_founder_script hybrid_env = None"
  by (simp_all add: hybrid_env_def example_env_def)

lemma hybrid_tx_checks:
  "CheckTransaction hybrid_tx = Inr ()" "\<not> IsCoinBase hybrid_tx" "GetLegacySigOpCount hybrid_tx = 0"
  "map (tx_GetHash (env_Hash hybrid_env)) [example_reward, hybrid_tx] = [example_hash 9, example_hash 10]"
proof -
  show cb: "\<not> IsCoinBase hybrid_tx" by code_simp
  have "length (SerializeTransaction False hybrid_tx) = 61" "\<not> outpoint_IsNull example_point" by code_simp+
  with cb show "CheckTransaction hybrid_tx = Inr ()" unfolding CheckTransaction_iff
    by (simp add: hybrid_tx_def MoneyRange_def MAX_MONEY_def COIN_def)
  show "GetLegacySigOpCount hybrid_tx = 0" by code_simp
  show "map (tx_GetHash (env_Hash hybrid_env)) [example_reward, hybrid_tx] = [example_hash 9, example_hash 10]" by code_simp
qed

lemma hybrid_CheckBlock:
  "CheckBlock (env_Hash hybrid_env) (\<lambda>_. example_hash 2) (\<lambda>_ _. False) hybrid_block (CMainParams (example_hash 1)) True True =
     Some (Inr (hybrid_block\<lparr>m_checked_merkle_root := True, fChecked := True\<rparr>))"
proof -
  let ?b = "hybrid_block\<lparr>m_checked_merkle_root := True\<rparr>"
  have root: "BlockMerkleRoot (env_Hash hybrid_env) hybrid_block = (example_hash 10, False)" by code_simp
  have pow: "CheckProofOfWork (example_hash 2) (hdrBits (GetBlockHeader hybrid_block)) (CMainParams (example_hash 1))"
    by (simp add: GetBlockHeader_def hybrid_block_parts CheckProofOfWork_iff compact_neg_def example_compact_value
        main_powLimit_value example_hash_value)
  have "length (SerializeBlock False hybrid_block) = 204" by code_simp
  then have "length (SerializeBlock False ?b) = 204" by (simp add: SerializeBlock_def GetBlockHeader_def)
  then have "check_block_txs ?b = Some (Inr ())"
    using example_reward_checks hybrid_tx_checks(1-3) by (simp add: check_block_txs_iff hybrid_block_parts)
  moreover have "CheckMerkleRoot (env_Hash hybrid_env) hybrid_block = Inr ?b"
    by (simp add: CheckMerkleRoot_def root hybrid_block_parts)
  moreover have "\<not> signet_blocks (CMainParams (example_hash 1))" by (simp add: CMainParams_def)
  ultimately show ?thesis using pow by (simp add: CheckBlock_def hybrid_block_parts CheckBlockHeader_def)
qed

text \<open>The coins after the coinbase, in which the hybrid coin is still unspent, and after the block.\<close>

lemma hybrid_connect_txs:
  obtains acc s' where "connect_txs hybrid_env example_index (example_hash 2) 1 LOCKTIME_VERIFY_SEQUENCE
      (GetBlockScriptFlags (example_hash 2) hybrid_index (CMainParams (example_hash 1))) True
      \<lparr>acc_nFees = 0, acc_nSigOpsCost = 0, acc_checks = [], acc_undo = []\<rparr> (example_cache, hybrid_db) [example_reward, hybrid_tx] =
      Some (Inr acc, s')" "acc_nFees acc = 100" "acc_checks acc = []"
proof -
  have "case connect_txs hybrid_env example_index (example_hash 2) 1 LOCKTIME_VERIFY_SEQUENCE
      (GetBlockScriptFlags (example_hash 2) hybrid_index (CMainParams (example_hash 1))) True
      \<lparr>acc_nFees = 0, acc_nSigOpsCost = 0, acc_checks = [], acc_undo = []\<rparr> (example_cache, hybrid_db) [example_reward, hybrid_tx] of
      Some (Inr acc, _) \<Rightarrow> acc_nFees acc = 100 \<and> acc_checks acc = [] | _ \<Rightarrow> False"
    by code_simp
  then show ?thesis using that by (auto simp del: connect_txs.simps split: option.splits sum.splits)
qed

lemma hybrid_coins: "cache_coins (example_cache, hybrid_db) = [example_point \<mapsto> hybrid_coin]"
proof -
  have "\<not> IsSpent hybrid_coin" by code_simp
  then show ?thesis by (intro ext) (simp add: cache_coins_def example_cache_def hybrid_db_def view_coins.simps(2))
qed

lemma hybrid_cache_inv: "cache_inv (\<lambda>_. 0) (example_cache, hybrid_db)"
  by (auto simp: cache_inv_def example_cache_def hybrid_db_def cache_ok_def hybrid_coin_def mk_Coin_def IsSpent_def txout_IsNull_def
      split: if_splits)


lemma hybrid_scripts_checked:
  obtains undo s' cm' where
    "scripts_checked example_crypto hybrid_env example_manager hybrid_block (example_hash 2) hybrid_index (example_cache, hybrid_db) undo s' cm'"
proof -
  let ?s = "(example_cache, hybrid_db)" and ?P = "CMainParams (example_hash 1)"
  let ?block = "hybrid_block\<lparr>m_checked_merkle_root := True, fChecked := True\<rparr>"
  obtain acc s1 where txs: "connect_txs hybrid_env example_index (example_hash 2) 1 LOCKTIME_VERIFY_SEQUENCE
      (GetBlockScriptFlags (example_hash 2) hybrid_index ?P) True
      \<lparr>acc_nFees = 0, acc_nSigOpsCost = 0, acc_checks = [], acc_undo = []\<rparr> ?s (vtx ?block) = Some (Inr acc, s1)"
    and acc: "acc_nFees acc = 100" "acc_checks acc = []" by (rule hybrid_connect_txs) (simp add: hybrid_block_parts)
  have best: "cache_GetBestBlock ?s = (example_hash 1, ?s)"
    by (simp add: cache_GetBestBlock_def example_cache_def IsNull_def example_hash_def)
  have sc: "script_checks_needed hybrid_env example_manager (example_hash 2) hybrid_index = Some True"
    by (simp add: script_checks_needed_def hybrid_env_parts IsNull_def uint256_zero_def list_all_iff)
  have "GetAncestor example_index (example_hash 1) 17 = Some None"
    using example_index_entries(1) by (rule GetAncestor_null) (simp add: CBlockIndex_of_header_def)
  then have bip30: "bip30_enforced example_index ?P (example_hash 2) hybrid_index = Some True"
    by (simp add: bip30_enforced_def IsBIP30Repeat_def CMainParams_def hybrid_index_def)
  have any: "have_any (\<lambda>_. 0) ?s (concat (map (tx_outpoints (env_Hash hybrid_env)) (vtx ?block))) = (False, ?s)"
    by (simp add: hybrid_env_def hybrid_block_parts hybrid_tx_def tx_outpoints_def tx_GetHash_def example_reward_def HaveCoin_def
        FetchCoin.simps example_cache_def hybrid_db_def example_point_def example_hash_def)
  have h9: "example_hash 9 \<noteq> example_hash 10" by (simp add: example_hash_def)
  have csv: "DeploymentActiveAt hybrid_index ?P DEPLOYMENT_CSV" by code_simp
  have cb: "check_coinbase hybrid_env 1 acc (vtx ?block) = Some (Inr ())"
    using example_reward_checks(5) acc
    by (simp add: check_coinbase_def hybrid_block_parts coinbase_amount_ok_def GetBlockSubsidy_def hybrid_env_parts
        GetFounderRewardForBlock_def FOUNDER_START_HEIGHT_def COIN_def)
  obtain bm where bm: "raise_scripts (m_blockman example_manager) (example_hash 2) = Some bm"
    by (simp add: raise_scripts_def example_manager_def example_index_entries IsValid_def RaiseValidity_def block_status_defs CBlockIndex_of_header_def)
  have idx: "m_block_index (m_blockman example_manager) = example_index" "nHeight hybrid_index = 1"
    "example_index (example_hash 2) = Some hybrid_index" "pprev hybrid_index = Some (example_hash 1)"
    by (simp_all add: example_manager_def hybrid_index_def example_index_entries)
  have "connect_checked hybrid_env example_manager ?block (example_hash 2) hybrid_index ?s False =
      Some (Valid (tl (acc_undo acc)), (SetBestBlock (fst s1) (example_hash 2), snd s1), example_manager\<lparr>m_blockman := bm\<rparr>)"
    using csv txs cb bm any sc bip30 by (simp add: connect_checked_def Let_def hybrid_env_parts idx)
  then have "ConnectBlock hybrid_env example_manager hybrid_block (example_hash 2) ?s False =
      Some (Valid (tl (acc_undo acc)), (SetBestBlock (fst s1) (example_hash 2), snd s1), example_manager\<lparr>m_blockman := bm\<rparr>)"
    using hybrid_CheckBlock best by (simp add: ConnectBlock_def hybrid_env_parts idx)
  then have "connects hybrid_env example_manager hybrid_block (example_hash 2) hybrid_index ?s (tl (acc_undo acc))
      (SetBestBlock (fst s1) (example_hash 2), snd s1) (example_manager\<lparr>m_blockman := bm\<rparr>)"
    using bip30 hybrid_block_parts(1,2) hybrid_tx_checks(4) h9 by (simp add: connects_def hybrid_env_parts idx)
  moreover have "good_coins (cache_coins ?s)"
    unfolding hybrid_coins good_coins_def good_coin_def by (auto simp: hybrid_coin_def) code_simp+
  ultimately show ?thesis using that hybrid_cache_inv sc
    by (auto simp: scripts_checked_def hybrid_env_parts idx hybrid_coins)
qed

lemma hybrid_spent_coin:
  "apply_txs (env_Hash hybrid_env) (nHeight hybrid_index) [example_reward] (cache_coins (example_cache, hybrid_db)) example_point = Some hybrid_coin"
proof -
  have "op_hash example_point \<noteq> tx_GetHash (env_Hash hybrid_env) example_reward"
    using hybrid_tx_checks(4) by (simp add: example_point_def example_hash_def)
  then have "example_point \<notin> dom (tx_outs (env_Hash hybrid_env) (nHeight hybrid_index) example_reward)"
    using tx_outs_hash [of example_point "env_Hash hybrid_env" "nHeight hybrid_index" example_reward] by auto
  then show ?thesis
    using example_reward_checks(1) by (auto simp: tx_effect_def tx_spends_def hybrid_coins map_add_def split: option.split)
qed

end
