(* ===== verification/Spec2Isabelle.thy ===== *)
theory Spec2Isabelle
  imports Prelude Arith_Uint256 Uint256 Chain Active_Chain Consensus_Params Pow Serialize Transaction Tx_Check Subsidy Script Coins Tx_Inputs Merkle Versionbits Block_Check Header_Accept Connect_Block Interpreter Sig_Hash Verify_Script Block_Scripts
begin

text \<open>
  A model of the consensus core of the node under \<open>src/src\<close>, a fork of Bitcoin Core with its own
  emission, retargeting and hybrid (ECDSA and ML-DSA) outputs, and proofs that it is correct. File
  names below are relative to \<open>src/src\<close>.

  \<^bold>\<open>How the parts interact.\<close> Headers enter the block index (\<open>ProcessNewBlockHeaders\<close>, which calls
  \<open>AcceptBlockHeader\<close>, the proof-of-work rules and \<open>AddToBlockIndex\<close>). A block is checked without
  context (\<open>CheckBlock\<close>) and with it (\<open>ContextualCheckBlock\<close>), then connected: \<open>ConnectBlock\<close> reads
  and spends coins through a cache over the database view, checks the inputs and their scripts,
  bounds the coinbase by subsidy and fees, and produces undo data, from which \<open>DisconnectBlock\<close>
  restores the coins. \<open>SetTip\<close> moves the active chain.

  \<^bold>\<open>Conventions.\<close> Unsigned integers are words of their width, signed integers are \<open>int\<close> with range
  conditions where they may overflow, byte strings are lists of bytes, and a hash value is a list of
  32 bytes. \<open>None\<close> (or \<open>Abort\<close> in the interpreter) is a failed assertion, an uncaught exception, a
  null dereference or undefined behaviour; a rejection is a value of a sum type. Pointers into the
  block index are the hashes that are its keys. Operations on objects take and return the record of
  the object. Hash functions and signature verification are arguments (the record \<open>Crypto\<close>, or a
  function \<open>Hash\<close>), so theorems hold for every choice of them; where a theorem needs output sizes or
  the absence of collisions this is a hypothesis with a witness.

  \<^bold>\<open>Theories\<close>
  \<^item> \<open>Prelude\<close>: types, generic lemmas on lists, options and words.
  \<^item> \<open>Arith_Uint256\<close> (\<open>arith_uint256.h/.cpp\<close>), \<open>Uint256\<close> (\<open>uint256.h\<close>): the limb-wise operations compute
    modulo \<open>2 ^ 256\<close>; long division and the compact encoding are correct.
  \<^item> \<open>Chain\<close>, \<open>Active_Chain\<close> (\<open>chain.h/.cpp\<close>, \<open>node/blockstorage.cpp\<close>): block index, skip list, active
    chain, forks and locators. The searches end and equal the walk along parent links; adding an
    entry sets its links, skip pointer included, and keeps the index well-formed.
  \<^item> \<open>Consensus_Params\<close>, \<open>Pow\<close> (\<open>consensus/params.h\<close>, \<open>kernel/chainparams.cpp\<close>, \<open>pow.cpp\<close>): parameters,
    proof of work and retargeting; what is required is permitted where the product fits, and what
    happens on the main network where it does not.
  \<^item> \<open>Serialize\<close>, \<open>Transaction\<close> (\<open>serialize.h\<close>, \<open>primitives/transaction.h\<close>): readers and writers as exact
    codecs, in a locale \<open>codec\<close> that every format interprets.
  \<^item> \<open>Tx_Check\<close>, \<open>Tx_Inputs\<close> (\<open>consensus/tx_check.cpp\<close>, \<open>consensus/tx_verify.cpp\<close>): transaction rules, locks
    and signature operation costs.
  \<^item> \<open>Subsidy\<close> (\<open>validation.cpp\<close>, \<open>node/miner.cpp\<close>): subsidy, founder reward and total supply.
  \<^item> \<open>Script\<close> (\<open>script/script.h/.cpp\<close>): opcodes, instruction reader, script numbers, templates.
  \<^item> \<open>Coins\<close> (\<open>coins.h/.cpp\<close>, \<open>txdb.cpp\<close>): the coins cache with its DIRTY and FRESH flags refines a map
    of unspent coins.
  \<^item> \<open>Merkle\<close> (\<open>consensus/merkle.cpp\<close>, \<open>merkleblock.cpp\<close>): roots bind their leaves, and partial
    trees are complete and sound, where the hash has no collision among the pairs that are hashed.
  \<^item> \<open>Versionbits\<close> (\<open>versionbits.cpp\<close>): the memoised computation equals the state machine.
  \<^item> \<open>Block_Check\<close>, \<open>Header_Accept\<close> (\<open>validation.cpp\<close>): the rules on blocks and headers, and an inductive
    reachability of index states with its invariant.
  \<^item> \<open>Connect_Block\<close> (\<open>validation.cpp\<close>, \<open>undo.h\<close>): connecting and disconnecting. \<open>ConnectEnv\<close> holds what is
    outside: hashes, script verification, the script execution cache and the undo files.
  \<^item> \<open>Interpreter\<close> (\<open>script/interpreter.cpp\<close>, \<open>script_error.h\<close>): \<open>EvalScript\<close> with one definition per group
    of opcodes. Lemmas: fewer flags accept more, no abort, resource limits, the condition stack
    (locale \<open>condition_stack\<close>) and multisignature matching.
  \<^item> \<open>Sig_Hash\<close> (same file): signature hashes, precomputed data, \<open>TransactionSignatureChecker\<close>.
  \<^item> \<open>Verify_Script\<close> (same file): witness programs, taproot, the hybrid version 2, P2SH and
    \<open>VerifyScript\<close>; \<open>run_script_check\<close> is \<open>CScriptCheck::operator()\<close>.
  \<^item> \<open>Block_Scripts\<close>: \<open>ConnectBlock\<close> with this verification as the check of its inputs. The properties of
    the two together are below.

  \<^bold>\<open>Termination.\<close> No definition uses fuel. Loops are structural or have a measure: the rest of the
  script, the height of a block, the number of leaves. Walks over the index, which end only if it is
  well-formed, are partial functions into options, with lemmas that they return.

  \<^bold>\<open>Not modelled.\<close> The verification algorithms of libsecp256k1 and of ML-DSA and the hash functions:
  the node calls them as black boxes. The signature cache, which answers as the verification does.
  Chain selection (\<open>ActivateBestChain\<close>), block and undo files, LevelDB: threads, signals and disk
  around the modelled steps. The memory pool, network, RPC, wallet, signing, indexes and the
  graphical interface: not part of what makes a block valid, and mostly I/O. Logging, benchmarks and
  locks are left out of the definitions.
\<close>

section \<open>Properties of blocks with their scripts\<close>

text \<open>
  C5: Every input of a connected block is authorised. When \<open>ConnectBlock\<close> connects a block with
  script checks on and none of its transactions in the cache of script executions, each input of
  each transaction after the coinbase has passed the script verification, for the outputs it spends
  among the coins as the earlier transactions of the block left them.
\<close>

theorem block_scripts_verified:
  assumes "scripts_checked cr env cm block p b s undo s' cm'" "0 < k" "k < length (vtx block)" "j < length (vin (vtx block ! k))"
  shows "run_script_check cr (vtx block ! k)
      (spent_by (apply_txs (env_Hash env) (nHeight b) (take k (vtx block)) (cache_coins s)) (vtx block ! k)) j
      (GetBlockScriptFlags p b (env_params env)) = Ok ()"
  by (rule connected_input(1) [OF assms(1-3) refl assms(4) refl])

theorem block_scripts_verified_witness:
  "run_script_check example_crypto hybrid_tx [coin_out hybrid_coin] 0
     (GetBlockScriptFlags (example_hash 2) hybrid_index (CMainParams (example_hash 1))) = Ok ()"
proof -
  obtain undo s' cm' where c: "scripts_checked example_crypto hybrid_env example_manager hybrid_block (example_hash 2) hybrid_index
      (example_cache, hybrid_db) undo s' cm'" by (rule hybrid_scripts_checked)
  have k: "vtx hybrid_block ! 1 = hybrid_tx" "length (vtx hybrid_block) = 2" "take 1 (vtx hybrid_block) = [example_reward]"
    by (simp_all add: hybrid_block_parts)
  have "spent_by (apply_txs (env_Hash hybrid_env) (nHeight hybrid_index) [example_reward] (cache_coins (example_cache, hybrid_db))) hybrid_tx =
      [coin_out hybrid_coin]" using hybrid_spent_coin by (simp add: spent_by_def hybrid_tx_def)
  with block_scripts_verified [OF c, of 1 0] show ?thesis unfolding k by (simp add: hybrid_tx_def hybrid_env_parts)
qed

text \<open>
  C2: A hybrid coin leaves the set of coins only with both signatures. When a block is connected
  with script checks on, and an input of it spends a coin whose script is \<open>OP_2\<close> and a program
  of 32 bytes, then the witness of the input holds an ECDSA key and an ML-DSA key whose SHAKE256
  hash is the program, with signatures by both over the signature hash of the transaction and the
  amount of the coin. The block must not be one for which the parameters give other script flags,
  and none of its transactions may be in the cache of script executions.
\<close>

theorem hybrid_coins_protected:
  assumes "scripts_checked cr env cm block p b s undo s' cm'" "0 < k" "k < length (vtx block)" "j < length (vin (vtx block ! k))"
    and "apply_txs (env_Hash env) (nHeight b) (take k (vtx block)) (cache_coins s) (prevout (vin (vtx block ! k) ! j)) = Some coin"
    and "scriptPubKey (coin_out coin) = hybrid_script_code program" "length program = 32"
    and "script_flag_exceptions (env_params env) p = None"
  shows "hybrid_spent cr (vtx block ! k) j (nValue (coin_out coin)) program"
  using connected_hybrid [OF assms(1-3) refl assms(4) refl assms(5-8)] by blast

theorem hybrid_coins_protected_witness: "hybrid_spent example_crypto hybrid_tx 0 1000 hybrid_key_hash"
proof -
  obtain undo s' cm' where c: "scripts_checked example_crypto hybrid_env example_manager hybrid_block (example_hash 2) hybrid_index
      (example_cache, hybrid_db) undo s' cm'" by (rule hybrid_scripts_checked)
  have k: "vtx hybrid_block ! 1 = hybrid_tx" "length (vtx hybrid_block) = 2" "take 1 (vtx hybrid_block) = [example_reward]"
    by (simp_all add: hybrid_block_parts)
  have coin: "scriptPubKey (coin_out hybrid_coin) = hybrid_script_code hybrid_key_hash" "length hybrid_key_hash = 32" "nValue (coin_out hybrid_coin) = 1000"
    by (simp_all add: hybrid_coin_def hybrid_key_hash_def mk_Coin_def)
  have "script_flag_exceptions (env_params hybrid_env) (example_hash 2) = None" by (simp add: hybrid_env_parts CMainParams_def)
  with hybrid_coins_protected [OF c, of 1 0 hybrid_coin hybrid_key_hash] coin hybrid_spent_coin show ?thesis
    unfolding k by (simp add: hybrid_tx_def)
qed

end
